(* ===== verification/Prelude.thy ===== *)
theory Prelude
  imports Main "HOL-Library.Word"
begin

text \<open>
  Shared material of the development: C integer conversions of the 32-bit x86 build
  (\<open>s16\<close>, \<open>ulong\<close>), the kernel macros \<open>ALIGN\<close> and masking by a power of two, the error
  values that the models return, and a locale for invariants of transition systems that
  every concurrent component interprets.
\<close>

unbundle bit_operations_syntax

named_theorems c_int \<open>conversions between C integer types\<close>

subsection \<open>C integers\<close>

text \<open>Conversion to \<open>s16\<close>, and to the 32-bit \<open>unsigned long\<close> (also \<open>size_t\<close>).\<close>

definition s16 :: "int \<Rightarrow> int" where
  "s16 x = sint (word_of_int x :: 16 word)"

definition ulong :: "int \<Rightarrow> int" where
  "ulong x = x mod 2 ^ 32"

lemma sint_word_of_int_s16 [c_int]:
  "- 32768 \<le> x \<Longrightarrow> x < 32768 \<Longrightarrow> sint (word_of_int x :: 16 word) = x"
  by (simp add: sint_sbintrunc' signed_take_bit_int_eq_self)

lemma sint_word_of_int_s32 [c_int]:
  "- 2147483648 \<le> x \<Longrightarrow> x < 2147483648 \<Longrightarrow> sint (word_of_int x :: 32 word) = x"
  by (simp add: sint_sbintrunc' signed_take_bit_int_eq_self)

lemma s16_id [c_int]: "- 32768 \<le> x \<Longrightarrow> x < 32768 \<Longrightarrow> s16 x = x"
  by (simp add: s16_def sint_word_of_int_s16)

lemma ulong_id [c_int]: "0 \<le> x \<Longrightarrow> x < 4294967296 \<Longrightarrow> ulong x = x"
  by (simp add: ulong_def)

lemma ulong_wrap: "2 ^ 32 \<le> x \<Longrightarrow> x < 2 ^ 33 \<Longrightarrow> ulong x = x - 2 ^ 32"
  unfolding ulong_def using mod_pos_pos_trivial [of "x - 2 ^ 32" "2 ^ 32"] by simp

subsection \<open>Masks and alignment\<close>

text \<open>\<open>ALIGN(x, a)\<close> of \<open>linux/kernel.h\<close>: \<open>((x) + (a) - 1) & ~((a) - 1)\<close>.\<close>

definition ALIGN :: "int \<Rightarrow> int \<Rightarrow> int" where
  "ALIGN x a = (x + a - 1) AND NOT (a - 1)"

lemma and_not_mask: "(x::int) AND NOT (2 ^ k - 1) = x div 2 ^ k * 2 ^ k"
proof -
  have "x AND NOT (mask k) = push_bit k (drop_bit k x)"
    by (rule bit_eqI) (auto simp: bit_simps)
  then show ?thesis
    by (simp add: mask_eq_exp_minus_1 push_bit_eq_mult drop_bit_eq_div)
qed

lemma and_mask_mod: "(x::int) AND (2 ^ k - 1) = x mod 2 ^ k"
  by (metis mask_eq_exp_minus_1 take_bit_eq_mask take_bit_eq_mod)

lemma ALIGN_pow2: "ALIGN x (2 ^ k) = (x + 2 ^ k - 1) div 2 ^ k * 2 ^ k"
  unfolding ALIGN_def by (rule and_not_mask)

lemma ALIGN_dvd: "2 ^ k dvd ALIGN x (2 ^ k)"
  by (simp add: ALIGN_pow2)

lemma ALIGN_ge: "x \<le> ALIGN x (2 ^ k)"
proof -
  let ?a = "2 ^ k :: int"
  have "(x + ?a - 1) mod ?a < ?a" by simp
  moreover have "(x + ?a - 1) div ?a * ?a = x + ?a - 1 - (x + ?a - 1) mod ?a"
    by (simp add: minus_mod_eq_div_mult)
  ultimately show ?thesis unfolding ALIGN_pow2 by linarith
qed

lemma ALIGN_less: "ALIGN x (2 ^ k) < x + 2 ^ k"
proof -
  let ?a = "2 ^ k :: int"
  have "0 \<le> (x + ?a - 1) mod ?a" by simp
  moreover have "(x + ?a - 1) div ?a * ?a = x + ?a - 1 - (x + ?a - 1) mod ?a"
    by (simp add: minus_mod_eq_div_mult)
  ultimately show ?thesis unfolding ALIGN_pow2 by linarith
qed

lemma ALIGN_self:
  assumes "2 ^ k dvd x" shows "ALIGN x (2 ^ k) = x"
proof -
  from assms obtain c where x: "x = 2 ^ k * c" by (rule dvdE)
  have "(2 ^ k * c + (2 ^ k - 1)) div 2 ^ k = c + (2 ^ k - 1) div (2 ^ k :: int)"
    by simp
  also have "(2 ^ k - 1) div (2 ^ k :: int) = 0" by (simp add: div_pos_pos_trivial)
  finally show ?thesis by (simp add: ALIGN_pow2 x add_diff_eq mult.commute)
qed

subsection \<open>Errors as values\<close>

text \<open>
  How a kernel routine can fail to return: a \<open>BUG_ON\<close> that fires, a loop that never ends,
  a list head or a freed object read as if it were an element (wild access).
\<close>

datatype fault = Bug | Hang | Wild

type_synonym 'a result = "fault + 'a"

subsection \<open>Reachable states and invariants\<close>

inductive reach :: "('s \<Rightarrow> bool) \<Rightarrow> ('s \<Rightarrow> 's \<Rightarrow> bool) \<Rightarrow> 's \<Rightarrow> bool"
  for init :: "'s \<Rightarrow> bool" and step :: "'s \<Rightarrow> 's \<Rightarrow> bool" where
  reach_init: "init s \<Longrightarrow> reach init step s"
| reach_step: "reach init step s \<Longrightarrow> step s t \<Longrightarrow> reach init step t"

locale invariant_system =
  fixes init :: "'s \<Rightarrow> bool" and step :: "'s \<Rightarrow> 's \<Rightarrow> bool" and inv :: "'s \<Rightarrow> bool"
  assumes inv_init: "init s \<Longrightarrow> inv s"
    and inv_step: "inv s \<Longrightarrow> step s t \<Longrightarrow> inv t"
begin

lemma reach_inv: "reach init step s \<Longrightarrow> inv s"
  by (induction rule: reach.induct) (auto intro: inv_init inv_step)

end

end
