(* ===== verification/Slob_Block.thy ===== *)
theory Slob_Block
  imports Prelude
begin

text \<open>
  The block encoding of \<open>assignments/a4/slob.c\<close> (lines 79-192): a \<open>slob_t *\<close> is a unit
  address (byte address divided by \<open>SLOB_UNIT\<close>, 2), the memory maps unit addresses to
  16-bit units, and a free block keeps its size and the offset of the next free block in
  its first one or two units. \<open>PAGE_SIZE\<close> is that of x86 (4096), for which
  \<open>slobidx_t\<close> is \<open>s16\<close>.

  The second half gives the block list of a page an abstract value: \<open>fl_ok\<close> is the shape
  of an address-ordered, fully coalesced free list inside one page and \<open>repr\<close> says that
  the memory encodes it.
\<close>

unbundle bit_operations_syntax

subsection \<open>Encoding\<close>

type_synonym mem = "int \<Rightarrow> 16 word"

definition PAGE_SIZE :: int where "PAGE_SIZE = 4096"

definition PAGE_MASK :: int where "PAGE_MASK = NOT (PAGE_SIZE - 1)"

definition SLOB_UNIT :: int where "SLOB_UNIT = 2"

text \<open>\<open>DIV_ROUND_UP(sz, SLOB_UNIT)\<close> in \<open>size_t\<close> arithmetic.\<close>

definition SLOB_UNITS :: "int \<Rightarrow> int" where
  "SLOB_UNITS sz = ulong (ulong sz + SLOB_UNIT - 1) div SLOB_UNIT"

text \<open>\<open>(slob_t *)((unsigned long)s & PAGE_MASK)\<close>.\<close>

definition slob_base :: "int \<Rightarrow> int" where
  "slob_base s = (SLOB_UNIT * s AND PAGE_MASK) div SLOB_UNIT"

definition set_slob :: "mem \<Rightarrow> int \<Rightarrow> int \<Rightarrow> int \<Rightarrow> mem" where
  "set_slob m s n next =
     (let sz = s16 n; base = slob_base s; offset = s16 (next - base) in
      if sz > 1 then m(s := word_of_int sz, s + 1 := word_of_int offset)
      else m(s := word_of_int (- offset)))"

definition slob_units :: "mem \<Rightarrow> int \<Rightarrow> int" where
  "slob_units m s = (if sint (m s) > 0 then sint (m s) else 1)"

definition slob_next :: "mem \<Rightarrow> int \<Rightarrow> int" where
  "slob_next m s =
     (let base = slob_base s;
          next = s16 (if sint (m s) < 0 then - sint (m s) else sint (m (s + 1)))
      in base + next)"

definition slob_last :: "mem \<Rightarrow> int \<Rightarrow> bool" where
  "slob_last m s \<longleftrightarrow> (SLOB_UNIT * slob_next m s AND NOT PAGE_MASK) = 0"

subsection \<open>Units and page arithmetic\<close>

abbreviation PU :: int where "PU \<equiv> 2048"

lemma SLOB_UNITS_eq: "0 \<le> n \<Longrightarrow> n < 4294967295 \<Longrightarrow> SLOB_UNITS n = (n + 1) div 2"
  by (simp add: SLOB_UNITS_def SLOB_UNIT_def c_int)

lemma SLOB_UNITS_PAGE_SIZE [simp]: "SLOB_UNITS PAGE_SIZE = PU"
  by (simp add: SLOB_UNITS_eq PAGE_SIZE_def)

lemma SLOB_UNITS_pos: "0 < n \<Longrightarrow> n \<le> PAGE_SIZE \<Longrightarrow> 1 \<le> SLOB_UNITS n"
  by (simp add: SLOB_UNITS_eq PAGE_SIZE_def)

lemma SLOB_UNITS_le: "0 < n \<Longrightarrow> n \<le> PAGE_SIZE \<Longrightarrow> SLOB_UNITS n \<le> PU"
  by (simp add: SLOB_UNITS_eq PAGE_SIZE_def)

lemma SLOB_UNITS_covers: "0 \<le> n \<Longrightarrow> n < 4294967295 \<Longrightarrow> n \<le> 2 * SLOB_UNITS n"
  by (simp add: SLOB_UNITS_eq)

lemma slob_base_eq: "slob_base s = s div PU * PU"
proof -
  have "2 * s AND PAGE_MASK = 2 * s div 4096 * 4096"
    using and_not_mask [of "2 * s" 12] by (simp add: PAGE_MASK_def PAGE_SIZE_def)
  then show ?thesis by (simp add: slob_base_def SLOB_UNIT_def)
qed

lemma slob_base_page:
  assumes "PU dvd b" and "b \<le> s" and "s < b + PU"
  shows "slob_base s = b"
proof -
  from assms(1) obtain c where "b = PU * c" by (rule dvdE)
  with assms(2,3) show ?thesis by (simp add: slob_base_eq)
qed

lemma slob_last_eq: "slob_last m s \<longleftrightarrow> slob_next m s mod PU = 0"
proof -
  have "(2 * x AND NOT PAGE_MASK) = 2 * x mod 4096" for x :: int
    using and_mask_mod [of "2 * x" 12] by (simp add: PAGE_MASK_def PAGE_SIZE_def)
  then have "slob_last m s \<longleftrightarrow> 2 * slob_next m s mod (2 * PU) = 0"
    by (simp add: slob_last_def SLOB_UNIT_def)
  also have "2 * slob_next m s mod (2 * PU) = 2 * (slob_next m s mod PU)"
    by (rule mod_mult_mult1)
  finally show ?thesis by simp
qed

lemma page_end_iff:
  assumes "PU * p < nx" and "nx \<le> PU * p + PU"
  shows "nx mod PU = 0 \<longleftrightarrow> nx = PU * p + PU"
proof -
  define d where "d = nx - PU * p"
  have "nx mod PU = d mod PU" by (simp add: d_def mod_diff_eq [symmetric])
  moreover have "d mod PU = 0 \<longleftrightarrow> d = PU"
    using assms by (cases "d = PU") (auto simp: d_def)
  ultimately show ?thesis by (auto simp: d_def)
qed

subsection \<open>One free block\<close>

text \<open>
  \<open>is_block m s n nx\<close>: the memory at \<open>s\<close> encodes a free block of \<open>n\<close> units whose
  successor is \<open>nx\<close>. A block of one unit is in the negative form, so that the block is
  determined by its own units.
\<close>

definition is_block :: "mem \<Rightarrow> int \<Rightarrow> int \<Rightarrow> int \<Rightarrow> bool" where
  "is_block m s n nx \<longleftrightarrow>
     slob_units m s = n \<and> slob_next m s = nx \<and> (n = 1 \<longrightarrow> sint (m s) < 0)"

lemma is_block_cong:
  assumes "\<And>a. s \<le> a \<Longrightarrow> a < s + n \<Longrightarrow> m' a = m a" and "1 \<le> n"
  shows "is_block m' s n nx = is_block m s n nx"
proof (cases "n = 1")
  case True
  with assms(1) [of s] have "m' s = m s" by simp
  then show ?thesis
    by (auto simp: is_block_def slob_units_def slob_next_def True Let_def)
next
  case False
  with assms have "m' s = m s" and "m' (s + 1) = m (s + 1)" by auto
  then show ?thesis by (auto simp: is_block_def slob_units_def slob_next_def Let_def)
qed

lemma set_slob_block:
  assumes "PU dvd b" and "b \<le> s" and "s < b + PU" and "1 \<le> n" and "n \<le> PU"
    and "b < nx" and "nx \<le> b + PU"
  shows "is_block (set_slob m s n nx) s n nx"
proof -
  define d where "d = nx - b"
  with assms have nx: "nx = b + d" and d: "1 \<le> d" "d \<le> PU" by auto
  then have "s16 d = d" "s16 n = n" "sint (word_of_int d :: 16 word) = d"
    "sint (word_of_int (- d) :: 16 word) = - d"
    "sint (word_of_int n :: 16 word) = n" using assms by (auto simp: c_int simp del: of_int_minus)
  moreover have "slob_base s = b" using assms by (simp add: slob_base_page)
  ultimately show ?thesis using assms(4) d
    by (auto simp: is_block_def slob_units_def slob_next_def set_slob_def Let_def nx)
qed

lemma set_slob_frame:
  "a < s \<or> s + n \<le> a \<Longrightarrow> 1 \<le> n \<Longrightarrow> set_slob m s n nx a = m a"
  by (cases "n = 1") (auto simp: set_slob_def Let_def c_int)

subsection \<open>The free list of a page\<close>

type_synonym blocks = "(int \<times> int) list"

text \<open>Where a list of blocks starts: its first block, or the given end.\<close>

fun nxt :: "int \<Rightarrow> blocks \<Rightarrow> int" where
  "nxt e [] = e"
| "nxt e ((s, n) # bs) = s"

text \<open>Blocks in address order from \<open>lo\<close>, inside the page that ends at \<open>e\<close>, no two adjacent.\<close>

fun fl_ok :: "int \<Rightarrow> int \<Rightarrow> blocks \<Rightarrow> bool" where
  "fl_ok e lo [] = True"
| "fl_ok e lo ((s, n) # bs) = (lo \<le> s \<and> 1 \<le> n \<and> s + n \<le> e \<and> fl_ok e (s + n + 1) bs)"

fun repr :: "mem \<Rightarrow> int \<Rightarrow> blocks \<Rightarrow> bool" where
  "repr m e [] = True"
| "repr m e ((s, n) # bs) = (is_block m s n (nxt e bs) \<and> repr m e bs)"

definition bunits :: "blocks \<Rightarrow> int set" where
  "bunits bs = (\<Union>(s, n) \<in> set bs. {s ..< s + n})"

definition bsum :: "blocks \<Rightarrow> int" where
  "bsum bs = sum_list (map snd bs)"

lemma bunits_simps [simp]:
  "bunits [] = {}"
  "bunits ((s, n) # bs) = {s ..< s + n} \<union> bunits bs"
  "bunits (xs @ ys) = bunits xs \<union> bunits ys"
  by (auto simp: bunits_def)

lemma bsum_simps [simp]:
  "bsum [] = 0"
  "bsum ((s, n) # bs) = n + bsum bs"
  "bsum (xs @ ys) = bsum xs + bsum ys"
  by (auto simp: bsum_def)

lemma fl_ok_mono: "fl_ok e lo bs \<Longrightarrow> lo' \<le> lo \<Longrightarrow> fl_ok e lo' bs"
  by (cases bs) auto

lemma fl_ok_lower: "fl_ok e lo bs \<Longrightarrow> a \<in> bunits bs \<Longrightarrow> lo \<le> a"
  by (induction e lo bs rule: fl_ok.induct) fastforce+

lemma fl_ok_upper: "fl_ok e lo bs \<Longrightarrow> a \<in> bunits bs \<Longrightarrow> a < e"
  by (induction e lo bs rule: fl_ok.induct) fastforce+

lemma fl_ok_nxt: "fl_ok e lo bs \<Longrightarrow> lo \<le> e \<Longrightarrow> lo \<le> nxt e bs \<and> nxt e bs \<le> e"
  by (cases bs) auto

lemma fl_ok_append:
  "fl_ok e lo (xs @ ys) \<longleftrightarrow>
     fl_ok e lo xs \<and> fl_ok e (if xs = [] then lo else fst (last xs) + snd (last xs) + 1) ys"
  by (induction e lo xs rule: fl_ok.induct) auto

lemma nxt_append [simp]: "nxt e (xs @ ys) = nxt (nxt e ys) xs"
  by (cases xs) auto

lemma repr_append: "repr m e (xs @ ys) \<longleftrightarrow> repr m (nxt e ys) xs \<and> repr m e ys"
  by (induction m e xs rule: repr.induct) auto

lemma fl_ok_sum_card:
  assumes "fl_ok e lo bs" shows "bsum bs = int (card (bunits bs)) \<and> finite (bunits bs)"
  using assms
proof (induction e lo bs rule: fl_ok.induct)
  case (2 e lo s n bs)
  then have ih: "bsum bs = int (card (bunits bs))" "finite (bunits bs)" and n: "1 \<le> n"
    by auto
  have "{s ..< s + n} \<inter> bunits bs = {}"
    using 2(2) fl_ok_lower [of e "s + n + 1" bs] by fastforce
  with ih have "card ({s ..< s + n} \<union> bunits bs) = card {s ..< s + n} + card (bunits bs)"
    by (intro card_Un_disjoint) auto
  with ih n show ?case by simp
qed simp

lemma bsum_nonneg: "fl_ok e lo bs \<Longrightarrow> 0 \<le> bsum bs"
  using fl_ok_sum_card [of e lo bs] by simp

lemma bsum_pos: "fl_ok e lo bs \<Longrightarrow> bs \<noteq> [] \<Longrightarrow> 0 < bsum bs"
  using bsum_nonneg by (cases bs) fastforce+

text \<open>The encoding of a free list depends on its own units only.\<close>

lemma repr_cong:
  assumes "\<And>a. a \<in> bunits bs \<Longrightarrow> m' a = m a" and "fl_ok e' lo bs"
  shows "repr m' e bs = repr m e bs"
  using assms
proof (induction bs arbitrary: lo)
  case (Cons b bs)
  obtain s n where b: "b = (s, n)" by force
  from Cons.prems b have "repr m' e bs = repr m e bs"
    by (intro Cons.IH) auto
  moreover from Cons.prems b have "is_block m' s n (nxt e bs) = is_block m s n (nxt e bs)"
    by (intro is_block_cong) auto
  ultimately show ?case using b by simp
qed simp

lemma repr_frame:
  assumes "repr m e bs" and "fl_ok e' lo bs" and "\<And>a. a \<notin> X \<Longrightarrow> m' a = m a"
    and "bunits bs \<inter> X = {}"
  shows "repr m' e bs"
proof -
  have "repr m' e bs = repr m e bs"
    using assms(3,4) by (intro repr_cong [OF _ assms(2)]) blast
  with assms(1) show ?thesis by simp
qed

lemma repr_set_slob_frame:
  assumes "fl_ok e' lo bs" and "1 \<le> n" and "{s ..< s + n} \<inter> bunits bs = {}"
  shows "repr (set_slob m s n nx) e bs = repr m e bs"
proof (rule repr_cong [OF _ assms(1)])
  fix a assume "a \<in> bunits bs"
  with assms(3) have "a \<notin> {s ..< s + n}" by blast
  then have "a < s \<or> s + n \<le> a" by auto
  then show "set_slob m s n nx a = m a" using assms(2) by (rule set_slob_frame)
qed

lemma fl_ok_append_disjoint: "fl_ok e lo (xs @ ys) \<Longrightarrow> bunits xs \<inter> bunits ys = {}"
proof (induction xs arbitrary: lo)
  case (Cons b xs)
  obtain s n where b: "b = (s, n)" by force
  with Cons have "bunits xs \<inter> bunits ys = {}" by auto
  moreover from Cons.prems b have "fl_ok e (s + n + 1) (xs @ ys)" by simp
  then have "{s ..< s + n} \<inter> bunits ys = {}"
    using fl_ok_lower [of e "s + n + 1" "xs @ ys"] by fastforce
  ultimately show ?case using b by auto
qed simp

text \<open>Redirecting the last block of a list: only its successor changes.\<close>

lemma repr_set_last:
  assumes "repr m e (xs @ [(s, n)])" and ok: "fl_ok (b + PU) b (xs @ [(s, n)])"
    and "PU dvd b" and "b < nx" and "nx \<le> b + PU"
  shows "repr (set_slob m s n nx) nx (xs @ [(s, n)])"
proof -
  from ok have okx: "fl_ok (b + PU) b xs" and n: "1 \<le> n" "s + n \<le> b + PU"
    by (auto simp: fl_ok_append)
  have "b \<le> s" using fl_ok_lower [OF ok, of s] n by simp
  with assms n have "is_block (set_slob m s n nx) s n nx"
    by (intro set_slob_block) auto
  moreover have "repr (set_slob m s n nx) s xs = repr m s xs"
    using fl_ok_append_disjoint [OF ok] n by (intro repr_set_slob_frame [OF okx]) auto
  ultimately show ?thesis using assms(1) by (simp add: repr_append)
qed

end
