(* ===== verification/Slob_Page.thy ===== *)
theory Slob_Page
  imports Slob_Block
begin

text \<open>
  Pages, the three page lists and \<open>slob_page_alloc\<close> (\<open>assignments/a4/slob.c\<close>, lines
  99-126 and 218-267). A page is named by its frame number, unit address div 2048. A
  kernel list is the HOL list of the pages on it, in order after the list head.

  The main result is a refinement: on a page whose memory encodes a block list,
  \<open>slob_page_alloc\<close> returns (it never loops for ever) and performs exactly the list-level
  address-ordered first fit \<open>ff_alloc\<close>, whose effect on the set of free units is then
  characterised.
\<close>

subsection \<open>State\<close>

text \<open>
  \<open>struct page\<close>: the free units, the first free block, and the page flags
  \<open>PageSlobFree\<close> and \<open>PageSlab\<close>.
\<close>

record page =
  pg_units :: int
  pg_freelist :: int
  pg_slobfree :: bool
  pg_slab :: bool

datatype slob_class = Small | Medium | Large

instantiation slob_class :: enum
begin

definition enum_slob_class :: "slob_class list" where
  "enum_slob_class = [Small, Medium, Large]"

definition enum_all_slob_class :: "(slob_class \<Rightarrow> bool) \<Rightarrow> bool" where
  "enum_all_slob_class P \<longleftrightarrow> P Small \<and> P Medium \<and> P Large"

definition enum_ex_slob_class :: "(slob_class \<Rightarrow> bool) \<Rightarrow> bool" where
  "enum_ex_slob_class P \<longleftrightarrow> P Small \<or> P Medium \<or> P Large"

instance
proof
  have all: "UNIV = {Small, Medium, Large}" by (auto intro: slob_class.exhaust)
  show "UNIV = set (enum_class.enum :: slob_class list)" by (simp add: all enum_slob_class_def)
  show "enum_class.enum_all P \<longleftrightarrow> Ball UNIV P" and "enum_class.enum_ex P \<longleftrightarrow> Bex UNIV P" for P :: "slob_class \<Rightarrow> bool"
    by (simp_all add: all enum_all_slob_class_def enum_ex_slob_class_def)
qed (simp add: enum_slob_class_def)

end

text \<open>
  The allocator: unit memory, page descriptors, the three lists, the counter \<open>pages\<close>,
  \<open>current->reclaim_state->reclaimed_slab\<close> (\<open>None\<close> for no reclaim state), the calls made
  to the page allocator's \<open>free_pages\<close> as (page, order), latest first, and the \<open>rcu_head\<close>s
  passed to \<open>call_rcu\<close> and not yet run, as byte addresses.
\<close>

record slob =
  s_mem :: mem
  s_pg :: "int \<Rightarrow> page"
  s_list :: "slob_class \<Rightarrow> int list"
  s_pages :: "32 word"
  s_reclaimed :: "int option"
  s_freed :: "(int \<times> int) list"
  s_rcu :: "int list"

definition slob_page_free :: "slob \<Rightarrow> int \<Rightarrow> bool" where
  "slob_page_free s sp = pg_slobfree (s_pg s sp)"

definition upd_page :: "int \<Rightarrow> (page \<Rightarrow> page) \<Rightarrow> slob \<Rightarrow> slob" where
  "upd_page sp f s = s\<lparr>s_pg := (s_pg s)(sp := f (s_pg s sp))\<rparr>"

text \<open>\<open>list_add\<close> puts the page first; \<open>list_del\<close> takes it off the list it is on.\<close>

definition set_slob_page_free :: "slob \<Rightarrow> int \<Rightarrow> slob_class \<Rightarrow> slob" where
  "set_slob_page_free s sp c =
     upd_page sp (\<lambda>p. p\<lparr>pg_slobfree := True\<rparr>)
       (s\<lparr>s_list := (s_list s)(c := sp # s_list s c)\<rparr>)"

definition clear_slob_page_free :: "slob \<Rightarrow> int \<Rightarrow> slob" where
  "clear_slob_page_free s sp =
     upd_page sp (\<lambda>p. p\<lparr>pg_slobfree := False\<rparr>)
       (s\<lparr>s_list := (\<lambda>c. filter (\<lambda>q. q \<noteq> sp) (s_list s c))\<rparr>)"

subsection \<open>slob\_page\_alloc\<close>

text \<open>Units to skip so that the block at \<open>cur\<close> is aligned (lines 229-232).\<close>

definition slob_delta :: "int \<Rightarrow> int \<Rightarrow> int" where
  "slob_delta align cur =
     (if align \<noteq> 0 then ALIGN (SLOB_UNIT * cur) align div SLOB_UNIT - cur else 0)"

text \<open>The search loop: the predecessor and address of the first block with enough room.\<close>

partial_function (option) slob_page_find ::
  "mem \<Rightarrow> int \<Rightarrow> int \<Rightarrow> int option \<Rightarrow> int \<Rightarrow> (int option \<times> int) option option" where
  "slob_page_find m units align prev cur =
     (if slob_units m cur \<ge> units + slob_delta align cur then Some (Some (prev, cur))
      else if slob_last m cur then Some None
      else slob_page_find m units align (Some cur) (slob_next m cur))"

text \<open>Fragment the head to align (lines 236-243).\<close>

definition slob_split :: "mem \<Rightarrow> int option \<Rightarrow> int \<Rightarrow> int \<Rightarrow> mem \<times> int option \<times> int" where
  "slob_split m prev cur delta =
     (if delta \<noteq> 0 then
        (let aligned = cur + delta; next = slob_next m cur;
             m1 = set_slob m aligned (slob_units m cur - delta) next;
             m2 = set_slob m1 cur delta aligned
         in (m2, Some cur, aligned))
      else (m, prev, cur))"

text \<open>Unlink an exact fit or fragment (lines 245-257): the memory and the page's free list.\<close>

definition slob_unlink :: "mem \<Rightarrow> int option \<Rightarrow> int \<Rightarrow> int \<Rightarrow> int \<Rightarrow> mem \<times> int" where
  "slob_unlink m prev cur units fl =
     (let avail = slob_units m cur; next = slob_next m cur in
      if avail = units then
        (case prev of Some p \<Rightarrow> (set_slob m p (slob_units m p) next, fl) | None \<Rightarrow> (m, next))
      else
        (let (m', fl') =
           (case prev of Some p \<Rightarrow> (set_slob m p (slob_units m p) (cur + units), fl)
            | None \<Rightarrow> (m, cur + units))
         in (set_slob m' (cur + units) (avail - units) next, fl')))"

definition slob_page_take :: "slob \<Rightarrow> int \<Rightarrow> int \<Rightarrow> int \<Rightarrow> int option \<Rightarrow> int \<Rightarrow> slob \<times> int" where
  "slob_page_take s sp units align prev0 cur0 =
     (let (m1, prev, cur) = slob_split (s_mem s) prev0 cur0 (slob_delta align cur0);
          (m2, fl) = slob_unlink m1 prev cur units (pg_freelist (s_pg s sp));
          s1 = upd_page sp (\<lambda>p. p\<lparr>pg_freelist := fl, pg_units := pg_units p - units\<rparr>)
                 (s\<lparr>s_mem := m2\<rparr>);
          s2 = (if pg_units (s_pg s1 sp) = 0 then clear_slob_page_free s1 sp else s1)
      in (s2, cur))"

definition slob_page_alloc :: "slob \<Rightarrow> int \<Rightarrow> int \<Rightarrow> int \<Rightarrow> (slob \<times> int option) result" where
  "slob_page_alloc s sp sz align =
     (let units = SLOB_UNITS sz in
      case slob_page_find (s_mem s) units align None (pg_freelist (s_pg s sp)) of
        None \<Rightarrow> Inl Hang
      | Some None \<Rightarrow> Inr (s, None)
      | Some (Some (prev, cur)) \<Rightarrow>
          (let (s', b) = slob_page_take s sp units align prev cur in Inr (s', Some b)))"

subsection \<open>First fit on block lists\<close>

text \<open>What is left of a block \<open>(s, n)\<close> after \<open>u\<close> units are taken at \<open>s + d\<close>.\<close>

definition leftover :: "int \<Rightarrow> int \<Rightarrow> int \<Rightarrow> int \<Rightarrow> blocks" where
  "leftover u d s n =
     (if d = 0 then [] else [(s, d)]) @ (if n - d = u then [] else [(s + d + u, n - d - u)])"

fun ff_alloc :: "int \<Rightarrow> int \<Rightarrow> blocks \<Rightarrow> (int \<times> blocks) option" where
  "ff_alloc u al [] = None"
| "ff_alloc u al ((s, n) # bs) =
     (let d = slob_delta al s in
      if n \<ge> u + d then Some (s + d, leftover u d s n @ bs)
      else map_option (apsnd ((#) (s, n))) (ff_alloc u al bs))"

text \<open>An alignment the code is called with: none, or a power of two.\<close>

definition align_ok :: "int \<Rightarrow> bool" where
  "align_ok al \<longleftrightarrow> al = 0 \<or> (\<exists>k. al = 2 ^ k)"

lemma slob_delta_nonneg:
  assumes "align_ok al" shows "0 \<le> slob_delta al s"
proof -
  have "s \<le> ALIGN (2 * s) (2 ^ k) div 2" for k
    using ALIGN_ge [of "2 * s" k] by linarith
  with assms show ?thesis
    by (auto simp: slob_delta_def align_ok_def SLOB_UNIT_def)
qed

lemma slob_delta_aligned:
  assumes "align_ok al" and "al \<noteq> 0" shows "al dvd 2 * (s + slob_delta al s)"
proof -
  from assms obtain k where al: "al = 2 ^ k" by (auto simp: align_ok_def)
  have "even (ALIGN (2 * s) (2 ^ k))"
  proof (cases k)
    case 0
    then show ?thesis using ALIGN_self [of 0 "2 * s"] by simp
  next
    case (Suc j)
    have "2 dvd (2 ^ k :: int)" using Suc by simp
    also have "2 ^ k dvd ALIGN (2 * s) (2 ^ k)" by (rule ALIGN_dvd)
    finally show ?thesis .
  qed
  then have "2 * (s + slob_delta al s) = ALIGN (2 * s) (2 ^ k)"
    using assms(2) by (simp add: slob_delta_def SLOB_UNIT_def al)
  then show ?thesis by (simp add: al ALIGN_dvd)
qed

lemma ff_alloc_none:
  "\<forall>(t, k) \<in> set bs. k < u + slob_delta al t \<Longrightarrow> ff_alloc u al bs = None"
  by (induction bs) auto

lemma ff_alloc_fit:
  "\<forall>(t, k) \<in> set p. k < u + slob_delta al t \<Longrightarrow> u + slob_delta al s \<le> n \<Longrightarrow>
   ff_alloc u al (p @ (s, n) # q) =
     Some (s + slob_delta al s, p @ leftover u (slob_delta al s) s n @ q)"
  by (induction p) (auto simp: Let_def)

subsection \<open>The search loop ends at the first fit\<close>

lemma is_block_units: "is_block m s n nx \<Longrightarrow> slob_units m s = n"
  by (simp add: is_block_def)

lemma is_block_next: "is_block m s n nx \<Longrightarrow> slob_next m s = nx"
  by (simp add: is_block_def)

lemma not_page_end:
  assumes "PU dvd e" and "e - PU < x" and "x < e" shows "x mod PU \<noteq> 0"
proof
  assume "x mod PU = 0"
  then obtain c where "x = PU * c" by (auto elim: dvdE)
  moreover from assms(1) obtain d where "e = PU * d" by (rule dvdE)
  ultimately show False using assms(2,3) by simp
qed

lemma slob_page_find_step:
  assumes "is_block m s n nx"
  shows "u + slob_delta al s \<le> n \<Longrightarrow> slob_page_find m u al prev s = Some (Some (prev, s))"
    and "\<not> u + slob_delta al s \<le> n \<Longrightarrow> slob_last m s \<Longrightarrow> slob_page_find m u al prev s = Some None"
    and "\<not> u + slob_delta al s \<le> n \<Longrightarrow> \<not> slob_last m s \<Longrightarrow>
      slob_page_find m u al prev s = slob_page_find m u al (Some s) nx"
  using is_block_units [OF assms] is_block_next [OF assms] by (simp_all add: slob_page_find.simps [of m u al prev])

lemma slob_page_find_fits:
  assumes "repr m e bs" and "fl_ok e lo bs" and "bs \<noteq> []" and "PU dvd e" and "e - PU \<le> lo"
  shows "(\<forall>(t, k) \<in> set bs. k < u + slob_delta al t) \<and>
           slob_page_find m u al prev (nxt e bs) = Some None
       \<or> (\<exists>p s n q. bs = p @ (s, n) # q \<and> (\<forall>(t, k) \<in> set p. k < u + slob_delta al t) \<and>
           u + slob_delta al s \<le> n \<and>
           slob_page_find m u al prev (nxt e bs) =
             Some (Some (if p = [] then prev else Some (fst (last p)), s)))"
  using assms
proof (induction bs arbitrary: lo prev)
  case (Cons b bs)
  obtain s n where b: "b = (s, n)" by force
  with Cons.prems have blk: "is_block m s n (nxt e bs)" by simp
  note find = slob_page_find_step [OF blk, of u al prev] and nx = is_block_next [OF blk]
  consider (fits) "u + slob_delta al s \<le> n" | (last) "\<not> u + slob_delta al s \<le> n" "bs = []"
    | (more) t k r where "\<not> u + slob_delta al s \<le> n" "bs = (t, k) # r" by (cases bs) auto
  then show ?case
  proof cases
    case fits
    with find(1) b show ?thesis by (intro disjI2 exI [of _ "[]"]) auto
  next
    case last
    with Cons.prems(4) have "slob_last m s" by (simp add: slob_last_eq nx)
    with find(2) last b show ?thesis by simp
  next
    case more
    with Cons.prems b have "e - PU < t" "t < e" by auto
    with more Cons.prems(4) have "\<not> slob_last m s" by (simp add: slob_last_eq nx not_page_end)
    note eq = find(3) [OF more(1) this]
    from Cons.prems b more(2) have "repr m e bs" "fl_ok e (s + n + 1) bs" "e - PU \<le> s + n + 1" "bs \<noteq> []" by auto
    from Cons.IH [OF this(1,2,4) Cons.prems(4) this(3), of "Some s"] show ?thesis
    proof (elim disjE exE conjE)
      fix p s' n' q
      assume "bs = p @ (s', n') # q" and "\<forall>(t, k) \<in> set p. k < u + slob_delta al t"
        and "u + slob_delta al s' \<le> n'"
        and "slob_page_find m u al (Some s) (nxt e bs) =
             Some (Some (if p = [] then Some s else Some (fst (last p)), s'))"
      with more(1) b eq show ?thesis
        by (intro disjI2 exI [of _ "b # p"] exI [of _ s'] exI [of _ n'] exI [of _ q]) auto
    qed (use more(1) b eq in simp_all)
  qed
qed simp

subsection \<open>Taking the block\<close>

text \<open>
  \<open>prev_of P\<close> is the loop's \<open>prev\<close> once the blocks \<open>P\<close> have been passed. Unlinking the block
  \<open>(c, av)\<close> that follows \<open>P\<close> leaves the encoding of \<open>P\<close>, the rest of the block and \<open>q\<close>.
\<close>

definition prev_of :: "blocks \<Rightarrow> int option" where
  "prev_of P = (if P = [] then None else Some (fst (last P)))"

lemma repr_redirect:
  assumes "repr m x P" and "fl_ok (b + PU) b P" and "PU dvd b" and "b < nx" and "nx \<le> b + PU"
    and "m' = (case prev_of P of None \<Rightarrow> m | Some p \<Rightarrow> set_slob m p (slob_units m p) nx)"
  shows "repr m' nx P" and "a \<notin> bunits P \<Longrightarrow> m' a = m a"
proof -
  have "repr m' nx P \<and> (a \<notin> bunits P \<longrightarrow> m' a = m a)"
  proof (cases P rule: rev_cases)
    case Nil
    with assms(6) show ?thesis by (simp add: prev_of_def)
  next
    case (snoc ys y)
    obtain s n where y: "y = (s, n)" by force
    with assms(1,2) snoc have "slob_units m s = n" and n: "1 \<le> n"
      by (auto simp: repr_append fl_ok_append is_block_units)
    with assms(6) snoc y have m': "m' = set_slob m s n nx" by (simp add: prev_of_def)
    have "repr (set_slob m s n nx) nx (ys @ [(s, n)])"
      using assms(1-5) snoc y by (intro repr_set_last [of m x]) auto
    then have "repr m' nx P" by (simp add: m' snoc y)
    moreover have "a \<notin> bunits P \<longrightarrow> m' a = m a"
      using n unfolding m' by (auto simp: snoc y intro!: set_slob_frame)
    ultimately show ?thesis by blast
  qed
  then show "repr m' nx P" and "a \<notin> bunits P \<Longrightarrow> m' a = m a" by auto
qed

lemma slob_unlink_repr:
  assumes b: "PU dvd b" "e = b + PU"
    and P: "repr m x P" "fl_ok e b P" "P \<noteq> [] \<Longrightarrow> fl = nxt x P"
    and blk: "is_block m c av (nxt e q)" and q: "repr m e q" "fl_ok e (c + av + 1) q"
    and u: "1 \<le> u" "u \<le> av" and c: "b \<le> c" "c + av \<le> e"
    and disj: "{c ..< c + av} \<inter> bunits P = {}" "bunits q \<inter> bunits P = {}"
    and rest: "rest = (if av = u then [] else [(c + u, av - u)])"
    and eq: "slob_unlink m (prev_of P) c u fl = (m', fl')"
  shows "repr m' e (P @ rest @ q)" and "fl' = nxt e (P @ rest @ q)"
    and "a \<notin> bunits P \<union> {c ..< c + av} \<Longrightarrow> m' a = m a"
proof -
  define nx where "nx = nxt e (rest @ q)"
  define m1 where "m1 = (case prev_of P of None \<Rightarrow> m | Some p \<Rightarrow> set_slob m p (slob_units m p) nx)"
  note sizes = is_block_units [OF blk] is_block_next [OF blk]
  have nq: "c + av \<le> nxt e q" "nxt e q \<le> e" using q(2) c by (cases q; auto)+
  then have nx: "b < nx" "nx \<le> b + PU" using u c b(2) by (auto simp: nx_def rest)
  from repr_redirect [OF P(1) _ b(1) nx m1_def] P(2) b(2)
  have r1: "repr m1 nx P" and f1: "\<And>a. a \<notin> bunits P \<Longrightarrow> m1 a = m a" by auto
  have q1: "repr m1 e q"
    using q f1 disj(2) by (subst repr_cong [where m = m]) auto
  have fl': "fl' = nxt e (P @ rest @ q)" and m': "m' = (if av = u then m1 else
      set_slob m1 (c + u) (av - u) (nxt e q))"
    using eq P(3) unfolding m1_def nx_def rest
    by (cases P; auto simp: slob_unlink_def prev_of_def sizes Let_def split: if_splits)+
  show "fl' = nxt e (P @ rest @ q)" by (rule fl')
  have f2: "m' a = m1 a" if "a \<notin> {c + u ..< c + av}" for a
    using that u by (auto simp: m' intro!: set_slob_frame)
  then show "a \<notin> bunits P \<union> {c ..< c + av} \<Longrightarrow> m' a = m a"
    using f1 u by auto
  have "{c + u ..< c + av} \<subseteq> {c ..< c + av}" using u by auto
  then have "bunits P \<inter> {c + u ..< c + av} = {}" using disj(1) by blast
  then have rP: "repr m' nx P" by (intro repr_frame [OF r1 P(2) f2])
  have rq: "repr m' e q" using q1 f2 fl_ok_lower [OF q(2)]
    by (subst repr_cong [where m = m1, OF _ q(2)]) force+
  have "is_block m' (c + u) (av - u) (nxt e q)" if "av \<noteq> u"
    using that b u c nq by (simp add: m' set_slob_block [of b])
  with rP rq show "repr m' e (P @ rest @ q)" by (simp add: repr_append nx_def rest)
qed

lemma fl_ok_cut:
  assumes "fl_ok e lo (p @ (s, n) # q)" and "1 \<le> u" and "0 \<le> d" and "u + d \<le> n"
  shows "fl_ok e lo (p @ leftover u d s n @ q)"
  using assms by (auto simp: fl_ok_append leftover_def elim!: fl_ok_mono)

lemma bunits_cut:
  assumes ok: "fl_ok e lo (p @ (s, n) # q)" and "1 \<le> u" and "0 \<le> d" and "u + d \<le> n"
  shows "bunits (p @ leftover u d s n @ q) =
           bunits (p @ (s, n) # q) - {s + d ..< s + d + u}"
proof -
  have "bunits p \<inter> bunits ((s, n) # q) = {}" by (rule fl_ok_append_disjoint [OF ok])
  then have p: "bunits p \<inter> {s + d ..< s + d + u} = {}" using assms(3,4) by auto
  from ok have "fl_ok e (s + n + 1) q" by (simp add: fl_ok_append)
  then have "bunits q \<inter> {s + d ..< s + d + u} = {}"
    using fl_ok_lower assms(4) by fastforce
  moreover have "bunits (leftover u d s n) = {s ..< s + n} - {s + d ..< s + d + u}"
    using assms by (auto simp: leftover_def)
  ultimately show ?thesis using p by auto
qed

lemma bsum_cut: "bsum (p @ leftover u d s n @ q) = bsum (p @ (s, n) # q) - u"
  by (auto simp: leftover_def)

lemma fl_ok_middle:
  assumes "fl_ok e b (p @ (s, n) # q)"
  shows "fl_ok e b p" and "fl_ok e (s + n + 1) q" and "b \<le> s" and "1 \<le> n" and "s + n \<le> e"
    and "bunits p \<inter> {s ..< s + n} = {}" and "bunits p \<inter> bunits q = {}"
    and "bunits q \<inter> {s ..< s + n} = {}"
proof -
  from assms show n: "1 \<le> n" and q: "fl_ok e (s + n + 1) q" and "fl_ok e b p" and "s + n \<le> e"
    by (auto simp: fl_ok_append)
  show "b \<le> s" using fl_ok_lower [OF assms, of s] n by simp
  show "bunits p \<inter> {s ..< s + n} = {}" and "bunits p \<inter> bunits q = {}"
    using fl_ok_append_disjoint [OF assms] by auto
  show "bunits q \<inter> {s ..< s + n} = {}" using fl_ok_lower [OF q] by force
qed

lemma slob_split_repr:
  assumes b: "PU dvd b" "e = b + PU" and r: "repr m e (p @ (s, n) # q)"
    and ok: "fl_ok e b (p @ (s, n) # q)" and d: "0 \<le> d" "d < n"
    and split: "slob_split m (prev_of p) s d = (m1, prev, c)"
    and P: "P = (if d = 0 then p else p @ [(s, d)])"
  shows "c = s + d" and "prev = prev_of P" and "repr m1 c P"
    and "is_block m1 c (n - d) (nxt e q)" and "repr m1 e q"
    and "a \<notin> {s ..< s + n} \<Longrightarrow> m1 a = m a"
proof -
  note mid = fl_ok_middle [OF ok]
  from r have blk: "is_block m s n (nxt e q)" and rp: "repr m s p" and rq: "repr m e q"
    by (auto simp: repr_append)
  note sizes = is_block_units [OF blk] is_block_next [OF blk]
  show "c = s + d" and "prev = prev_of P"
    using split by (auto simp: slob_split_def P prev_of_def Let_def split: if_splits)
  define ma where "ma = set_slob m (s + d) (n - d) (nxt e q)"
  have m1: "m1 = (if d = 0 then m else set_slob ma s d (s + d))"
    using split by (auto simp: slob_split_def ma_def sizes Let_def split: if_splits)
  have nq: "s + n \<le> nxt e q" "nxt e q \<le> e" using mid by (cases q; auto)+
  have frame: "m1 a = m a" if "a \<notin> {s ..< s + n}" for a
    using that d by (auto simp: m1 ma_def set_slob_frame)
  then show "a \<notin> {s ..< s + n} \<Longrightarrow> m1 a = m a" .
  show "repr m1 e q" by (rule repr_frame [OF rq mid(2) frame mid(8)])
  have "repr m1 s p" by (rule repr_frame [OF rp mid(1) frame mid(6)])
  moreover have "is_block m1 s d (s + d)" if "d \<noteq> 0"
    using that b d mid(3,5) by (simp add: m1 set_slob_block [of b])
  ultimately show "repr m1 c P" using \<open>c = s + d\<close> by (simp add: P repr_append)
  have "is_block ma (s + d) (n - d) (nxt e q)"
    using b d mid(3,5) nq unfolding ma_def by (intro set_slob_block [of b]) auto
  then have "is_block (set_slob ma s d (s + d)) (s + d) (n - d) (nxt e q)" if "d \<noteq> 0"
    using that d by (subst is_block_cong [where m = ma]) (auto intro: set_slob_frame)
  with blk show "is_block m1 c (n - d) (nxt e q)"
    using \<open>c = s + d\<close> by (simp add: m1)
qed

lemma slob_take_repr:
  assumes b: "PU dvd b" "e = b + PU" and r: "repr m e (p @ (s, n) # q)"
    and ok: "fl_ok e b (p @ (s, n) # q)" and u: "1 \<le> u" "0 \<le> d" "u + d \<le> n"
    and split: "slob_split m (prev_of p) s d = (m1, prev, c)"
    and unlink: "slob_unlink m1 prev c u (nxt s p) = (m2, fl')"
  shows "c = s + d" and "repr m2 e (p @ leftover u d s n @ q)"
    and "fl' = nxt e (p @ leftover u d s n @ q)"
    and "a \<notin> bunits (p @ (s, n) # q) \<Longrightarrow> m2 a = m a"
proof -
  define P where "P = (if d = 0 then p else p @ [(s, d)])"
  define rest where "rest = (if n - d = u then [] else [(s + d + u, n - d - u)])"
  note mid = fl_ok_middle [OF ok]
  have "d < n" using u by simp
  note sp = slob_split_repr [OF b r ok u(2) this split P_def]
  have left: "p @ leftover u d s n @ q = P @ rest @ q"
    by (simp add: leftover_def P_def rest_def)
  have okP: "fl_ok e b P"
    using ok u mid(1,3,5) by (auto simp: P_def fl_ok_append split: if_splits)
  have dP: "{s + d ..< s + d + (n - d)} \<inter> bunits P = {}" "bunits q \<inter> bunits P = {}"
    using mid(6,7,8) u by (auto simp: P_def)
  have flP: "nxt s p = nxt (s + d) P" if "P \<noteq> []"
    using that by (cases p) (auto simp: P_def split: if_splits)
  note c = sp(1)
  have bnd: "1 \<le> u" "u \<le> n - d" "b \<le> c" "c + (n - d) \<le> e" "fl_ok e (c + (n - d) + 1) q"
    using u mid(2,3,5) by (auto simp: c)
  have un: "repr m2 e (P @ rest @ q)" "fl' = nxt e (P @ rest @ q)"
    "\<And>a. a \<notin> bunits P \<union> {c ..< c + (n - d)} \<Longrightarrow> m2 a = m1 a"
    using slob_unlink_repr [OF b sp(3) okP _ sp(4,5) bnd(5,1,2,3,4) _ dP(2) _ unlink [unfolded sp(2)],
        of rest] flP dP(1) by (auto simp: c rest_def)
  show "c = s + d" by (rule c)
  show "repr m2 e (p @ leftover u d s n @ q)" "fl' = nxt e (p @ leftover u d s n @ q)"
    unfolding left by (rule un)+
  assume "a \<notin> bunits (p @ (s, n) # q)"
  then have "a \<notin> {s ..< s + n}" "a \<notin> bunits P \<union> {c ..< c + (n - d)}"
    using u by (auto simp: P_def c)
  then show "m2 a = m a" using un(3) sp(6) by simp
qed

subsection \<open>Refinement of first fit\<close>

abbreviation page_base :: "int \<Rightarrow> int" where "page_base sp \<equiv> PU * sp"
abbreviation page_end :: "int \<Rightarrow> int" where "page_end sp \<equiv> PU * sp + PU"

text \<open>\<open>page_repr s sp bs\<close>: the free blocks of page \<open>sp\<close> are \<open>bs\<close>.\<close>

definition page_repr :: "slob \<Rightarrow> int \<Rightarrow> blocks \<Rightarrow> bool" where
  "page_repr s sp bs \<longleftrightarrow>
     fl_ok (page_end sp) (page_base sp) bs \<and> repr (s_mem s) (page_end sp) bs \<and>
     pg_units (s_pg s sp) = bsum bs \<and> (bs \<noteq> [] \<longrightarrow> pg_freelist (s_pg s sp) = nxt (page_end sp) bs)"

text \<open>Page \<open>sp\<close> with memory \<open>m\<close> and free blocks \<open>bs\<close>; a page with none leaves its list.\<close>

definition page_set :: "slob \<Rightarrow> int \<Rightarrow> mem \<Rightarrow> blocks \<Rightarrow> slob" where
  "page_set s sp m bs =
     (let s1 = upd_page sp (\<lambda>p. p\<lparr>pg_freelist := nxt (page_end sp) bs, pg_units := bsum bs\<rparr>)
                 (s\<lparr>s_mem := m\<rparr>)
      in if bs = [] then clear_slob_page_free s1 sp else s1)"

lemma page_repr_unique: "page_repr s sp bs \<Longrightarrow> page_repr s sp bs' \<Longrightarrow> bs = bs'"
proof -
  have "bs = bs'" if "repr m e bs" "repr m e bs'" "fl_ok e lo bs" "fl_ok e lo bs'"
    "nxt e bs = nxt e bs'" for m e lo bs bs'
    using that
  proof (induction bs arbitrary: bs' lo)
    case Nil
    then show ?case by (cases bs') auto
  next
    case (Cons c cs)
    obtain s n where c: "c = (s, n)" by force
    with Cons.prems obtain k cs' where bs': "bs' = (s, k) # cs'" by (cases bs') auto
    with Cons.prems c have "is_block m s n (nxt e cs)" "is_block m s k (nxt e cs')" by auto
    then have "k = n" "nxt e cs = nxt e cs'" by (auto simp: is_block_def)
    with Cons.prems c bs' show ?case by (auto intro: Cons.IH)
  qed
  moreover assume "page_repr s sp bs" "page_repr s sp bs'"
  moreover from this have "bs = [] \<longleftrightarrow> bs' = []"
    using bsum_pos unfolding page_repr_def by (metis bsum_simps(1) less_irrefl)
  ultimately show ?thesis unfolding page_repr_def by (metis nxt.simps(1))
qed

lemma ff_alloc_cases:
  "ff_alloc u al bs = Some (a, bs') \<Longrightarrow>
   \<exists>p s n q. bs = p @ (s, n) # q \<and> (\<forall>(t, k) \<in> set p. k < u + slob_delta al t) \<and>
     u + slob_delta al s \<le> n \<and> a = s + slob_delta al s \<and>
     bs' = p @ leftover u (slob_delta al s) s n @ q"
proof (induction bs arbitrary: bs')
  case (Cons b bs)
  obtain s n where b: "b = (s, n)" by force
  show ?case
  proof (cases "u + slob_delta al s \<le> n")
    case True
    with Cons.prems b show ?thesis by (intro exI [of _ "[]"]) (auto simp: Let_def)
  next
    case False
    with Cons.prems b obtain bs1 where bs1: "ff_alloc u al bs = Some (a, bs1)" "bs' = b # bs1"
      by (auto simp: Let_def)
    from Cons.IH [OF bs1(1)] obtain p t k q where "bs = p @ (t, k) # q"
      and "\<forall>(t, k) \<in> set p. k < u + slob_delta al t" and "u + slob_delta al t \<le> k"
      and "a = t + slob_delta al t" and "bs1 = p @ leftover u (slob_delta al t) t k @ q"
      by blast
    with False b bs1(2) show ?thesis
      by (intro exI [of _ "b # p"] exI [of _ t] exI [of _ k] exI [of _ q]) simp
  qed
qed simp

lemma ff_alloc_spec:
  assumes "ff_alloc u al bs = Some (a, bs')" and ok: "fl_ok e lo bs" and "1 \<le> u" and "align_ok al"
  shows "fl_ok e lo bs'" and "bunits bs' = bunits bs - {a ..< a + u}"
    and "{a ..< a + u} \<subseteq> bunits bs" and "bsum bs' = bsum bs - u" and "al \<noteq> 0 \<Longrightarrow> al dvd 2 * a"
proof -
  from assms(1) obtain p s n q where bs: "bs = p @ (s, n) # q"
    and n: "u + slob_delta al s \<le> n" and a: "a = s + slob_delta al s"
    and bs': "bs' = p @ leftover u (slob_delta al s) s n @ q" using ff_alloc_cases by blast
  note d = slob_delta_nonneg [OF assms(4), of s]
  show "fl_ok e lo bs'" unfolding bs' using fl_ok_cut ok bs n d assms(3) by simp
  show "bunits bs' = bunits bs - {a ..< a + u}"
    unfolding bs' a bs using bunits_cut ok bs n d assms(3) by simp
  show "{a ..< a + u} \<subseteq> bunits bs" using n d by (auto simp: a bs)
  show "bsum bs' = bsum bs - u" unfolding bs' bs by (rule bsum_cut)
  show "al \<noteq> 0 \<Longrightarrow> al dvd 2 * a" using slob_delta_aligned assms(4) a by simp
qed

lemma slob_page_alloc_None:
  assumes r: "page_repr s sp bs" and "bs \<noteq> []" and "ff_alloc (SLOB_UNITS sz) al bs = None"
  shows "slob_page_alloc s sp sz al = Inr (s, None)"
proof -
  from r \<open>bs \<noteq> []\<close> have "slob_page_find (s_mem s) (SLOB_UNITS sz) al None (pg_freelist (s_pg s sp)) = Some None"
    using slob_page_find_fits [of "s_mem s" "page_end sp" bs "page_base sp" "SLOB_UNITS sz" al None]
      ff_alloc_fit assms(3) by (fastforce simp: page_repr_def)
  then show ?thesis by (simp add: slob_page_alloc_def)
qed

lemma slob_page_alloc_Some:
  assumes r: "page_repr s sp bs" and u: "1 \<le> SLOB_UNITS sz" and al: "align_ok al"
    and ff: "ff_alloc (SLOB_UNITS sz) al bs = Some (a, bs')"
  obtains m where "slob_page_alloc s sp sz al = Inr (page_set s sp m bs', Some a)"
    and "repr m (page_end sp) bs'" and "\<And>x. x \<notin> bunits bs \<Longrightarrow> m x = s_mem s x"
proof -
  let ?u = "SLOB_UNITS sz" and ?e = "page_end sp" and ?b = "page_base sp"
  from ff have ne: "bs \<noteq> []" by auto
  from r have rep: "repr (s_mem s) ?e bs" and ok: "fl_ok ?e ?b bs"
    and fl: "pg_freelist (s_pg s sp) = nxt ?e bs" using ne by (auto simp: page_repr_def)
  have "\<not> (\<forall>(t, k) \<in> set bs. k < ?u + slob_delta al t)" using ff ff_alloc_none by force
  with slob_page_find_fits [OF rep ok ne, of ?u al None, folded prev_of_def] obtain p t n q where
    bs: "bs = p @ (t, n) # q" and p: "\<forall>(t, k) \<in> set p. k < ?u + slob_delta al t"
    and n: "?u + slob_delta al t \<le> n"
    and find: "slob_page_find (s_mem s) ?u al None (nxt ?e bs) = Some (Some (prev_of p, t))"
    by auto
  from ff_alloc_fit [OF p n, of q] ff bs have a: "a = t + slob_delta al t"
    and bs': "bs' = p @ leftover ?u (slob_delta al t) t n @ q" by auto
  obtain m1 prev c where split: "slob_split (s_mem s) (prev_of p) t (slob_delta al t) = (m1, prev, c)"
    by (metis prod_cases3)
  obtain m2 fl' where unlink: "slob_unlink m1 prev c ?u (nxt t p) = (m2, fl')" by force
  note take = slob_take_repr [OF _ refl rep [unfolded bs] ok [unfolded bs] u
      slob_delta_nonneg [OF al] n split unlink]
  have un: "pg_units (s_pg s sp) - ?u = bsum bs'"
    using r ff_alloc_spec(4) [OF ff ok u al] by (simp add: page_repr_def)
  have "bsum bs' = 0 \<longleftrightarrow> bs' = []"
    using bsum_pos [OF ff_alloc_spec(1) [OF ff ok u al]] by force
  moreover have "slob_page_take s sp ?u al (prev_of p) t = (let s1 = upd_page sp
      (\<lambda>p. p\<lparr>pg_freelist := fl', pg_units := pg_units p - ?u\<rparr>) (s\<lparr>s_mem := m2\<rparr>)
    in (if pg_units (s_pg s1 sp) = 0 then clear_slob_page_free s1 sp else s1, c))"
    using split unlink fl by (simp add: slob_page_take_def bs Let_def)
  ultimately have "slob_page_take s sp ?u al (prev_of p) t = (page_set s sp m2 bs', a)"
    using take(1,3) un by (simp add: page_set_def upd_page_def Let_def a bs')
  then have "slob_page_alloc s sp sz al = Inr (page_set s sp m2 bs', Some a)"
    using find fl by (simp add: slob_page_alloc_def)
  then show thesis using take by (intro that [of m2]) (auto simp: bs' bs)
qed

end
