(* ===== verification/Slob_Insert.thy ===== *)
theory Slob_Insert
  imports Slob_Page
begin

text \<open>
  Reinsertion of a block into the free list of its page, the last part of \<open>slob_free\<close>
  (\<open>assignments/a4/slob.c\<close>, lines 416-444). On a well-formed page the search loop ends and the
  code performs the list-level insertion \<open>ins_free\<close>, which keeps the list in address order and
  coalesces the block with both neighbours.
\<close>

subsection \<open>The code\<close>

text \<open>The \<open>while (b > next)\<close> loop (lines 428-431).\<close>

partial_function (option) slob_free_find :: "mem \<Rightarrow> int \<Rightarrow> int \<Rightarrow> int \<Rightarrow> (int \<times> int) option" where
  "slob_free_find m b prev next =
     (if b > next then slob_free_find m b next (slob_next m next) else Some (prev, next))"

text \<open>Lines 418-444; the result is the memory and the page's free list.\<close>

definition slob_free_insert :: "mem \<Rightarrow> int \<Rightarrow> int \<Rightarrow> int \<Rightarrow> (mem \<times> int) option" where
  "slob_free_insert m fl b units =
     (if b < fl then
        (let (units', fl') = (if b + units = fl then (s16 (units + slob_units m fl), slob_next m fl)
                              else (units, fl))
         in Some (set_slob m b units' fl', b))
      else
        (case slob_free_find m b fl (slob_next m fl) of
           None \<Rightarrow> None
         | Some (prev, next) \<Rightarrow>
             (let m1 = (if \<not> slob_last m prev \<and> b + units = next
                        then set_slob m b (s16 (units + slob_units m next)) (slob_next m next)
                        else set_slob m b units next);
                  m2 = (if prev + slob_units m1 prev = b
                        then set_slob m1 prev (s16 (slob_units m1 b + slob_units m1 prev)) (slob_next m1 b)
                        else set_slob m1 prev (slob_units m1 prev) b)
              in Some (m2, fl))))"

subsection \<open>Insertion into a block list\<close>

text \<open>Put a block before a list, coalescing it with the first block when they touch.\<close>

fun join :: "int \<times> int \<Rightarrow> blocks \<Rightarrow> blocks" where
  "join (s, n) [] = [(s, n)]"
| "join (s, n) ((t, k) # bs) = (if s + n = t then (s, n + k) # bs else (s, n) # (t, k) # bs)"

fun ins_free :: "int \<Rightarrow> int \<Rightarrow> blocks \<Rightarrow> blocks" where
  "ins_free b u [] = [(b, u)]"
| "ins_free b u ((s, n) # bs) =
     (if b < s then join (b, u) ((s, n) # bs) else join (s, n) (ins_free b u bs))"

lemma join_unfold: "\<exists>k r. join (s, n) bs = (s, k) # r \<and> n \<le> k"
  if "\<forall>(t, k) \<in> set bs. 1 \<le> k"
  using that by (cases bs) auto

lemma bsum_join [simp]: "bsum (join (s, n) bs) = n + bsum bs"
  by (cases "((s, n), bs)" rule: join.cases) auto

lemma bunits_join:
  "0 \<le> n \<Longrightarrow> (bs \<noteq> [] \<Longrightarrow> 0 \<le> snd (hd bs)) \<Longrightarrow> bunits (join (s, n) bs) = {s ..< s + n} \<union> bunits bs"
  by (cases "((s, n), bs)" rule: join.cases) auto

lemma fl_ok_join:
  "fl_ok e (s + n) bs \<Longrightarrow> lo \<le> s \<Longrightarrow> 1 \<le> n \<Longrightarrow> s + n \<le> e \<Longrightarrow> fl_ok e lo (join (s, n) bs)"
  by (cases "((s, n), bs)" rule: join.cases) (auto elim: fl_ok_mono)

lemma bsum_ins_free [simp]: "bsum (ins_free b u bs) = u + bsum bs"
  by (induction b u bs rule: ins_free.induct) auto

lemma ins_free_nonempty [simp]: "ins_free b u bs \<noteq> []"
proof (cases bs)
  case (Cons c cs)
  have "join x ys \<noteq> []" for x ys by (cases "(x, ys)" rule: join.cases) auto
  then show ?thesis by (cases c) (simp add: Cons del: join.simps)
qed simp

lemma ins_free_spec:
  assumes "fl_ok e lo bs" and "1 \<le> u" and "lo \<le> b" and "b + u \<le> e" and "{b ..< b + u} \<inter> bunits bs = {}"
  shows "fl_ok e lo (ins_free b u bs) \<and> bunits (ins_free b u bs) = bunits bs \<union> {b ..< b + u}"
  using assms
proof (induction bs arbitrary: lo)
  case (Cons c bs)
  obtain s n where c: "c = (s, n)" by force
  from Cons.prems c have ok: "1 \<le> n" "s + n \<le> e" "lo \<le> s" "fl_ok e (s + n + 1) bs" by auto
  show ?case
  proof (cases "b < s")
    case True
    have "b + u \<le> s"
    proof (rule ccontr)
      assume "\<not> b + u \<le> s"
      with True ok(1) have "s \<in> {b ..< b + u} \<inter> bunits (c # bs)" by (simp add: c)
      with Cons.prems(5) show False by blast
    qed
    then have "fl_ok e (b + u) ((s, n) # bs)" using ok by simp
    then show ?thesis using True Cons.prems ok c fl_ok_join [of e b u "(s, n) # bs" lo]
        bunits_join [of u "(s, n) # bs" b] by (auto simp del: join.simps)
  next
    case False
    have bs: "s + n \<le> b"
    proof (rule ccontr)
      assume "\<not> s + n \<le> b"
      with False Cons.prems(2) have "b \<in> {b ..< b + u} \<inter> bunits (c # bs)" by (simp add: c)
      with Cons.prems(5) show False by blast
    qed
    have dj: "{b ..< b + u} \<inter> bunits bs = {}" using Cons.prems(5) c by auto
    from Cons.IH [of "s + n"] have ih: "fl_ok e (s + n) (ins_free b u bs)"
      "bunits (ins_free b u bs) = bunits bs \<union> {b ..< b + u}"
      using ok(4) fl_ok_mono Cons.prems(2,4) bs dj by auto
    from ih(1) have "0 \<le> snd (hd (ins_free b u bs))"
      by (cases "ins_free b u bs") auto
    then have "bunits (join (s, n) (ins_free b u bs)) = {s ..< s + n} \<union> bunits (ins_free b u bs)"
      using ok(1) by (intro bunits_join) auto
    then show ?thesis using False ih ok c fl_ok_join [OF ih(1), of lo] by auto
  qed
qed simp

subsection \<open>The code refines the insertion\<close>

lemma nxt_join [simp]: "nxt e (join (s, n) bs) = s"
  by (cases "((s, n), bs)" rule: join.cases) auto

lemma join_nonempty [simp]: "join x bs \<noteq> []"
  by (cases "(x, bs)" rule: join.cases) auto

lemma join_apart: "s + n < nxt e bs \<Longrightarrow> join (s, n) bs = (s, n) # bs"
  by (cases "((s, n), bs)" rule: join.cases) auto

text \<open>Both coalescing steps of the code write the encoding of a \<open>join\<close>.\<close>

lemma repr_join:
  assumes b: "PU dvd b" "e = b + PU" and s: "b \<le> s" "1 \<le> n" "s + n \<le> e"
    and q: "repr m e q" "fl_ok e (s + n) q"
    and m': "m' = (if q \<noteq> [] \<and> s + n = nxt e q
                   then set_slob m s (s16 (n + slob_units m (nxt e q))) (slob_next m (nxt e q))
                   else set_slob m s n (nxt e q))"
  shows "repr m' e (join (s, n) q)" and "a \<notin> {s ..< s + n} \<union> bunits q \<Longrightarrow> m' a = m a"
proof -
  have "repr m' e (join (s, n) q) \<and> (a \<notin> {s ..< s + n} \<union> bunits q \<longrightarrow> m' a = m a)"
  proof (cases "q \<noteq> [] \<and> s + n = nxt e q")
    case True
    then obtain k r where q': "q = (s + n, k) # r" by (cases q) auto
    with q have blk: "is_block m (s + n) k (nxt e r)" and r: "repr m e r"
      and okr: "fl_ok e (s + n + k + 1) r" and k: "1 \<le> k" "s + n + k \<le> e" by auto
    then have "s16 (n + k) = n + k" using s b by (simp add: c_int)
    with True m' q' blk have m'_eq: "m' = set_slob m s (n + k) (nxt e r)"
      by (simp add: is_block_units is_block_next)
    have nr: "s + n + k \<le> nxt e r" "nxt e r \<le> e" using okr k by (cases r; auto)+
    have "is_block m' s (n + k) (nxt e r)"
      unfolding m'_eq using b s k nr by (intro set_slob_block [of b]) auto
    moreover have "{s ..< s + (n + k)} \<inter> bunits r = {}" using fl_ok_lower [OF okr] by force
    then have "repr m' e r" unfolding m'_eq using r s k
      by (simp add: repr_set_slob_frame [OF okr])
    moreover have "a \<notin> {s ..< s + n} \<union> bunits q \<longrightarrow> m' a = m a"
      unfolding m'_eq using s k by (auto simp: q' intro!: set_slob_frame)
    ultimately show ?thesis by (simp add: q')
  next
    case False
    with m' have m'_eq: "m' = set_slob m s n (nxt e q)" by argo
    have nq: "s + n \<le> nxt e q" "nxt e q \<le> e" using q(2) s by (cases q; auto)+
    have "is_block m' s n (nxt e q)"
      unfolding m'_eq using b s nq by (intro set_slob_block [of b]) auto
    moreover have "{s ..< s + n} \<inter> bunits q = {}" using fl_ok_lower [OF q(2)] by force
    then have "repr m' e q" unfolding m'_eq using q s
      by (simp add: repr_set_slob_frame [OF q(2)])
    moreover have "a \<notin> {s ..< s + n} \<union> bunits q \<longrightarrow> m' a = m a"
      unfolding m'_eq using s by (auto intro!: set_slob_frame)
    ultimately show ?thesis using False by (cases q) auto
  qed
  then show "repr m' e (join (s, n) q)" and "a \<notin> {s ..< s + n} \<union> bunits q \<Longrightarrow> m' a = m a"
    by auto
qed

lemma ins_free_low: "(q \<noteq> [] \<Longrightarrow> b < fst (hd q)) \<Longrightarrow> ins_free b u q = join (b, u) q"
  by (cases q) auto

lemma ins_free_split:
  assumes "fl_ok e lo (p @ (s, n) # q)" and "\<forall>(t, k) \<in> set p. t < b" and "s < b"
    and "q \<noteq> [] \<Longrightarrow> b < fst (hd q)"
  shows "ins_free b u (p @ (s, n) # q) = p @ join (s, n) (join (b, u) q)"
  using assms(1,2)
proof (induction p arbitrary: lo)
  case Nil
  then show ?case using assms(3,4) by (simp add: ins_free_low)
next
  case (Cons c p)
  obtain t k where c: "c = (t, k)" by force
  have ih: "ins_free b u (p @ (s, n) # q) = p @ join (s, n) (join (b, u) q)"
    using Cons c by (intro Cons.IH [of "t + k + 1"]) auto
  have "t + k < nxt e (p @ (s, n) # q)"
    using Cons.prems(1) c by (cases p) auto
  then have "t + k < nxt e (p @ join (s, n) (join (b, u) q))" by simp
  then show ?case using Cons.prems(2) by (simp add: c ih join_apart)
qed

lemma slob_free_find_stops:
  "repr m e (p @ q) \<Longrightarrow> \<forall>(t, k) \<in> set p. t < b \<Longrightarrow> b \<le> nxt e q \<Longrightarrow>
   slob_free_find m b prev (nxt e (p @ q)) =
     Some (if p = [] then prev else fst (last p), nxt e q)"
proof (induction p arbitrary: prev)
  case Nil
  then show ?case by (subst slob_free_find.simps) simp
next
  case (Cons c p)
  obtain t k where c: "c = (t, k)" by force
  with Cons.prems have "slob_next m t = nxt e (p @ q)" "t < b" by (auto simp: is_block_next)
  then have "slob_free_find m b prev t = slob_free_find m b t (nxt e (p @ q))"
    by (subst slob_free_find.simps) simp
  with Cons c show ?case by auto
qed

lemma fl_ok_before: "fl_ok e lo (p @ (s, n) # q) \<Longrightarrow> a \<in> bunits p \<Longrightarrow> a < s"
proof (induction p arbitrary: lo)
  case (Cons c p)
  obtain t k where c: "c = (t, k)" by force
  with Cons.prems(1) have "fl_ok e (t + k + 1) (p @ (s, n) # q)" by simp
  moreover from fl_ok_middle(3) [OF this] have "t + k < s" by simp
  ultimately show ?case using Cons c by auto
qed simp

lemma slob_last_block:
  assumes "is_block m s n (nxt e q)" and "fl_ok e lo q" and "PU dvd e" and "e - PU < lo"
  shows "slob_last m s \<longleftrightarrow> q = []"
proof (cases q)
  case (Cons c r)
  then have "nxt e q mod PU \<noteq> 0" using assms by (cases c) (intro not_page_end [of e]; auto)
  then show ?thesis using assms Cons by (simp add: slob_last_eq is_block_next)
qed (use assms in \<open>simp add: slob_last_eq is_block_next\<close>)

lemma slob_free_insert_first:
  assumes b: "PU dvd b0" "e = b0 + PU" and r: "repr m e bs" and ok: "fl_ok e (b + u) bs" and "bs \<noteq> []"
    and u: "1 \<le> u" "b0 \<le> b" "b + u \<le> e"
  shows "\<exists>m'. slob_free_insert m (nxt e bs) b u = Some (m', nxt e (ins_free b u bs)) \<and>
     repr m' e (ins_free b u bs) \<and> (\<forall>a. a \<notin> bunits bs \<union> {b ..< b + u} \<longrightarrow> m' a = m a)"
proof -
  obtain t k r' where bs: "bs = (t, k) # r'" using \<open>bs \<noteq> []\<close> by (cases bs) auto
  with ok u have "b < t" by auto
  then have ins: "ins_free b u bs = join (b, u) bs" by (simp add: bs)
  define m' where "m' = (if bs \<noteq> [] \<and> b + u = nxt e bs
                   then set_slob m b (s16 (u + slob_units m (nxt e bs))) (slob_next m (nxt e bs))
                   else set_slob m b u (nxt e bs))"
  have "slob_free_insert m (nxt e bs) b u = Some (m', b)"
    using \<open>b < t\<close> by (auto simp: slob_free_insert_def m'_def bs)
  then show ?thesis
    using repr_join [OF b u(2,1,3) r ok m'_def] by (intro exI [of _ m']) (simp add: ins Un_commute)
qed

lemma slob_free_find_later:
  assumes r: "repr m e bs" and bs: "bs = p @ (s, n) # q" and p: "\<forall>(t, k) \<in> set p. t < b" "s < b"
    and q: "b + u \<le> nxt e q" "1 \<le> u"
  shows "\<not> b < nxt e bs"
    and "slob_free_find m b (nxt e bs) (slob_next m (nxt e bs)) = Some (s, nxt e q)"
proof -
  have lt: "nxt e bs < b" using p by (cases p) (auto simp: bs)
  then show "\<not> b < nxt e bs" by simp
  from lt have "slob_free_find m b 0 (nxt e bs) = slob_free_find m b (nxt e bs) (slob_next m (nxt e bs))"
    by (subst slob_free_find.simps) simp
  then show "slob_free_find m b (nxt e bs) (slob_next m (nxt e bs)) = Some (s, nxt e q)"
    using slob_free_find_stops [of m e "p @ [(s, n)]" q b 0] r p q by (simp add: bs)
qed

lemma slob_free_insert_later:
  assumes b: "PU dvd b0" "e = b0 + PU" and r: "repr m e bs" and ok: "fl_ok e b0 bs"
    and bs: "bs = p @ (s, n) # q" and p: "\<forall>(t, k) \<in> set p. t < b" "s + n \<le> b"
    and q: "fl_ok e (b + u) q" and u: "1 \<le> u" "b + u \<le> e"
  shows "\<exists>m'. slob_free_insert m (nxt e bs) b u = Some (m', nxt e (ins_free b u bs)) \<and>
     repr m' e (ins_free b u bs) \<and> (\<forall>a. a \<notin> bunits bs \<union> {b ..< b + u} \<longrightarrow> m' a = m a)"
proof -
  note mid = fl_ok_middle [OF ok [unfolded bs]]
  from r bs have blk: "is_block m s n (nxt e q)" and rp: "repr m s p" and rq: "repr m e q"
    by (auto simp: repr_append)
  let ?X = "join (b, u) q"
  have hq: "b + u \<le> nxt e q" using q u by (cases q) auto
  define m1 where "m1 = (if q \<noteq> [] \<and> b + u = nxt e q
    then set_slob m b (s16 (u + slob_units m (nxt e q))) (slob_next m (nxt e q))
    else set_slob m b u (nxt e q))"
  define m2 where "m2 = (if ?X \<noteq> [] \<and> s + n = nxt e ?X
    then set_slob m1 s (s16 (n + slob_units m1 (nxt e ?X))) (slob_next m1 (nxt e ?X))
    else set_slob m1 s n (nxt e ?X))"
  have bb: "b0 \<le> b" using mid(3,4) p(2) by simp
  note j1 = repr_join [OF b bb u rq q m1_def]
  have okX: "fl_ok e (s + n) ?X" using q u p(2) by (intro fl_ok_join) auto
  note j2 = repr_join [OF b mid(3,4,5) j1(1) okX m2_def]
  have hd: "q \<noteq> [] \<Longrightarrow> b < fst (hd q)" "q \<noteq> [] \<Longrightarrow> 0 \<le> snd (hd q)"
    using q u by (cases q; auto)+
  have X: "bunits ?X = {b ..< b + u} \<union> bunits q" using u hd by (intro bunits_join) auto
  have "s < b" using mid(4) p(2) by simp
  then have ins: "ins_free b u bs = p @ join (s, n) ?X"
    unfolding bs using ok bs p(1) hd(1) by (intro ins_free_split [of e b0]) auto
  have last: "slob_last m s \<longleftrightarrow> q = []"
    using mid b by (intro slob_last_block [OF blk mid(2)]) auto
  note find = slob_free_find_later [OF r bs p(1) \<open>s < b\<close> hq u(1)]
  have us: "slob_units m1 s = n"
  proof -
    have "s \<notin> {b ..< b + u} \<union> bunits q" using \<open>s < b\<close> mid(4,8) by auto
    then have "m1 s = m s" by (rule j1(2))
    then show ?thesis using is_block_units [OF blk] by (auto simp: slob_units_def split: if_splits)
  qed
  have "(if \<not> slob_last m s \<and> b + u = nxt e q
         then set_slob m b (s16 (u + slob_units m (nxt e q))) (slob_next m (nxt e q))
         else set_slob m b u (nxt e q)) = m1" by (simp add: m1_def last)
  then have code: "slob_free_insert m (nxt e bs) b u = Some (m2, nxt e bs)"
    unfolding slob_free_insert_def using find us by (simp add: m2_def add.commute)
  have frame: "m2 a = m a" if "a \<notin> {s ..< s + n} \<union> {b ..< b + u} \<union> bunits q" for a
    using that j1(2) [of a] j2(2) [of a] X by auto
  have "bunits p \<inter> ({s ..< s + n} \<union> {b ..< b + u} \<union> bunits q) = {}"
    using mid(6,7) fl_ok_before [OF ok [unfolded bs]] \<open>s < b\<close> by force
  then have "repr m2 s p" by (intro repr_frame [OF rp mid(1) frame])
  then show ?thesis
    using code j2(1) frame unfolding ins by (intro exI [of _ m2]) (auto simp: repr_append bs)
qed

theorem slob_free_insert_refines:
  assumes b: "PU dvd b0" "e = b0 + PU" and r: "repr m e bs" and ok: "fl_ok e b0 bs" and "bs \<noteq> []"
    and u: "1 \<le> u" "b0 \<le> b" "b + u \<le> e" and dj: "{b ..< b + u} \<inter> bunits bs = {}"
  shows "\<exists>m'. slob_free_insert m (nxt e bs) b u = Some (m', nxt e (ins_free b u bs)) \<and>
     repr m' e (ins_free b u bs) \<and> (\<forall>a. a \<notin> bunits bs \<union> {b ..< b + u} \<longrightarrow> m' a = m a)"
proof -
  define p where "p = takeWhile (\<lambda>(t, k). t < b) bs"
  define q where "q = dropWhile (\<lambda>(t, k). t < b) bs"
  have bs: "bs = p @ q" by (simp add: p_def q_def)
  have p: "\<forall>(t, k) \<in> set p. t < b" unfolding p_def by (auto dest: set_takeWhileD)
  have okq: "fl_ok e (b + u) q"
  proof (cases q)
    case (Cons c q')
    obtain t k where c: "c = (t, k)" by force
    have "\<not> t < b" using Cons c by (auto simp: q_def dropWhile_eq_Cons_conv)
    from ok bs Cons c have "1 \<le> k" "t + k \<le> e" "fl_ok e (t + k + 1) q'" by (auto simp: fl_ok_append)
    moreover have "t \<in> bunits bs" using bs Cons c \<open>1 \<le> k\<close> by auto
    then have "t \<notin> {b ..< b + u}" using dj by blast
    ultimately show ?thesis using Cons c \<open>\<not> t < b\<close> by auto
  qed simp
  show ?thesis
  proof (cases p rule: rev_cases)
    case Nil
    with bs okq assms show ?thesis by (intro slob_free_insert_first) auto
  next
    case (snoc p' c)
    obtain s n where c: "c = (s, n)" by force
    have bs': "bs = p' @ (s, n) # q" using bs snoc c by simp
    have "b \<notin> bunits bs" using dj u(1) by (auto simp: disjoint_iff)
    then have "s + n \<le> b" using p snoc c bs' by fastforce
    then show ?thesis using p snoc bs' okq assms by (intro slob_free_insert_later) auto
  qed
qed

end
