(* ===== verification/Klist.thy ===== *)
theory Klist
  imports Prelude
begin

text \<open>
  The kernel's circular lists (\<open>linux/list.h\<close>). A list is the HOL list of its elements in order;
  a node is \<open>None\<close> for the list head and \<open>Some x\<close> for the element \<open>x\<close>. Elements are on a list at
  most once.
\<close>

subsection \<open>Operations\<close>

definition klist_next :: "'a list \<Rightarrow> 'a option \<Rightarrow> 'a option" where
  "klist_next xs nd =
     (case (case nd of None \<Rightarrow> xs | Some p \<Rightarrow> tl (dropWhile (\<lambda>q. q \<noteq> p) xs)) of
        [] \<Rightarrow> None | q # _ \<Rightarrow> Some q)"

definition klist_prev :: "'a list \<Rightarrow> 'a option \<Rightarrow> 'a option" where
  "klist_prev xs nd = klist_next (rev xs) nd"

text \<open>\<open>list_add(x, nd)\<close> puts \<open>x\<close> after the node \<open>nd\<close>; \<open>list_del\<close> takes an element off.\<close>

definition klist_add :: "'a list \<Rightarrow> 'a option \<Rightarrow> 'a \<Rightarrow> 'a list" where
  "klist_add xs nd x =
     (case nd of
        None \<Rightarrow> x # xs
      | Some p \<Rightarrow> takeWhile (\<lambda>q. q \<noteq> p) xs @
          (case dropWhile (\<lambda>q. q \<noteq> p) xs of [] \<Rightarrow> [] | y # ys \<Rightarrow> y # x # ys))"

definition klist_del :: "'a list \<Rightarrow> 'a \<Rightarrow> 'a list" where
  "klist_del xs x = remove1 x xs"

subsection \<open>Nodes by position\<close>

definition node_at :: "'a list \<Rightarrow> nat \<Rightarrow> 'a option" where
  "node_at xs i = (if i < length xs then Some (xs ! i) else None)"

lemma klist_next_head: "klist_next xs None = node_at xs 0"
  by (cases xs) (auto simp: klist_next_def node_at_def)

lemma klist_prev_head: "klist_prev xs None = node_at (rev xs) 0"
  by (simp add: klist_prev_def klist_next_head)

lemma drop_distinct:
  assumes "distinct xs" and "i < length xs"
  shows "dropWhile (\<lambda>q. q \<noteq> xs ! i) xs = drop i xs" and "takeWhile (\<lambda>q. q \<noteq> xs ! i) xs = take i xs"
proof -
  show take: "takeWhile (\<lambda>q. q \<noteq> xs ! i) xs = take i xs"
    using assms by (intro takeWhile_eq_take_P_nth) (auto simp: nth_eq_iff_index_eq)
  show "dropWhile (\<lambda>q. q \<noteq> xs ! i) xs = drop i xs"
    using assms(2) by (simp add: dropWhile_eq_drop take)
qed

lemma klist_next_at:
  assumes "distinct xs" and "i < length xs" shows "klist_next xs (node_at xs i) = node_at xs (Suc i)"
proof (cases "Suc i < length xs")
  case True
  then have "tl (drop i xs) = xs ! Suc i # drop (Suc (Suc i)) xs"
    by (metis Cons_nth_drop_Suc drop_Suc tl_drop)
  then show ?thesis using True assms by (simp add: klist_next_def node_at_def drop_distinct)
next
  case False
  then have "tl (drop i xs) = []" using assms(2) by (simp add: tl_drop)
  then show ?thesis using False assms by (simp add: klist_next_def node_at_def drop_distinct)
qed

lemma klist_prev_at:
  assumes "distinct xs" and "i < length xs"
  shows "klist_prev xs (node_at (rev xs) i) = node_at (rev xs) (Suc i)"
  using klist_next_at [of "rev xs" i] assms by (simp add: klist_prev_def)

lemma node_at_rev:
  assumes "i \<le> length xs"
  shows "node_at (rev xs) i = (if i = length xs then None else Some (xs ! (length xs - Suc i)))"
  using assms by (auto simp: node_at_def rev_nth)

text \<open>Adding after the \<open>k\<close>-th node from the end.\<close>

lemma klist_add_rev_at:
  assumes "distinct xs" and "k \<le> length xs"
  shows "klist_add xs (node_at (rev xs) k) x = take (length xs - k) xs @ x # drop (length xs - k) xs"
proof (cases "k = length xs")
  case False
  define i where "i = length xs - Suc k"
  with False assms(2) have i: "i < length xs" "length xs - k = Suc i" by auto
  have "drop i xs = xs ! i # drop (Suc i) xs" using i(1) by (simp add: Cons_nth_drop_Suc)
  moreover have "take (Suc i) xs = take i xs @ [xs ! i]" using i(1) by (rule take_Suc_conv_app_nth)
  ultimately show ?thesis
    unfolding node_at_rev [OF assms(2)] i(2) klist_add_def i_def [symmetric]
    using False assms(1) i(1) by (simp add: drop_distinct)
qed (simp add: node_at_rev klist_add_def)

lemma mset_klist_add_at:
  "distinct xs \<Longrightarrow> k \<le> length xs \<Longrightarrow> set (klist_add xs (node_at (rev xs) k) x) = insert x (set xs)"
  by (auto simp: klist_add_rev_at dest: in_set_takeD in_set_dropD)
     (metis Un_iff append_take_drop_id set_append)

lemma klist_next_node:
  assumes "nd \<in> insert None (Some ` set xs)" shows "klist_next xs nd \<in> insert None (Some ` set xs)"
proof -
  have "set (tl (dropWhile P xs)) \<subseteq> set xs" for P
    by (metis dropWhile_eq_drop drop_Suc set_drop_subset tl_drop)
  then have "set (case nd of None \<Rightarrow> xs | Some p \<Rightarrow> tl (dropWhile (\<lambda>q. q \<noteq> p) xs)) \<subseteq> set xs"
    by (auto split: option.split)
  then show ?thesis by (auto simp: klist_next_def split: list.split)
qed

end
