(* ===== verification/Slob_Heap.thy ===== *)
theory Slob_Heap
  imports Slob_Insert Klist
begin

text \<open>
  The allocator proper, \<open>slob_alloc\<close> with its best-fit page search and \<open>slob_free\<close>
  (\<open>assignments/a4/slob.c\<close>, lines 194-216 and 269-447). The page allocator, the NUMA node of a
  page and the \<open>gfp\<close> constants are not part of the repository and are parameters (\<open>kconf\<close>).
\<close>

unbundle bit_operations_syntax

subsection \<open>Parameters\<close>

text \<open>
  \<open>alloc_pages\<close> and \<open>alloc_pages_exact_node\<close> return the frame number of the first page, or
  \<open>None\<close>; their answer may depend on the state. \<open>kc_numa\<close> is \<open>CONFIG_NUMA\<close>. \<open>get_order\<close> and
  \<open>compound_order\<close> are the page allocator's too, the rest are constants of the kernel headers.
\<close>

record kconf =
  kc_numa :: bool
  page_to_nid :: "int \<Rightarrow> int"
  alloc_pages :: "slob \<Rightarrow> 32 word \<Rightarrow> int \<Rightarrow> int option"
  alloc_pages_exact_node :: "slob \<Rightarrow> int \<Rightarrow> 32 word \<Rightarrow> int \<Rightarrow> int option"
  GFP_ZERO :: "32 word"
  GFP_COMP :: "32 word"
  gfp_allowed_mask :: "32 word"
  get_order :: "int \<Rightarrow> int"
  compound_order :: "int \<Rightarrow> int"
  ARCH_KMALLOC_MINALIGN :: int
  ARCH_SLAB_MINALIGN :: int
  SLAB_DESTROY_BY_RCU :: "32 word"

definition NUMA_NO_NODE :: int where "NUMA_NO_NODE = -1"

definition slob_new_pages :: "kconf \<Rightarrow> slob \<Rightarrow> 32 word \<Rightarrow> int \<Rightarrow> int \<Rightarrow> int option" where
  "slob_new_pages k s flags order node =
     (if kc_numa k \<and> node \<noteq> NUMA_NO_NODE then alloc_pages_exact_node k s node flags order
      else alloc_pages k s flags order)"

definition slob_free_pages :: "slob \<Rightarrow> int \<Rightarrow> int \<Rightarrow> slob" where
  "slob_free_pages s b order =
     s\<lparr>s_reclaimed := map_option (\<lambda>r. r + 2 ^ nat order) (s_reclaimed s),
       s_freed := (b div PU, order) # s_freed s\<rparr>"

subsection \<open>The page lists\<close>

text \<open>
  Lines 331-333. \<open>list_move_tail(slob_list, prev->next)\<close> moves the list head in front of
  \<open>prev->next\<close>, which rotates the list so that this page comes first.
\<close>

definition slob_list_rotate :: "int list \<Rightarrow> int option \<Rightarrow> int list" where
  "slob_list_rotate xs prev =
     (let last_node = klist_prev xs None in
      if prev \<noteq> last_node \<and> klist_next xs None \<noteq> klist_next xs prev
      then (case klist_next xs prev of
              None \<Rightarrow> xs
            | Some q \<Rightarrow> dropWhile (\<lambda>p. p \<noteq> q) xs @ takeWhile (\<lambda>p. p \<noteq> q) xs)
      else xs)"

subsection \<open>slob\_alloc\<close>

definition SLOB_BREAK1 :: int where "SLOB_BREAK1 = 256"

definition SLOB_BREAK2 :: int where "SLOB_BREAK2 = 1024"

text \<open>The list for a size (lines 281-286 and 402-407).\<close>

definition slob_list_for :: "int \<Rightarrow> slob_class" where
  "slob_list_for sz =
     (if sz < SLOB_BREAK1 then Small else if sz < SLOB_BREAK2 then Medium else Large)"

text \<open>
  The best-fit scan (lines 307-320): at most \<open>i\<close> nodes from the list head, up to \<open>cur\<close>.
  \<open>None\<close>: the scan runs into the list head and reads it as a page.
\<close>

fun best_scan :: "slob \<Rightarrow> int \<Rightarrow> int \<Rightarrow> nat \<Rightarrow> int list \<Rightarrow> int \<Rightarrow> int option" where
  "best_scan s sz cur 0 nodes best = Some best"
| "best_scan s sz cur (Suc i) [] best = None"
| "best_scan s sz cur (Suc i) (q # nodes) best =
     (let units = pg_units (s_pg s q);
          best' = (if ulong units \<ge> SLOB_UNITS sz \<and> units < pg_units (s_pg s best) then q else best)
      in if q = cur then Some best' else best_scan s sz cur i nodes best')"

text \<open>The loop over the pages of a list (lines 290-335).\<close>

fun slob_alloc_list ::
  "kconf \<Rightarrow> slob \<Rightarrow> int \<Rightarrow> int \<Rightarrow> int \<Rightarrow> slob_class \<Rightarrow> int list \<Rightarrow> (slob \<times> int option) result" where
  "slob_alloc_list k s sz align node c [] = Inr (s, None)"
| "slob_alloc_list k s sz align node c (sp # rest) =
     (if kc_numa k \<and> node \<noteq> NUMA_NO_NODE \<and> page_to_nid k sp \<noteq> node
      then slob_alloc_list k s sz align node c rest
      else if ulong (pg_units (s_pg s sp)) < SLOB_UNITS sz
      then slob_alloc_list k s sz align node c rest
      else (case best_scan s sz sp 50 (s_list s c) sp of
              None \<Rightarrow> Inl Wild
            | Some best \<Rightarrow>
                (let prev = klist_prev (s_list s c) (Some best) in
                 case slob_page_alloc s best sz align of
                   Inl f \<Rightarrow> Inl f
                 | Inr (s', None) \<Rightarrow> slob_alloc_list k s' sz align node c rest
                 | Inr (s', Some b) \<Rightarrow>
                     Inr (s'\<lparr>s_list := (s_list s')(c := slob_list_rotate (s_list s' c) prev)\<rparr>, Some b))))"

text \<open>A fresh page joins the allocator and serves the request (lines 343-355).\<close>

definition slob_alloc_new :: "slob \<Rightarrow> int \<Rightarrow> int \<Rightarrow> slob_class \<Rightarrow> int \<Rightarrow> (slob \<times> int option) result" where
  "slob_alloc_new s sz align c sp =
     (let b = PU * sp;
          s1 = upd_page sp (\<lambda>p. p\<lparr>pg_slab := True, pg_units := SLOB_UNITS PAGE_SIZE, pg_freelist := b\<rparr>)
                 (s\<lparr>s_mem := set_slob (s_mem s) b (SLOB_UNITS PAGE_SIZE) (b + SLOB_UNITS PAGE_SIZE)\<rparr>);
          s2 = set_slob_page_free s1 sp c
      in case slob_page_alloc s2 sp sz align of
           Inl f \<Rightarrow> Inl f
         | Inr (s3, None) \<Rightarrow> Inl Bug
         | Inr (s3, Some b) \<Rightarrow> Inr (s3\<lparr>s_pages := s_pages s3 + 1\<rparr>, Some b))"

text \<open>
  Bytes of the unit memory (little endian), for \<open>memset\<close> and for the callers' headers.
\<close>

definition get_byte :: "mem \<Rightarrow> int \<Rightarrow> 8 word" where
  "get_byte m a = ucast (if even a then m (a div 2) else drop_bit 8 (m (a div 2)))"

definition put_byte :: "mem \<Rightarrow> int \<Rightarrow> 8 word \<Rightarrow> mem" where
  "put_byte m a v =
     m(a div 2 := (if even a then (m (a div 2) AND 0xFF00) OR ucast v
                   else (m (a div 2) AND 0x00FF) OR push_bit 8 (ucast v)))"

primrec memset :: "mem \<Rightarrow> int \<Rightarrow> 8 word \<Rightarrow> nat \<Rightarrow> mem" where
  "memset m a v 0 = m"
| "memset m a v (Suc n) = put_byte (memset m a v n) (a + int n) v"

definition slob_alloc :: "kconf \<Rightarrow> slob \<Rightarrow> int \<Rightarrow> 32 word \<Rightarrow> int \<Rightarrow> int \<Rightarrow> (slob \<times> int option) result" where
  "slob_alloc k s sz flags align node =
     (let c = slob_list_for sz in
      case slob_alloc_list k s sz align node c (s_list s c) of
        Inl f \<Rightarrow> Inl f
      | Inr (s1, r) \<Rightarrow>
          (case (case r of
                   Some b \<Rightarrow> Inr (s1, Some b)
                 | None \<Rightarrow>
                     (case slob_new_pages k s1 (flags AND NOT (GFP_ZERO k)) 0 node of
                        None \<Rightarrow> Inr (s1, None)
                      | Some sp \<Rightarrow> slob_alloc_new s1 sz align c sp)) of
             Inl f \<Rightarrow> Inl f
           | Inr (s2, None) \<Rightarrow> Inr (s2, None)
           | Inr (s2, Some b) \<Rightarrow>
               Inr (if flags AND GFP_ZERO k \<noteq> 0
                    then s2\<lparr>s_mem := memset (s_mem s2) (SLOB_UNIT * b) 0 (nat sz)\<rparr> else s2, Some b)))"

subsection \<open>slob\_free\<close>

text \<open>\<open>block\<close> is a byte address; addresses up to 16 are \<open>ZERO_OR_NULL_PTR\<close>.\<close>

definition ZERO_OR_NULL_PTR :: "int \<Rightarrow> bool" where
  "ZERO_OR_NULL_PTR x \<longleftrightarrow> ulong x \<le> 16"

definition slob_free :: "slob \<Rightarrow> int \<Rightarrow> int \<Rightarrow> slob result" where
  "slob_free s block sz =
     (if ZERO_OR_NULL_PTR block then Inr s
      else if sz = 0 then Inl Bug
      else
        (let b = block div SLOB_UNIT; sp = b div PU; units = s16 (SLOB_UNITS sz) in
         if pg_units (s_pg s sp) + units = SLOB_UNITS PAGE_SIZE then
           (let s1 = (if slob_page_free s sp then clear_slob_page_free s sp else s);
                s2 = upd_page sp (\<lambda>p. p\<lparr>pg_slab := False\<rparr>) s1;
                s3 = slob_free_pages s2 b 0
            in Inr (s3\<lparr>s_pages := s_pages s3 - 1\<rparr>))
         else if \<not> slob_page_free s sp then
           (let s1 = upd_page sp (\<lambda>p. p\<lparr>pg_units := units, pg_freelist := b\<rparr>)
                  (s\<lparr>s_mem := set_slob (s_mem s) b units (slob_base (b + SLOB_UNITS PAGE_SIZE))\<rparr>)
            in Inr (set_slob_page_free s1 sp (slob_list_for sz)))
         else
           (let s1 = upd_page sp (\<lambda>p. p\<lparr>pg_units := pg_units p + units\<rparr>) s in
            case slob_free_insert (s_mem s1) (pg_freelist (s_pg s1 sp)) b units of
              None \<Rightarrow> Inl Hang
            | Some (m, fl) \<Rightarrow> Inr (upd_page sp (\<lambda>p. p\<lparr>pg_freelist := fl\<rparr>) (s1\<lparr>s_mem := m\<rparr>)))))"

end
