(* ===== verification/Slob_Inv.thy ===== *)
theory Slob_Inv
  imports Slob_Heap "HOL-Library.Multiset"
begin

text \<open>
  The invariant of the allocator. \<open>L\<close> is the set of live blocks, as (unit address, units) pairs:
  what callers hold. \<open>slob_wf s L\<close> says that on every slab page the free list and the live blocks
  partition the page, that the page lists hold exactly the pages with free units, once each, and
  that the unit counts add up. \<open>slob_inv\<close> adds that the counter \<open>pages\<close> is the number of slab pages.
  The lemmas show that the state changes of \<open>slob_alloc\<close> and \<open>slob_free\<close> keep it.
\<close>

subsection \<open>Definition\<close>

definition slabs :: "slob \<Rightarrow> int set" where
  "slabs s = {p. pg_slab (s_pg s p)}"

definition span :: "int \<times> int \<Rightarrow> int set" where
  "span x = {fst x ..< fst x + snd x}"

definition live_units :: "(int \<times> int) set \<Rightarrow> int set" where
  "live_units L = (\<Union>x \<in> L. span x)"

definition page_ok :: "slob \<Rightarrow> (int \<times> int) set \<Rightarrow> int \<Rightarrow> bool" where
  "page_ok s L p \<longleftrightarrow>
     (\<exists>bs. page_repr s p bs \<and> (pg_slobfree (s_pg s p) \<longleftrightarrow> bs \<noteq> []) \<and>
       bunits bs = {page_base p ..< page_end p} - live_units L)"

definition live_ok :: "slob \<Rightarrow> (int \<times> int) set \<Rightarrow> bool" where
  "live_ok s L \<longleftrightarrow>
     (\<forall>(a, u) \<in> L. 1 \<le> u \<and> a div PU \<in> slabs s \<and> a mod PU + u \<le> PU) \<and>
     (\<forall>x \<in> L. \<forall>y \<in> L. x \<noteq> y \<longrightarrow> span x \<inter> span y = {})"

definition lists_ok :: "slob \<Rightarrow> bool" where
  "lists_ok s \<longleftrightarrow>
     (\<forall>c. distinct (s_list s c)) \<and>
     (\<forall>c d. c \<noteq> d \<longrightarrow> set (s_list s c) \<inter> set (s_list s d) = {}) \<and>
     (\<forall>p. (\<exists>c. p \<in> set (s_list s c)) \<longleftrightarrow> pg_slobfree (s_pg s p))"

definition slob_wf :: "slob \<Rightarrow> (int \<times> int) set \<Rightarrow> bool" where
  "slob_wf s L \<longleftrightarrow>
     finite (slabs s) \<and> finite L \<and> (\<forall>p \<in> slabs s. 0 < p \<and> p < 2 ^ 20 - 1 \<and> page_ok s L p) \<and>
     (\<forall>p. pg_slobfree (s_pg s p) \<longrightarrow> p \<in> slabs s) \<and> lists_ok s \<and> live_ok s L \<and>
     (\<Sum>x \<in> L. snd x) + (\<Sum>p \<in> slabs s. pg_units (s_pg s p)) = PU * int (card (slabs s))"

definition slob_inv :: "slob \<Rightarrow> (int \<times> int) set \<Rightarrow> bool" where
  "slob_inv s L \<longleftrightarrow> slob_wf s L \<and> s_pages s = of_nat (card (slabs s))"

subsection \<open>Updating one page\<close>

lemma page_simps [simp]:
  "s_mem (upd_page p f s) = s_mem s" "s_list (upd_page p f s) = s_list s"
  "s_pages (upd_page p f s) = s_pages s"
  "s_pg (upd_page p f s) = (s_pg s)(p := f (s_pg s p))"
  "s_mem (clear_slob_page_free s p) = s_mem s" "s_pages (clear_slob_page_free s p) = s_pages s"
  "s_list (clear_slob_page_free s p) c = filter (\<lambda>q. q \<noteq> p) (s_list s c)"
  "s_pg (clear_slob_page_free s p) = (s_pg s)(p := (s_pg s p)\<lparr>pg_slobfree := False\<rparr>)"
  "s_mem (set_slob_page_free s p d) = s_mem s" "s_pages (set_slob_page_free s p d) = s_pages s"
  "s_list (set_slob_page_free s p d) = (s_list s)(d := p # s_list s d)"
  "s_pg (set_slob_page_free s p d) = (s_pg s)(p := (s_pg s p)\<lparr>pg_slobfree := True\<rparr>)"
  by (simp_all add: upd_page_def clear_slob_page_free_def set_slob_page_free_def)

lemma page_set_simps [simp]:
  "s_mem (page_set s p m bs) = m" "s_pages (page_set s p m bs) = s_pages s"
  "s_list (page_set s p m bs) c =
     (if bs = [] then filter (\<lambda>q. q \<noteq> p) (s_list s c) else s_list s c)"
  "pg_units (s_pg (page_set s p m bs) q) = (if q = p then bsum bs else pg_units (s_pg s q))"
  "pg_freelist (s_pg (page_set s p m bs) q) = (if q = p then nxt (page_end p) bs else pg_freelist (s_pg s q))"
  "pg_slobfree (s_pg (page_set s p m bs) q) = (if q = p \<and> bs = [] then False else pg_slobfree (s_pg s q))"
  "pg_slab (s_pg (page_set s p m bs) q) = pg_slab (s_pg s q)"
  by (auto simp: page_set_def Let_def)

lemma slabs_page_set [simp]: "slabs (page_set s p m bs) = slabs s"
  by (simp add: slabs_def)

text \<open>Units of different pages are different, so a change inside one page is no change of another.\<close>

lemma page_units_disjoint:
  "p \<noteq> q \<Longrightarrow> {page_base p ..< page_end p} \<inter> {page_base q ..< page_end q} = {}"
  by auto

lemma live_in_page:
  assumes "live_ok s L" and "(a, u) \<in> L"
  shows "{a ..< a + u} \<subseteq> {page_base (a div PU) ..< page_end (a div PU)}"
proof -
  from assms have "a mod PU + u \<le> PU" by (auto simp: live_ok_def)
  then show ?thesis by auto presburger+
qed

lemma page_repr_other:
  assumes "page_repr s q bs" and "s_pg t q = s_pg s q"
    and "\<And>a. a \<in> {page_base q ..< page_end q} \<Longrightarrow> s_mem t a = s_mem s a"
  shows "page_repr t q bs"
proof -
  from assms(1) have ok: "fl_ok (page_end q) (page_base q) bs" by (simp add: page_repr_def)
  then have "s_mem t a = s_mem s a" if "a \<in> bunits bs" for a
    using that assms(3) fl_ok_lower [OF ok] fl_ok_upper [OF ok] by simp
  then have "repr (s_mem t) (page_end q) bs = repr (s_mem s) (page_end q) bs"
    by (intro repr_cong [OF _ ok]) auto
  with assms(1,2) show ?thesis by (simp add: page_repr_def)
qed

lemma page_ok_other:
  assumes "page_ok s L q" and "s_pg t q = s_pg s q"
    and "\<And>a. a \<in> {page_base q ..< page_end q} \<Longrightarrow> s_mem t a = s_mem s a"
    and "live_units L' \<inter> {page_base q ..< page_end q} = live_units L \<inter> {page_base q ..< page_end q}"
  shows "page_ok t L' q"
proof -
  from assms(1) obtain bs where "page_repr s q bs" "pg_slobfree (s_pg s q) \<longleftrightarrow> bs \<noteq> []"
    "bunits bs = {page_base q ..< page_end q} - live_units L" by (auto simp: page_ok_def)
  with assms(2,4) page_repr_other [OF _ assms(2,3)] show ?thesis
    unfolding page_ok_def by (intro exI [of _ bs]) auto
qed

subsection \<open>Facts about well-formed states\<close>

lemma slob_wf_page:
  assumes "slob_wf s L" and "p \<in> slabs s"
  obtains bs where "page_repr s p bs" and "pg_slobfree (s_pg s p) \<longleftrightarrow> bs \<noteq> []"
    and "bunits bs = {page_base p ..< page_end p} - live_units L"
  using assms that unfolding slob_wf_def page_ok_def by blast

lemma slob_wfD:
  assumes "slob_wf s L"
  shows "live_ok s L" and "lists_ok s" and "finite (slabs s)" and "finite L"
  using assms by (simp_all add: slob_wf_def)

lemma lists_ok_filter:
  assumes "lists_ok s" and "\<And>c. s_list t c = filter (\<lambda>q. q \<noteq> p) (s_list s c)"
    and "\<And>q. pg_slobfree (s_pg t q) \<longleftrightarrow> q \<noteq> p \<and> pg_slobfree (s_pg s q)"
  shows "lists_ok t"
proof -
  have "set (s_list t c) \<inter> set (s_list t d) = {}" if "c \<noteq> d" for c d
  proof -
    from that assms(1) have "set (s_list s c) \<inter> set (s_list s d) = {}" by (simp add: lists_ok_def)
    then show ?thesis by (auto simp: assms(2))
  qed
  with assms show ?thesis by (auto simp: lists_ok_def)
qed

lemma lists_ok_add:
  assumes ok: "lists_ok s" and p: "\<not> pg_slobfree (s_pg s p)"
    and l: "s_list t = (s_list s)(d := p # s_list s d)"
    and free: "\<And>q. pg_slobfree (s_pg t q) \<longleftrightarrow> q = p \<or> pg_slobfree (s_pg s q)"
  shows "lists_ok t"
proof -
  have notin: "p \<notin> set (s_list s c)" for c using ok p by (auto simp: lists_ok_def)
  have "(\<exists>c. q \<in> set (s_list t c)) \<longleftrightarrow> q = p \<or> (\<exists>c. q \<in> set (s_list s c))" for q
    unfolding l by (auto split: if_splits)
  moreover have "distinct (s_list t c)" for c using ok notin by (simp add: l lists_ok_def)
  moreover have "set (s_list t c) \<inter> set (s_list t c') = {}" if "c \<noteq> c'" for c c'
    using ok notin that by (auto simp: l lists_ok_def)
  ultimately show ?thesis using ok free by (simp add: lists_ok_def)
qed

lemma page_repr_ok: "page_repr s p bs \<Longrightarrow> fl_ok (page_end p) (page_base p) bs"
  by (simp add: page_repr_def)

lemma page_repr_in_page: "page_repr s p bs \<Longrightarrow> bunits bs \<subseteq> {page_base p ..< page_end p}"
  using fl_ok_lower [OF page_repr_ok] fl_ok_upper [OF page_repr_ok] by fastforce

lemma slob_wf_listed: "slob_wf s L \<Longrightarrow> p \<in> set (s_list s c) \<Longrightarrow> p \<in> slabs s \<and> pg_slobfree (s_pg s p)"
  by (auto simp: slob_wf_def lists_ok_def)

lemma live_units_insert [simp]: "live_units (insert (a, u) L) = {a ..< a + u} \<union> live_units L"
  by (auto simp: live_units_def span_def)

lemma live_ok_insert:
  assumes "live_ok s L" and "1 \<le> u" and "a div PU \<in> slabs t" and "a mod PU + u \<le> PU"
    and "{a ..< a + u} \<inter> live_units L = {}" and "slabs t = slabs s"
  shows "live_ok t (insert (a, u) L)"
proof -
  have "span (a, u) \<inter> live_units L = {}" using assms(5) by (simp add: span_def)
  then have "span (a, u) \<inter> span y = {}" "span y \<inter> span (a, u) = {}" if "y \<in> L" for y
    using that unfolding live_units_def by blast+
  with assms show ?thesis by (auto simp: live_ok_def)
qed

lemma interval_in_page:
  assumes "{a ..< a + u} \<subseteq> {page_base p ..< page_end p}" and "1 \<le> u"
  shows "a div PU = p" and "a mod PU + u \<le> PU"
proof -
  have "a \<in> {page_base p ..< page_end p}" "a + u - 1 \<in> {page_base p ..< page_end p}"
    using assms by auto
  then have lo: "PU * p \<le> a" and hi: "a + u \<le> PU * p + PU" by auto
  then show div: "a div PU = p" using assms(2) by linarith
  have "a mod PU = a - PU * p" using div by (simp add: minus_mult_div_eq_mod [symmetric])
  with hi show "a mod PU + u \<le> PU" by linarith
qed

lemma lists_ok_page_set:
  assumes "lists_ok s" and "pg_slobfree (s_pg s p)" shows "lists_ok (page_set s p m bs)"
  using assms unfolding lists_ok_def by auto

lemma sum_units_page:
  assumes "finite S" and "p \<in> S" and "\<And>q. q \<noteq> p \<Longrightarrow> f q = g q"
  shows "(\<Sum>q \<in> S. f q) = (\<Sum>q \<in> S. g q) - g p + (f p :: int)"
proof -
  have "(\<Sum>q \<in> S - {p}. f q) = (\<Sum>q \<in> S - {p}. g q)" using assms(3) by (intro sum.cong) auto
  then show ?thesis using assms(1,2) by (simp add: sum.remove)
qed

subsection \<open>Allocation from a page\<close>

lemma slob_wf_take:
  assumes wf: "slob_wf s L" and p: "p \<in> slabs s" and r: "page_repr s p bs" and "bs \<noteq> []"
    and u: "1 \<le> u" "{a ..< a + u} \<subseteq> bunits bs"
    and ok: "fl_ok (page_end p) (page_base p) bs'" and rep: "repr m (page_end p) bs'"
    and bs': "bunits bs' = bunits bs - {a ..< a + u}" "bsum bs' = bsum bs - u"
    and m: "\<And>x. x \<notin> bunits bs \<Longrightarrow> m x = s_mem s x"
  shows "slob_wf (page_set s p m bs') (insert (a, u) L)"
proof -
  let ?t = "page_set s p m bs'"
  from slob_wf_page [OF wf p] page_repr_unique [OF r] have free: "pg_slobfree (s_pg s p)"
    and part: "bunits bs = {page_base p ..< page_end p} - live_units L"
    using \<open>bs \<noteq> []\<close> by metis+
  note inp = page_repr_in_page [OF r]
  have "page_repr ?t p bs'" using ok rep by (simp add: page_repr_def)
  then have okp: "page_ok ?t (insert (a, u) L) p"
    unfolding page_ok_def using free part bs' by (intro exI [of _ bs']) auto
  have okq: "page_ok ?t (insert (a, u) L) q" if "q \<in> slabs s" "q \<noteq> p" for q
  proof (rule page_ok_other)
    show "page_ok s L q" using wf that(1) by (simp add: slob_wf_def)
    show "s_pg ?t q = s_pg s q" using that(2) by (simp add: page_set_def Let_def)
    fix x assume "x \<in> {page_base q ..< page_end q}"
    then have "x \<notin> bunits bs" using inp page_units_disjoint [OF that(2)] by blast
    then show "s_mem ?t x = s_mem s x" using m by simp
  next
    show "live_units (insert (a, u) L) \<inter> {page_base q ..< page_end q} =
      live_units L \<inter> {page_base q ..< page_end q}"
      using u(2) inp page_units_disjoint [OF that(2)] by auto
  qed
  have inpage: "{a ..< a + u} \<subseteq> {page_base p ..< page_end p}" using u(2) inp by blast
  note au = interval_in_page [OF inpage u(1)]
  have dj: "{a ..< a + u} \<inter> live_units L = {}" using u(2) part by blast
  have new: "(a, u) \<notin> L"
  proof
    assume "(a, u) \<in> L"
    then have "a \<in> live_units L" using u(1) by (force simp: live_units_def span_def)
    moreover have "a \<in> {a ..< a + u}" using u(1) by simp
    ultimately show False using dj by blast
  qed
  have live: "live_ok ?t (insert (a, u) L)"
    using wf au p u(1) dj by (intro live_ok_insert [of s]) (auto simp: slob_wf_def)
  have fin: "finite (slabs s)" "finite L" using wf by (auto simp: slob_wf_def)
  have "(\<Sum>q \<in> slabs s. pg_units (s_pg ?t q)) = (\<Sum>q \<in> slabs s. pg_units (s_pg s q)) - u"
    using sum_units_page [OF fin(1) p, of "\<lambda>q. pg_units (s_pg ?t q)" "\<lambda>q. pg_units (s_pg s q)"]
      r bs'(2) by (simp add: page_repr_def)
  then have "(\<Sum>x \<in> insert (a, u) L. snd x) + (\<Sum>q \<in> slabs s. pg_units (s_pg ?t q)) =
      PU * int (card (slabs s))" using wf new fin by (simp add: slob_wf_def)
  then show ?thesis
    using wf okp okq live lists_ok_page_set [of s p] free
    unfolding slob_wf_def by auto
qed

text \<open>
  \<open>alloc_post s L u al s' a\<close>: from \<open>s\<close> with live blocks \<open>L\<close>, a block of \<open>u\<close> units at \<open>a\<close> was handed out.
\<close>

definition alloc_post :: "slob \<Rightarrow> (int \<times> int) set \<Rightarrow> int \<Rightarrow> int \<Rightarrow> slob \<Rightarrow> int \<Rightarrow> bool" where
  "alloc_post s L u al s' a \<longleftrightarrow>
     slob_wf s' (insert (a, u) L) \<and> {a ..< a + u} \<inter> live_units L = {} \<and>
     a div PU \<in> slabs s' \<and> (al \<noteq> 0 \<longrightarrow> al dvd 2 * a) \<and>
     (\<forall>x \<in> live_units L. s_mem s' x = s_mem s x)"

lemma slob_page_alloc_wf:
  assumes wf: "slob_wf s L" and p: "p \<in> slabs s" and free: "pg_slobfree (s_pg s p)"
    and sz: "0 < sz" "sz \<le> PAGE_SIZE" and al: "align_ok al"
  shows "slob_page_alloc s p sz al = Inr (s, None) \<or>
    (\<exists>s' a. slob_page_alloc s p sz al = Inr (s', Some a) \<and> alloc_post s L (SLOB_UNITS sz) al s' a \<and>
       a div PU = p \<and> slabs s' = slabs s \<and> s_pages s' = s_pages s)"
proof -
  obtain bs where r: "page_repr s p bs" and ne: "bs \<noteq> []"
    and part: "bunits bs = {page_base p ..< page_end p} - live_units L"
    using slob_wf_page [OF wf p] free by metis
  note u = SLOB_UNITS_pos [OF sz]
  show ?thesis
  proof (cases "ff_alloc (SLOB_UNITS sz) al bs")
    case None
    then show ?thesis using slob_page_alloc_None [OF r ne] by blast
  next
    case (Some ab)
    then obtain a bs' where ff: "ff_alloc (SLOB_UNITS sz) al bs = Some (a, bs')" by (cases ab) auto
    note spec = ff_alloc_spec [OF ff page_repr_ok [OF r] u al]
    obtain m where
      eq: "slob_page_alloc s p sz al = Inr (page_set s p m bs', Some a)"
      and rep: "repr m (page_end p) bs'" and m: "\<And>x. x \<notin> bunits bs \<Longrightarrow> m x = s_mem s x"
      by (rule slob_page_alloc_Some [OF r u al ff]) blast
    have "slob_wf (page_set s p m bs') (insert (a, SLOB_UNITS sz) L)"
      by (rule slob_wf_take [OF wf p r ne u spec(3) spec(1) rep spec(2,4) m])
    moreover have "{a ..< a + SLOB_UNITS sz} \<subseteq> {page_base p ..< page_end p}"
      using spec(3) part by blast
    note interval_in_page(1) [OF this u]
    moreover have "{a ..< a + SLOB_UNITS sz} \<inter> live_units L = {}" using spec(3) part by blast
    moreover have "m x = s_mem s x" if "x \<in> live_units L" for x using that part m by auto
    ultimately show ?thesis using eq spec(5) p by (auto simp: alloc_post_def)
  qed
qed

subsection \<open>The page list\<close>

lemma slob_wf_relist:
  assumes "slob_wf s L" and "\<And>c. distinct (l c)" and "\<And>c. set (l c) = set (s_list s c)"
  shows "slob_wf (s\<lparr>s_list := l\<rparr>) L"
  using assms by (simp add: slob_wf_def lists_ok_def live_ok_def slabs_def page_ok_def page_repr_def)

lemma slob_list_rotate_perm: "mset (slob_list_rotate xs prev) = mset xs"
proof -
  have "mset (dropWhile P xs @ takeWhile P xs) = mset xs" for P
    by (metis mset_append add.commute takeWhile_dropWhile_id)
  then show ?thesis by (simp add: slob_list_rotate_def Let_def split: option.split del: mset_append)
qed

lemma alloc_post_relist:
  assumes "alloc_post s L u al s' a" and "mset xs = mset (s_list s' c)"
  shows "alloc_post s L u al (s'\<lparr>s_list := (s_list s')(c := xs)\<rparr>) a"
proof -
  have "set xs = set (s_list s' c)" using assms(2) by (rule mset_eq_setD)
  moreover have "distinct xs = distinct (s_list s' c)" using assms(2) by (rule mset_eq_imp_distinct_iff)
  moreover have "slob_wf s' (insert (a, u) L)" using assms(1) by (simp add: alloc_post_def)
  ultimately have "slob_wf (s'\<lparr>s_list := (s_list s')(c := xs)\<rparr>) (insert (a, u) L)"
    by (intro slob_wf_relist) (auto simp: slob_wf_def lists_ok_def)
  with assms(1) show ?thesis by (auto simp: alloc_post_def slabs_def)
qed

lemma best_scan_Some:
  "cur \<in> set nodes \<Longrightarrow> \<exists>b. best_scan s sz cur i nodes best = Some b \<and> (b = best \<or> b \<in> set nodes)"
proof (induction s sz cur i nodes best rule: best_scan.induct)
  case (3 s sz cur i q nodes best)
  then show ?case by (fastforce simp: Let_def)
qed auto

lemma slob_alloc_list_wf:
  assumes wf: "slob_wf s L" and sz: "0 < sz" "sz \<le> PAGE_SIZE" and al: "align_ok al"
    and todo: "set todo \<subseteq> set (s_list s c)"
  shows "slob_alloc_list k s sz al node c todo = Inr (s, None) \<or>
    (\<exists>s' a. slob_alloc_list k s sz al node c todo = Inr (s', Some a) \<and>
       alloc_post s L (SLOB_UNITS sz) al s' a \<and> slabs s' = slabs s \<and> s_pages s' = s_pages s)"
  using todo
proof (induction todo)
  case (Cons sp rest)
  then have sp: "sp \<in> set (s_list s c)" by simp
  from best_scan_Some [OF this, of s sz 50 sp] sp obtain best where
    best: "best_scan s sz sp 50 (s_list s c) sp = Some best" "best \<in> set (s_list s c)" by auto
  with slob_wf_listed [OF wf] have "best \<in> slabs s" "pg_slobfree (s_pg s best)" by auto
  from slob_page_alloc_wf [OF wf this sz al] consider
    (no) "slob_page_alloc s best sz al = Inr (s, None)"
  | (yes) s' a where "slob_page_alloc s best sz al = Inr (s', Some a)"
      "alloc_post s L (SLOB_UNITS sz) al s' a" "slabs s' = slabs s" "s_pages s' = s_pages s"
    by blast
  then show ?case
  proof cases
    case no
    then show ?thesis using Cons best by auto
  next
    case yes
    note post = alloc_post_relist [OF yes(2) slob_list_rotate_perm]
    show ?thesis using Cons best yes post by (auto simp: slabs_def)
  qed
qed simp

end
