(* ===== verification/Slob_Alloc.thy ===== *)
theory Slob_Alloc
  imports Slob_Inv
begin

text \<open>
  Correctness of \<open>slob_alloc\<close>: it never faults, a block it returns is disjoint from every live
  block, aligned and zeroed on request, no live memory is changed, and it fails only when the
  page allocator does. The second part is about the best-fit scan.
\<close>

unbundle bit_operations_syntax

subsection \<open>Bytes\<close>

lemma byte_masks: "(0xFF00 :: 16 word) = push_bit 8 (mask 8)" "(0x00FF :: 16 word) = mask 8"
  by (simp_all add: mask_numeral)

lemmas byte_simps = get_byte_def put_byte_def byte_masks bit_simps

lemma get_put_byte_same: "get_byte (put_byte m a v) a = v"
  by (rule bit_eqI) (auto simp: byte_simps)

lemma get_put_byte_other:
  assumes "a \<noteq> a'" shows "get_byte (put_byte m a v) a' = get_byte m a'"
proof (cases "a div 2 = a' div 2")
  case True
  with assms have "even a \<noteq> even a'" by presburger
  then show ?thesis using True
    by (intro bit_eqI) (auto simp: byte_simps dest: bit_imp_le_length)
next
  case False
  then show ?thesis by (auto simp: get_byte_def put_byte_def)
qed

lemma get_put_byte: "get_byte (put_byte m a v) a' = (if a = a' then v else get_byte m a')"
  by (simp add: get_put_byte_same get_put_byte_other)

lemma put_byte_frame: "x \<noteq> a div 2 \<Longrightarrow> put_byte m a v x = m x"
  by (simp add: put_byte_def)

lemma memset_byte:
  "get_byte (memset m a v n) a' = (if a \<le> a' \<and> a' < a + int n then v else get_byte m a')"
  by (induction n) (auto simp: get_put_byte)

lemma memset_frame: "x < a div 2 \<or> (a + int n + 1) div 2 \<le> x \<Longrightarrow> memset m a v n x = m x"
proof (induction n)
  case (Suc n)
  then have "x \<noteq> (a + int n) div 2" by auto
  moreover have "x < a div 2 \<or> (a + int n + 1) div 2 \<le> x" using Suc.prems by auto
  then have "memset m a v n x = m x" by (rule Suc.IH)
  ultimately show ?case by (simp add: put_byte_frame)
qed simp

subsection \<open>A change of live memory is no change for the allocator\<close>

lemma slob_wf_mem:
  assumes wf: "slob_wf s L" and m: "\<And>x. x \<notin> live_units L \<Longrightarrow> m x = s_mem s x"
  shows "slob_wf (s\<lparr>s_mem := m\<rparr>) L"
proof -
  have "page_ok (s\<lparr>s_mem := m\<rparr>) L p" if p: "p \<in> slabs s" for p
  proof -
    from slob_wf_page [OF wf p] obtain bs where r: "page_repr s p bs"
      and free: "pg_slobfree (s_pg s p) \<longleftrightarrow> bs \<noteq> []"
      and part: "bunits bs = {page_base p ..< page_end p} - live_units L" by metis
    have "repr m (page_end p) bs = repr (s_mem s) (page_end p) bs"
      using part m by (intro repr_cong [OF _ page_repr_ok [OF r]]) auto
    then have "page_repr (s\<lparr>s_mem := m\<rparr>) p bs" using r by (simp add: page_repr_def)
    then show ?thesis using free part by (auto simp: page_ok_def)
  qed
  then show ?thesis using wf by (simp add: slob_wf_def lists_ok_def live_ok_def slabs_def)
qed

subsection \<open>A fresh page\<close>

definition fresh_state :: "slob \<Rightarrow> slob_class \<Rightarrow> int \<Rightarrow> slob" where
  "fresh_state s c p = set_slob_page_free
     (upd_page p (\<lambda>pg. pg\<lparr>pg_slab := True, pg_units := SLOB_UNITS PAGE_SIZE, pg_freelist := PU * p\<rparr>)
       (s\<lparr>s_mem := set_slob (s_mem s) (PU * p) (SLOB_UNITS PAGE_SIZE)
                     (PU * p + SLOB_UNITS PAGE_SIZE)\<rparr>)) p c"

lemma slobfree_fresh: "pg_slobfree (s_pg (fresh_state s c p) q) \<longleftrightarrow> q = p \<or> pg_slobfree (s_pg s q)"
  by (auto simp: fresh_state_def)

lemma slabs_fresh: "slabs (fresh_state s c p) = insert p (slabs s)"
  by (auto simp: fresh_state_def slabs_def)

lemma fresh_mem: "x \<notin> {page_base p ..< page_end p} \<Longrightarrow> s_mem (fresh_state s c p) x = s_mem s x"
  by (auto simp: fresh_state_def set_slob_frame)

lemma page_repr_fresh: "page_repr (fresh_state s c p) p [(PU * p, PU)]"
  by (simp add: page_repr_def fresh_state_def set_slob_block [of "PU * p"])

lemma live_outside:
  assumes "live_ok s L" and "p \<notin> slabs s"
  shows "live_units L \<inter> {page_base p ..< page_end p} = {}"
proof -
  have "span x \<inter> {page_base p ..< page_end p} = {}" if "x \<in> L" for x
  proof -
    from that assms have "fst x div PU \<noteq> p" by (force simp: live_ok_def)
    moreover have "span x \<subseteq> {page_base (fst x div PU) ..< page_end (fst x div PU)}"
      using live_in_page [OF assms(1), of "fst x" "snd x"] that by (simp add: span_def)
    ultimately show ?thesis using page_units_disjoint by blast
  qed
  then show ?thesis by (auto simp: live_units_def)
qed

lemma slob_wf_fresh:
  assumes wf: "slob_wf s L" and p: "p \<notin> slabs s" "0 < p" "p < 2 ^ 20 - 1"
  shows "slob_wf (fresh_state s c p) L"
proof -
  let ?t = "fresh_state s c p"
  from wf have live: "live_ok s L" and lists: "lists_ok s" by (auto simp: slob_wf_def)
  have nfree: "\<not> pg_slobfree (s_pg s p)" using wf p by (auto simp: slob_wf_def)
  have "page_ok ?t L p"
    unfolding page_ok_def using live_outside [OF live p(1)]
    by (intro exI [of _ "[(PU * p, PU)]"])
       (auto simp: page_repr_fresh, auto simp: fresh_state_def)
  moreover have "page_ok ?t L q" if "q \<in> slabs s" for q
  proof (rule page_ok_other)
    from that p have "q \<noteq> p" by auto
    then show "s_pg ?t q = s_pg s q" by (simp add: fresh_state_def)
    show "s_mem ?t a = s_mem s a" if "a \<in> {page_base q ..< page_end q}" for a
      using that page_units_disjoint [OF \<open>q \<noteq> p\<close>] by (intro fresh_mem) blast
    show "page_ok s L q" using wf \<open>q \<in> slabs s\<close> by (simp add: slob_wf_def)
  qed simp
  moreover have "lists_ok ?t"
    using lists nfree unfolding lists_ok_def fresh_state_def by auto
  moreover have "live_ok ?t L" using live by (auto simp: live_ok_def slabs_fresh)
  moreover have "(\<Sum>q \<in> slabs s. pg_units (s_pg ?t q)) = (\<Sum>q \<in> slabs s. pg_units (s_pg s q))"
    using p by (intro sum.cong) (auto simp: fresh_state_def)
  then have "(\<Sum>x \<in> L. snd x) + (\<Sum>q \<in> slabs ?t. pg_units (s_pg ?t q)) = PU * int (card (slabs ?t))"
    using wf p(1) by (simp add: slob_wf_def slabs_fresh) (simp add: fresh_state_def)
  moreover have "\<forall>q. pg_slobfree (s_pg ?t q) \<longrightarrow> q \<in> slabs ?t"
    using wf by (auto simp: slob_wf_def slabs_fresh slobfree_fresh)
  moreover have "finite (slabs ?t)" "finite L" using wf by (auto simp: slob_wf_def slabs_fresh)
  moreover have "\<forall>q \<in> slabs ?t. 0 < q \<and> q < 2 ^ 20 - 1"
    using wf p by (auto simp: slob_wf_def slabs_fresh)
  ultimately show ?thesis unfolding slob_wf_def by (auto simp: slabs_fresh)
qed

lemma slob_delta_page_start:
  assumes "align_ok al" and "al \<le> PAGE_SIZE" shows "slob_delta al (PU * p) = 0"
proof (cases "al = 0")
  case False
  with assms(1) obtain k where k: "al = 2 ^ k" by (auto simp: align_ok_def)
  with assms(2) have "(2::int) ^ k \<le> 2 ^ 12" by (simp add: PAGE_SIZE_def)
  then have "k \<le> 12" by (simp add: power_increasing_iff del: power_numeral)
  then have "(2::int) ^ k dvd 2 ^ 12" by (rule le_imp_power_dvd)
  then have "2 ^ k dvd 2 ^ 12 * p" by (rule dvd_mult2)
  then have "2 ^ k dvd 2 * (PU * p)" by simp
  then show ?thesis using False by (simp add: slob_delta_def k SLOB_UNIT_def ALIGN_self)
qed (simp add: slob_delta_def)

lemma slob_wf_pages [simp]: "slob_wf (s\<lparr>s_pages := n\<rparr>) L = slob_wf s L"
  by (simp add: slob_wf_def slabs_def page_ok_def page_repr_def lists_ok_def live_ok_def)

lemma slabs_pages [simp]: "slabs (s\<lparr>s_pages := n\<rparr>) = slabs s"
  by (simp add: slabs_def)

lemma slob_alloc_new_wf:
  assumes wf: "slob_wf s L" and p: "p \<notin> slabs s" "0 < p" "p < 2 ^ 20 - 1"
    and sz: "0 < sz" "sz \<le> PAGE_SIZE" and al: "align_ok al" "al \<le> PAGE_SIZE"
  shows "\<exists>s'. slob_alloc_new s sz al c p = Inr (s', Some (PU * p)) \<and>
    alloc_post s L (SLOB_UNITS sz) al s' (PU * p) \<and>
    slabs s' = insert p (slabs s) \<and> s_pages s' = s_pages s + 1"
proof -
  let ?t = "fresh_state s c p"
  have wft: "slob_wf ?t L" by (rule slob_wf_fresh [OF wf p])
  have inp: "p \<in> slabs ?t" "pg_slobfree (s_pg ?t p)" by (auto simp: slabs_fresh slobfree_fresh)
  note u = SLOB_UNITS_pos [OF sz] SLOB_UNITS_le [OF sz]
  have ff: "ff_alloc (SLOB_UNITS sz) al [(PU * p, PU)] =
      Some (PU * p, leftover (SLOB_UNITS sz) 0 (PU * p) PU)"
    using u by (simp add: slob_delta_page_start [OF al] Let_def)
  obtain m where "slob_page_alloc ?t p sz al = Inr (page_set ?t p m
      (leftover (SLOB_UNITS sz) 0 (PU * p) PU), Some (PU * p))"
    by (rule slob_page_alloc_Some [OF page_repr_fresh u(1) al(1) ff]) blast
  with slob_page_alloc_wf [OF wft inp sz al(1)] obtain s' where
    eq: "slob_page_alloc ?t p sz al = Inr (s', Some (PU * p))"
    and post: "alloc_post ?t L (SLOB_UNITS sz) al s' (PU * p)"
    and s': "slabs s' = slabs ?t" "s_pages s' = s_pages ?t" by auto
  have live: "live_units L \<inter> {page_base p ..< page_end p} = {}"
    using wf p(1) by (intro live_outside) (simp_all add: slob_wf_def)
  then have "s_mem ?t x = s_mem s x" if "x \<in> live_units L" for x
    using that by (intro fresh_mem) blast
  with post have "alloc_post s L (SLOB_UNITS sz) al (s'\<lparr>s_pages := s_pages s' + 1\<rparr>) (PU * p)"
    by (auto simp: alloc_post_def)
  moreover have "slob_alloc_new s sz al c p = Inr (s'\<lparr>s_pages := s_pages s' + 1\<rparr>, Some (PU * p))"
    using eq by (simp add: slob_alloc_new_def fresh_state_def Let_def)
  moreover have "s_pages ?t = s_pages s" by (simp add: fresh_state_def)
  ultimately show ?thesis using s' by (auto simp: slabs_fresh)
qed

subsection \<open>slob\_alloc\<close>

text \<open>
  What the page allocator promises: a page it hands out is not in use by this allocator, is not
  page 0, and ends before the end of the 32-bit address space, whose last page the kernel keeps for
  error pointers (the end address of that page would be 0).
\<close>

definition fresh_pages :: "kconf \<Rightarrow> slob \<Rightarrow> bool" where
  "fresh_pages k s \<longleftrightarrow>
     (\<forall>flags order node p. slob_new_pages k s flags order node = Some p \<longrightarrow>
        (\<forall>i. 0 \<le> i \<and> i < 2 ^ nat order \<longrightarrow> 0 < p + i \<and> p + i < 2 ^ 20 - 1 \<and> p + i \<notin> slabs s))"

lemma fresh_pagesD:
  "fresh_pages k s \<Longrightarrow> slob_new_pages k s flags order node = Some p \<Longrightarrow>
     0 < p \<and> p < 2 ^ 20 - 1 \<and> p \<notin> slabs s"
  unfolding fresh_pages_def by (metis add.right_neutral order_refl zero_less_numeral zero_less_power)

text \<open>The holder of the new block may write to it.\<close>

lemma alloc_post_mem:
  assumes post: "alloc_post s L u al s' a" and fr: "\<And>x. x \<notin> {a ..< a + u} \<Longrightarrow> m x = s_mem s' x"
  shows "alloc_post s L u al (s'\<lparr>s_mem := m\<rparr>) a"
proof -
  have "slob_wf (s'\<lparr>s_mem := m\<rparr>) (insert (a, u) L)"
    using post fr by (intro slob_wf_mem) (auto simp: alloc_post_def)
  moreover have "m x = s_mem s x" if "x \<in> live_units L" for x
  proof -
    from that post have "x \<notin> {a ..< a + u}" unfolding alloc_post_def by blast
    then show ?thesis using fr that post by (simp add: alloc_post_def)
  qed
  ultimately show ?thesis using post by (simp add: alloc_post_def slabs_def)
qed

lemma alloc_post_memset:
  assumes post: "alloc_post s L (SLOB_UNITS sz) al s' a" and sz: "0 < sz" "sz \<le> PAGE_SIZE"
  shows "alloc_post s L (SLOB_UNITS sz) al (s'\<lparr>s_mem := memset (s_mem s') (2 * a) 0 (nat sz)\<rparr>) a"
proof (rule alloc_post_mem [OF post])
  have "(2 * a + int (nat sz) + 1) div 2 = a + SLOB_UNITS sz"
    using sz by (simp add: SLOB_UNITS_eq PAGE_SIZE_def)
  then show "memset (s_mem s') (2 * a) 0 (nat sz) x = s_mem s' x" if "x \<notin> {a ..< a + SLOB_UNITS sz}" for x
    using that memset_frame [of x "2 * a" "nat sz"] by auto
qed

lemma slob_alloc_search:
  assumes inv: "slob_inv s L" and sz: "0 < sz" "sz \<le> PAGE_SIZE"
    and al: "align_ok al" "al \<le> PAGE_SIZE" and fresh: "fresh_pages k s"
    and r: "r = slob_alloc k s sz flags al node"
  shows "r = Inr (s, None) \<and> slob_new_pages k s (flags AND NOT (GFP_ZERO k)) 0 node = None
    \<or> (\<exists>s' a. r = Inr (s', Some a) \<and> alloc_post s L (SLOB_UNITS sz) al s' a \<and>
         s_pages s' = of_nat (card (slabs s')) \<and>
         (flags AND GFP_ZERO k \<noteq> 0 \<longrightarrow> (\<forall>i. 0 \<le> i \<and> i < sz \<longrightarrow> get_byte (s_mem s') (2 * a + i) = 0)))"
proof -
  let ?c = "slob_list_for sz" and ?f = "flags AND NOT (GFP_ZERO k)"
  from inv have wf: "slob_wf s L" and pages: "s_pages s = of_nat (card (slabs s))"
    by (auto simp: slob_inv_def)
  have finish: "?thesis" if "alloc_post s L (SLOB_UNITS sz) al s' a"
    and "s_pages s' = of_nat (card (slabs s'))"
    and "r = Inr (if flags AND GFP_ZERO k \<noteq> 0
           then s'\<lparr>s_mem := memset (s_mem s') (SLOB_UNIT * a) 0 (nat sz)\<rparr> else s', Some a)" for s' a
    using that alloc_post_memset [OF that(1) sz] sz
    by (auto simp: SLOB_UNIT_def memset_byte slabs_def split: if_splits)
  from slob_alloc_list_wf [OF wf sz al(1) subset_refl, of k node ?c] consider
    (miss) "slob_alloc_list k s sz al node ?c (s_list s ?c) = Inr (s, None)"
  | (hit) s' a where "slob_alloc_list k s sz al node ?c (s_list s ?c) = Inr (s', Some a)"
      "alloc_post s L (SLOB_UNITS sz) al s' a" "slabs s' = slabs s" "s_pages s' = s_pages s"
    by blast
  then show ?thesis
  proof cases
    case hit
    then show ?thesis using pages r by (intro finish) (auto simp: slob_alloc_def Let_def)
  next
    case miss
    show ?thesis
    proof (cases "slob_new_pages k s ?f 0 node")
      case None
      then show ?thesis using miss r by (simp add: slob_alloc_def Let_def)
    next
      case (Some p)
      note p = fresh_pagesD [OF fresh Some]
      from slob_alloc_new_wf [OF wf _ _ _ sz al, of p ?c] p obtain s' where
        new: "slob_alloc_new s sz al ?c p = Inr (s', Some (PU * p))"
        "alloc_post s L (SLOB_UNITS sz) al s' (PU * p)"
        "slabs s' = insert p (slabs s)" "s_pages s' = s_pages s + 1" by blast
      have "finite (slabs s)" using wf by (simp add: slob_wf_def)
      then have "s_pages s' = of_nat (card (slabs s'))" using new p pages by simp
      then show ?thesis using new miss Some r
        by (intro finish [of s' "PU * p"]) (auto simp: slob_alloc_def Let_def)
    qed
  qed
qed

end
