(* ===== verification/Allocator.thy ===== *)
theory Allocator
  imports Prelude "HOL-Library.Multiset"
begin

text \<open>
  What the clients of an allocator rely on, as a locale, and what follows for them. The slob
  allocator, \<open>kmalloc\<close>/\<open>kfree\<close> and the object caches each interpret it on their own operations.
\<close>

subsection \<open>Client programs\<close>

text \<open>
  Allocate for each request in turn, stopping at the first refusal; free a list of blocks.
\<close>

primrec alloc_all ::
  "('s \<Rightarrow> 'n \<Rightarrow> ('s \<times> 'p option) result) \<Rightarrow> 's \<Rightarrow> 'n list \<Rightarrow> ('s \<times> ('p \<times> 'n) list) result" where
  "alloc_all alloc s [] = Inr (s, [])"
| "alloc_all alloc s (n # ns) =
     (case alloc s n of
        Inl f \<Rightarrow> Inl f
      | Inr (s', None) \<Rightarrow> Inr (s', [])
      | Inr (s', Some p) \<Rightarrow>
          (case alloc_all alloc s' ns of
             Inl f \<Rightarrow> Inl f
           | Inr (s'', ps) \<Rightarrow> Inr (s'', (p, n) # ps)))"

primrec free_all :: "('s \<Rightarrow> 'p \<Rightarrow> 'n \<Rightarrow> 's result) \<Rightarrow> 's \<Rightarrow> ('p \<times> 'n) list \<Rightarrow> 's result" where
  "free_all free s [] = Inr s"
| "free_all free s (x # xs) =
     (case free s (fst x) (snd x) of Inl f \<Rightarrow> Inl f | Inr s' \<Rightarrow> free_all free s' xs)"

text \<open>Requests of size 0 that all get the pointer \<open>z\<close> and change nothing.\<close>

lemma alloc_all_skip:
  fixes ns :: "'n::zero list"
  assumes "\<And>s. 0 \<in> set ns \<Longrightarrow> alloc s 0 = Inr (s, Some z)" and "alloc_all alloc s (filter (\<lambda>n. n \<noteq> 0) ns) = Inr (s', os)"
  shows "\<exists>ps. alloc_all alloc s ns = Inr (s', ps) \<and> os = filter (\<lambda>x. snd x \<noteq> 0) ps \<and>
    (\<forall>x \<in> set ps. snd x = 0 \<longrightarrow> fst x = z)"
  using assms
proof (induction ns arbitrary: s os)
  case (Cons n ns)
  show ?case
  proof (cases "n = 0")
    case True
    with Cons obtain ps where "alloc_all alloc s ns = Inr (s', ps)" "os = filter (\<lambda>x. snd x \<noteq> 0) ps"
      "\<forall>x \<in> set ps. snd x = 0 \<longrightarrow> fst x = z" by force
    with True Cons.prems(1) show ?thesis by (intro exI [of _ "(z, 0) # ps"]) simp
  next
    case False
    then show ?thesis using Cons.prems Cons.IH
      by (fastforce split: sum.splits option.splits prod.splits)
  qed
qed simp

lemma free_all_skip:
  assumes "\<forall>x \<in> set qs. snd x = 0 \<longrightarrow> fst x = z" and "\<And>s. free s z 0 = Inr s"
  shows "free_all free s (filter (\<lambda>x. snd x \<noteq> 0) qs) = free_all free s qs"
  using assms by (induction qs arbitrary: s) (auto split: sum.splits)

subsection \<open>The contract\<close>

text \<open>
  \<open>inv s L\<close>: the state \<open>s\<close> is consistent and the blocks in use are \<open>L\<close>. An allocation either
  refuses and changes nothing, or adds one block that was not in use; a free takes back one block
  in use. Neither changes the contents of another block in use, and neither faults.
\<close>

locale allocator =
  fixes inv :: "'s \<Rightarrow> 'b set \<Rightarrow> bool"
    and alloc :: "'s \<Rightarrow> 'n \<Rightarrow> ('s \<times> 'p option) result"
    and free :: "'s \<Rightarrow> 'p \<Rightarrow> 'n \<Rightarrow> 's result"
    and blk :: "'p \<times> 'n \<Rightarrow> 'b"
    and contents :: "'s \<Rightarrow> 'b \<Rightarrow> 'v"
    and req_ok :: "'n \<Rightarrow> bool"
  assumes alloc_law: "inv s L \<Longrightarrow> req_ok n \<Longrightarrow> alloc s n = Inr (s, None) \<or>
      (\<exists>s' p. alloc s n = Inr (s', Some p) \<and> blk (p, n) \<notin> L \<and> inv s' (insert (blk (p, n)) L) \<and>
        (\<forall>b \<in> L. contents s' b = contents s b))"
    and free_law: "inv s L \<Longrightarrow> req_ok n \<Longrightarrow> blk (p, n) \<in> L \<Longrightarrow>
      \<exists>s'. free s p n = Inr s' \<and> inv s' (L - {blk (p, n)}) \<and>
        (\<forall>b \<in> L - {blk (p, n)}. contents s' b = contents s b)"
begin

lemma alloc_Some:
  assumes "inv s L" and "req_ok n" and "alloc s n = Inr (s', Some p)"
  shows "blk (p, n) \<notin> L" and "inv s' (insert (blk (p, n)) L)"
    and "\<forall>b \<in> L. contents s' b = contents s b"
  using alloc_law [OF assms(1,2)] assms(3) by auto

lemma alloc_no_fault: "inv s L \<Longrightarrow> req_ok n \<Longrightarrow> alloc s n \<noteq> Inl f"
  using alloc_law [of s L n] by auto

lemma alloc_free:
  assumes "inv s L" and "req_ok n" and "alloc s n = Inr (s', Some p)"
  shows "\<exists>s''. free s' p n = Inr s'' \<and> inv s'' L \<and> (\<forall>b \<in> L. contents s'' b = contents s b)"
proof -
  note a = alloc_Some [OF assms]
  with free_law [OF a(2) assms(2), of p] show ?thesis by auto
qed

lemma free_all_law:
  assumes "inv s (L \<union> blk ` set ps)" and "distinct (map blk ps)" and "L \<inter> blk ` set ps = {}"
    and "\<forall>x \<in> set ps. req_ok (snd x)"
  shows "\<exists>s'. free_all free s ps = Inr s' \<and> inv s' L \<and> (\<forall>b \<in> L. contents s' b = contents s b)"
  using assms
proof (induction ps arbitrary: s)
  case (Cons x ps)
  obtain p n where x: "x = (p, n)" by fastforce
  let ?L = "L \<union> blk ` set (x # ps)"
  from Cons.prems x obtain s1 where s1: "free s p n = Inr s1" "inv s1 (?L - {blk x})"
    "\<forall>b \<in> ?L - {blk x}. contents s1 b = contents s b"
    using free_law [of s ?L n p] by auto
  have L: "?L - {blk x} = L \<union> blk ` set ps" using Cons.prems by auto
  then have "\<forall>b \<in> L. contents s1 b = contents s b" using s1(3) by blast
  moreover have "inv s1 (L \<union> blk ` set ps)" using s1(2) L by simp
  ultimately show ?case using Cons.IH [of s1] Cons.prems s1(1) x by auto
qed simp

lemma alloc_all_law:
  assumes "inv s L" and "\<forall>n \<in> set ns. req_ok n"
  shows "\<exists>s' ps. alloc_all alloc s ns = Inr (s', ps) \<and> inv s' (L \<union> blk ` set ps) \<and>
    distinct (map blk ps) \<and> L \<inter> blk ` set ps = {} \<and> (\<forall>x \<in> set ps. req_ok (snd x)) \<and>
    (\<forall>b \<in> L. contents s' b = contents s b)"
  using assms
proof (induction ns arbitrary: s L)
  case (Cons n ns)
  from alloc_law [OF Cons.prems(1), of n] Cons.prems(2) consider "alloc s n = Inr (s, None)"
    | s1 p where "alloc s n = Inr (s1, Some p)" by auto
  then show ?case
  proof cases
    case 1
    then show ?thesis using Cons.prems by auto
  next
    case 2
    note a = alloc_Some [OF Cons.prems(1) _ 2]
    from Cons.IH [OF a(2)] Cons.prems(2) obtain s' ps where
      "alloc_all alloc s1 ns = Inr (s', ps)" "inv s' (insert (blk (p, n)) L \<union> blk ` set ps)"
      "distinct (map blk ps)" "insert (blk (p, n)) L \<inter> blk ` set ps = {}"
      "\<forall>x \<in> set ps. req_ok (snd x)" "\<forall>b \<in> insert (blk (p, n)) L. contents s' b = contents s1 b"
      by auto
    then show ?thesis using 2 a(1,3) Cons.prems(2)
      by (intro exI [of _ s'] exI [of _ "(p, n) # ps"]) auto
  qed
qed simp

text \<open>
  A batch of allocations hands out distinct blocks, and giving them back in any order restores
  the blocks in use and leaves their contents alone.
\<close>

lemma batch:
  assumes "inv s L" and "\<forall>n \<in> set ns. req_ok n"
  shows "\<exists>s' ps. alloc_all alloc s ns = Inr (s', ps) \<and> distinct (map blk ps) \<and>
    L \<inter> blk ` set ps = {} \<and> inv s' (L \<union> blk ` set ps) \<and>
    (\<forall>qs. mset qs = mset ps \<longrightarrow>
       (\<exists>s''. free_all free s' qs = Inr s'' \<and> inv s'' L \<and> (\<forall>b \<in> L. contents s'' b = contents s b)))"
proof -
  from alloc_all_law [OF assms] obtain s' ps where a: "alloc_all alloc s ns = Inr (s', ps)"
    "inv s' (L \<union> blk ` set ps)" "distinct (map blk ps)" "L \<inter> blk ` set ps = {}"
    "\<forall>x \<in> set ps. req_ok (snd x)" "\<forall>b \<in> L. contents s' b = contents s b" by blast
  have "\<exists>s''. free_all free s' qs = Inr s'' \<and> inv s'' L \<and> (\<forall>b \<in> L. contents s'' b = contents s b)"
    if "mset qs = mset ps" for qs
  proof -
    have "set qs = set ps" using that by (rule mset_eq_setD)
    moreover have "distinct (map blk qs)"
      using a(3) that by (metis mset_eq_imp_distinct_iff mset_map)
    ultimately show ?thesis using free_all_law [of s' L qs] a by auto
  qed
  with a show ?thesis by blast
qed

text \<open>One client call, as a step on the state and the blocks in use.\<close>

definition call :: "'s \<times> 'b set \<Rightarrow> 's \<times> 'b set \<Rightarrow> bool" where
  "call x y \<longleftrightarrow>
     (\<exists>n p s'. req_ok n \<and>
        (alloc (fst x) n = Inr (s', Some p) \<and> y = (s', insert (blk (p, n)) (snd x)) \<or>
         alloc (fst x) n = Inr (s', None) \<and> y = (s', snd x) \<or>
         blk (p, n) \<in> snd x \<and> free (fst x) p n = Inr s' \<and> y = (s', snd x - {blk (p, n)})))"

lemma call_inv: "inv (fst x) (snd x) \<Longrightarrow> call x y \<Longrightarrow> inv (fst y) (snd y)"
  unfolding call_def using alloc_law [of "fst x" "snd x"] free_law [of "fst x" "snd x"] by fastforce

end

text \<open>Every allocator is an invariant system, from any consistent start.\<close>

sublocale allocator \<subseteq> calls: invariant_system "\<lambda>x. inv (fst x) (snd x)" call "\<lambda>x. inv (fst x) (snd x)"
  by unfold_locales (auto intro: call_inv)

end
