(* ===== verification/Slob_Release.thy ===== *)
theory Slob_Release
  imports Slob_Alloc Allocator
begin

text \<open>
  Correctness of \<open>slob_free\<close>: freeing a live block returns exactly its units, on each of the three
  paths (last block of a page, first free block of a full page, reinsertion), and changes no other
  live memory.
\<close>

subsection \<open>Removing a live block\<close>

lemma live_units_remove:
  assumes "live_ok s L" and "x \<in> L" shows "live_units (L - {x}) = live_units L - span x"
  using assms unfolding live_ok_def live_units_def by blast

lemma live_ok_remove: "live_ok s L \<Longrightarrow> slabs t = slabs s \<Longrightarrow> live_ok t (L - {x})"
  by (auto simp: live_ok_def)

lemma slob_wf_give:
  assumes wf: "slob_wf s L" and bu: "(b, u) \<in> L" and p: "p = b div PU"
    and r: "page_repr s p bs" and t: "page_repr t p bs'" "bs' \<noteq> []"
    and pg: "s_pg t = (s_pg s)(p := pg')" "pg_slab pg'" "pg_slobfree pg'"
    and bs': "bunits bs' = bunits bs \<union> {b ..< b + u}" "bsum bs' = bsum bs + u"
    and lists: "lists_ok t"
    and m: "\<And>x. x \<notin> bunits bs \<union> {b ..< b + u} \<Longrightarrow> s_mem t x = s_mem s x"
  shows "slob_wf t (L - {(b, u)})"
proof -
  let ?L = "L - {(b, u)}"
  from wf have live: "live_ok s L" and fin: "finite (slabs s)" "finite L" by (auto simp: slob_wf_def)
  from live bu p have ps: "p \<in> slabs s" by (auto simp: live_ok_def)
  then have slabs: "slabs t = slabs s" using pg by (auto simp: slabs_def)
  have part: "bunits bs = {page_base p ..< page_end p} - live_units L"
    using slob_wf_page [OF wf ps] page_repr_unique [OF r] by metis
  have inp: "{b ..< b + u} \<subseteq> {page_base p ..< page_end p}"
    using live_in_page [OF live bu] p by simp
  have Lu: "live_units ?L = live_units L - {b ..< b + u}"
    using live_units_remove [OF live bu] by (simp add: span_def)
  have "{b ..< b + u} \<subseteq> live_units L" using bu by (force simp: live_units_def span_def)
  then have "bunits bs' = {page_base p ..< page_end p} - live_units ?L"
    using bs'(1) part Lu inp by auto
  then have okp: "page_ok t ?L p" using t pg by (auto simp: page_ok_def)
  have okq: "page_ok t ?L q" if "q \<in> slabs s" "q \<noteq> p" for q
  proof (rule page_ok_other)
    show "page_ok s L q" using wf that(1) by (simp add: slob_wf_def)
    show "s_pg t q = s_pg s q" using that(2) pg(1) by simp
    note dq = page_units_disjoint [OF that(2)]
    show "s_mem t x = s_mem s x" if "x \<in> {page_base q ..< page_end q}" for x
      using that dq inp part by (intro m) blast
    show "live_units ?L \<inter> {page_base q ..< page_end q} = live_units L \<inter> {page_base q ..< page_end q}"
      using Lu dq inp by blast
  qed
  have "(\<Sum>q \<in> slabs s. pg_units (s_pg t q)) = (\<Sum>q \<in> slabs s. pg_units (s_pg s q)) + u"
    using sum_units_page [OF fin(1) ps, of "\<lambda>q. pg_units (s_pg t q)" "\<lambda>q. pg_units (s_pg s q)"]
      r t(1) bs'(2) pg(1) by (simp add: page_repr_def)
  moreover have "(\<Sum>x \<in> ?L. snd x) = (\<Sum>x \<in> L. snd x) - u"
    using fin(2) bu by (simp add: sum_diff1)
  ultimately have "(\<Sum>x \<in> ?L. snd x) + (\<Sum>q \<in> slabs s. pg_units (s_pg t q)) = PU * int (card (slabs s))"
    using wf by (simp add: slob_wf_def)
  moreover have "\<forall>q. pg_slobfree (s_pg t q) \<longrightarrow> q \<in> slabs s"
    using wf pg ps by (auto simp: slob_wf_def)
  ultimately show ?thesis
    using wf okp okq lists live_ok_remove [OF live slabs] unfolding slob_wf_def slabs by auto
qed

subsection \<open>The last block of a page\<close>

lemma last_block:
  assumes wf: "slob_wf s L" and bu: "(b, u) \<in> L" and p: "p = b div PU"
    and full: "pg_units (s_pg s p) + u = PU" and x: "x \<in> L" "fst x div PU = p"
  shows "x = (b, u)"
proof (rule ccontr)
  assume ne: "x \<noteq> (b, u)"
  from wf have live: "live_ok s L" by (auto simp: slob_wf_def)
  from live bu p have ps: "p \<in> slabs s" and u: "1 \<le> u" by (auto simp: live_ok_def)
  let ?P = "{page_base p ..< page_end p}"
  obtain bs where r: "page_repr s p bs" and part: "bunits bs = ?P - live_units L"
    using slob_wf_page [OF wf ps] by metis
  have inb: "{b ..< b + u} \<subseteq> ?P" using live_in_page [OF live bu] p by simp
  have inx: "span x \<subseteq> ?P"
    using live_in_page [OF live, of "fst x" "snd x"] x by (simp add: span_def)
  have "{b ..< b + u} \<subseteq> live_units L" using bu by (force simp: live_units_def span_def)
  then have dj: "bunits bs \<inter> {b ..< b + u} = {}" using part by blast
  note fin = fl_ok_sum_card [OF page_repr_ok [OF r]]
  have "int (card (bunits bs \<union> {b ..< b + u})) = PU"
    using full r fin u dj by (simp add: card_Un_disjoint page_repr_def)
  then have "bunits bs \<union> {b ..< b + u} = ?P"
    using inb part by (intro card_subset_eq) auto
  moreover have "span x \<inter> span (b, u) = {}"
    using live x(1) bu ne unfolding live_ok_def by blast
  then have "span x \<inter> {b ..< b + u} = {}" by (simp add: span_def [of "(b, u)"])
  moreover have "span x \<subseteq> live_units L" using x(1) by (auto simp: live_units_def)
  ultimately have "span x = {}" using inx part by blast
  moreover have "1 \<le> snd x" using live x(1) by (cases x) (auto simp: live_ok_def)
  then have "fst x \<in> span x" by (simp add: span_def)
  ultimately show False by simp
qed

lemma slob_wf_drop:
  assumes wf: "slob_wf s L" and bu: "(b, u) \<in> L" and p: "p = b div PU"
    and full: "pg_units (s_pg s p) + u = PU"
    and pg: "s_pg t = (s_pg s)(p := pg')" "\<not> pg_slab pg'" "\<not> pg_slobfree pg'"
    and lists: "\<And>c. s_list t c = filter (\<lambda>q. q \<noteq> p) (s_list s c)" and m: "s_mem t = s_mem s"
  shows "slob_wf t (L - {(b, u)})" and "slabs t = slabs s - {p}" and "p \<in> slabs s"
proof -
  let ?L = "L - {(b, u)}"
  from wf have live: "live_ok s L" and fin: "finite (slabs s)" "finite L" by (auto simp: slob_wf_def)
  from live bu p show ps: "p \<in> slabs s" by (auto simp: live_ok_def)
  show slabs: "slabs t = slabs s - {p}" using pg by (auto simp: slabs_def)
  have other: "fst x div PU \<noteq> p" if "x \<in> ?L" for x
    using last_block [OF wf bu p full, of x] that by auto
  have live': "live_ok t ?L" using live other by (fastforce simp: live_ok_def slabs)
  have inp: "{b ..< b + u} \<subseteq> {page_base p ..< page_end p}"
    using live_in_page [OF live bu] p by simp
  have Lu: "live_units ?L = live_units L - {b ..< b + u}"
    using live_units_remove [OF live bu] by (simp add: span_def)
  have okq: "page_ok t ?L q" if "q \<in> slabs s" "q \<noteq> p" for q
  proof (rule page_ok_other)
    show "page_ok s L q" using wf that(1) by (simp add: slob_wf_def)
    show "s_pg t q = s_pg s q" using that(2) pg(1) by simp
    show "s_mem t x = s_mem s x" for x using m by simp
    show "live_units ?L \<inter> {page_base q ..< page_end q} = live_units L \<inter> {page_base q ..< page_end q}"
      using Lu page_units_disjoint [OF that(2)] inp by blast
  qed
  have lists': "lists_ok t"
    using pg by (intro lists_ok_filter [OF slob_wfD(2) [OF wf] lists]) auto
  have "(\<Sum>q \<in> slabs s - {p}. pg_units (s_pg t q)) = (\<Sum>q \<in> slabs s - {p}. pg_units (s_pg s q))"
    using pg(1) by (intro sum.cong) auto
  then have "(\<Sum>q \<in> slabs s - {p}. pg_units (s_pg t q)) =
      (\<Sum>q \<in> slabs s. pg_units (s_pg s q)) - pg_units (s_pg s p)"
    using fin(1) ps by (simp add: sum_diff1)
  moreover have "(\<Sum>x \<in> ?L. snd x) = (\<Sum>x \<in> L. snd x) - u"
    using fin(2) bu by (simp add: sum_diff1)
  moreover have "int (card (slabs s - {p})) = int (card (slabs s)) - 1"
    using fin(1) ps card_gt_0_iff [of "slabs s"] by (auto simp: card_Diff_singleton of_nat_diff Suc_leI)
  ultimately have "(\<Sum>x \<in> ?L. snd x) + (\<Sum>q \<in> slabs t. pg_units (s_pg t q)) = PU * int (card (slabs t))"
    using wf full by (simp add: slob_wf_def slabs algebra_simps)
  moreover have "\<forall>q. pg_slobfree (s_pg t q) \<longrightarrow> q \<in> slabs t"
    using wf pg by (auto simp: slob_wf_def slabs)
  moreover have "\<forall>q \<in> slabs t. 0 < q \<and> q < 2 ^ 20 - 1 \<and> page_ok t ?L q"
    using wf okq by (simp add: slabs slob_wf_def)
  ultimately show "slob_wf t ?L"
    using fin live' lists' slabs unfolding slob_wf_def by auto
qed

subsection \<open>slob\_free\<close>

definition free_post :: "slob \<Rightarrow> (int \<times> int) set \<Rightarrow> slob \<Rightarrow> bool" where
  "free_post s L' s' \<longleftrightarrow> slob_inv s' L' \<and> (\<forall>x \<in> live_units L'. s_mem s' x = s_mem s x)"

lemma live_block_address:
  assumes "slob_wf s L" and "(b, u) \<in> L"
  shows "\<not> ZERO_OR_NULL_PTR (2 * b)" and "0 \<le> b" and "1 \<le> u" and "u \<le> PU" and "b div PU \<in> slabs s"
    and "PU * (b div PU) \<le> b" and "b + u \<le> PU * (b div PU) + PU"
proof -
  from assms have ok: "1 \<le> u" "b div PU \<in> slabs s" "b mod PU + u \<le> PU" "0 < b div PU" "b div PU < 2 ^ 20 - 1"
    by (auto simp: slob_wf_def live_ok_def)
  then show "1 \<le> u" "b div PU \<in> slabs s" "PU * (b div PU) \<le> b" "b + u \<le> PU * (b div PU) + PU"
    by (auto, presburger+)
  have "0 \<le> b mod PU" "b mod PU < PU" by auto
  then show "u \<le> PU" "0 \<le> b" using ok by linarith+
  have "PU \<le> b" "b < PU * 2 ^ 20" using ok by auto
  then show "\<not> ZERO_OR_NULL_PTR (2 * b)" by (simp add: ZERO_OR_NULL_PTR_def c_int)
qed

lemma slob_free_whole:
  assumes inv: "slob_inv s L" and bu: "(b, SLOB_UNITS sz) \<in> L" and sz: "sz \<noteq> 0"
    and whole: "pg_units (s_pg s (b div PU)) + SLOB_UNITS sz = PU"
  shows "\<exists>s'. slob_free s (2 * b) sz = Inr s' \<and> free_post s (L - {(b, SLOB_UNITS sz)}) s'"
proof -
  let ?u = "SLOB_UNITS sz" and ?p = "b div PU"
  from inv have wf: "slob_wf s L" and pages: "s_pages s = of_nat (card (slabs s))"
    by (auto simp: slob_inv_def)
  note adr = live_block_address [OF wf bu]
  let ?s1 = "upd_page ?p (\<lambda>p. p\<lparr>pg_slab := False\<rparr>)
    (if pg_slobfree (s_pg s ?p) then clear_slob_page_free s ?p else s)"
  define t where "t = (slob_free_pages ?s1 b 0)\<lparr>s_pages := s_pages s - 1\<rparr>"
  have "s16 ?u = ?u" using adr by (simp add: c_int)
  then have code: "slob_free s (2 * b) sz = Inr t" using adr(1) sz whole
    by (simp add: slob_free_def SLOB_UNIT_def slob_page_free_def t_def slob_free_pages_def Let_def)
  have nolist: "\<not> pg_slobfree (s_pg s ?p) \<Longrightarrow> filter (\<lambda>q. q \<noteq> ?p) (s_list s c) = s_list s c" for c
    using slob_wfD(2) [OF wf] by (auto simp: lists_ok_def filter_id_conv)
  have "s_pg t = (s_pg s)(?p := (s_pg s ?p)\<lparr>pg_slab := False, pg_slobfree := False\<rparr>)"
    by (auto simp: t_def slob_free_pages_def)
  from slob_wf_drop [OF wf bu refl whole this, simplified]
  have wft: "slob_wf t (L - {(b, ?u)})" and st: "slabs t = slabs s - {?p}"
    using nolist by (simp_all add: t_def slob_free_pages_def)
  have "card (slabs s) = Suc (card (slabs t))"
    unfolding st using card_Suc_Diff1 [OF slob_wfD(3) [OF wf] adr(5)] by (rule sym)
  then have "s_pages t = of_nat (card (slabs t))" using pages by (simp add: t_def)
  moreover have "s_mem t = s_mem s" by (simp add: t_def slob_free_pages_def)
  ultimately show ?thesis using code wft by (auto simp: free_post_def slob_inv_def)
qed

lemma slob_free_full:
  assumes inv: "slob_inv s L" and bu: "(b, SLOB_UNITS sz) \<in> L" and sz: "sz \<noteq> 0"
    and full: "pg_units (s_pg s (b div PU)) + SLOB_UNITS sz \<noteq> PU" "\<not> pg_slobfree (s_pg s (b div PU))"
  shows "\<exists>s'. slob_free s (2 * b) sz = Inr s' \<and> free_post s (L - {(b, SLOB_UNITS sz)}) s'"
proof -
  let ?u = "SLOB_UNITS sz" and ?p = "b div PU" and ?c = "slob_list_for sz"
  from inv have wf: "slob_wf s L" and pages: "s_pages s = of_nat (card (slabs s))"
    by (auto simp: slob_inv_def)
  note adr = live_block_address [OF wf bu]
  from slob_wf_page [OF wf adr(5)] full(2) have r: "page_repr s ?p []" by metis
  define t where "t = set_slob_page_free (upd_page ?p (\<lambda>p. p\<lparr>pg_units := ?u, pg_freelist := b\<rparr>)
    (s\<lparr>s_mem := set_slob (s_mem s) b ?u (page_end ?p)\<rparr>)) ?p ?c"
  have "s16 ?u = ?u" using adr by (simp add: c_int)
  moreover have "slob_base (b + PU) = page_end ?p"
    using div_add_self2 [of PU b] by (simp add: slob_base_eq algebra_simps)
  ultimately have code: "slob_free s (2 * b) sz = Inr t" using adr(1) sz full
    by (simp add: slob_free_def SLOB_UNIT_def slob_page_free_def t_def Let_def)
  have blk: "page_repr t ?p [(b, ?u)]"
    using adr by (simp add: page_repr_def t_def set_slob_block [of "page_base ?p"])
  have lists: "lists_ok t"
    by (rule lists_ok_add [OF slob_wfD(2) [OF wf] full(2), of t ?c]) (auto simp: t_def)
  have mem: "s_mem t x = s_mem s x" if "x \<notin> {b ..< b + ?u}" for x
    using that adr(3) by (auto simp: t_def set_slob_frame)
  have "slob_wf t (L - {(b, ?u)})"
  proof (rule slob_wf_give [OF wf bu refl r blk _ _ _ _ _ _ lists])
    show "s_pg t = (s_pg s)(?p := (s_pg s ?p)\<lparr>pg_units := ?u, pg_freelist := b, pg_slobfree := True\<rparr>)"
      by (simp add: t_def)
  qed (use adr(5) mem in \<open>auto simp: slabs_def\<close>)
  moreover have "slabs t = slabs s" by (auto simp: t_def slabs_def)
  then have "s_pages t = of_nat (card (slabs t))" using pages by (simp add: t_def)
  moreover have "s_mem t x = s_mem s x" if "x \<in> live_units (L - {(b, ?u)})" for x
    using that live_units_remove [OF slob_wfD(1) [OF wf] bu] by (intro mem) (simp add: span_def)
  ultimately show ?thesis using code by (auto simp: free_post_def slob_inv_def)
qed

lemma slob_free_part:
  assumes inv: "slob_inv s L" and bu: "(b, SLOB_UNITS sz) \<in> L" and sz: "sz \<noteq> 0"
    and part: "pg_units (s_pg s (b div PU)) + SLOB_UNITS sz \<noteq> PU" "pg_slobfree (s_pg s (b div PU))"
  shows "\<exists>s'. slob_free s (2 * b) sz = Inr s' \<and> free_post s (L - {(b, SLOB_UNITS sz)}) s'"
proof -
  let ?u = "SLOB_UNITS sz" and ?p = "b div PU"
  from inv have wf: "slob_wf s L" and pages: "s_pages s = of_nat (card (slabs s))"
    by (auto simp: slob_inv_def)
  note adr = live_block_address [OF wf bu]
  obtain bs where r: "page_repr s ?p bs" and ne: "bs \<noteq> []"
    and bs: "bunits bs = {page_base ?p ..< page_end ?p} - live_units L"
    using slob_wf_page [OF wf adr(5)] part(2) by metis
  have "{b ..< b + ?u} \<subseteq> live_units L" using bu by (force simp: live_units_def span_def)
  then have dj: "{b ..< b + ?u} \<inter> bunits bs = {}" using bs by blast
  from r ne have rep: "repr (s_mem s) (page_end ?p) bs" and ok: "fl_ok (page_end ?p) (page_base ?p) bs"
    and fl: "pg_freelist (s_pg s ?p) = nxt (page_end ?p) bs" by (auto simp: page_repr_def)
  let ?bs = "ins_free b ?u bs"
  obtain m where ins: "slob_free_insert (s_mem s) (nxt (page_end ?p) bs) b ?u = Some (m, nxt (page_end ?p) ?bs)"
    and m: "repr m (page_end ?p) ?bs" "\<And>x. x \<notin> bunits bs \<union> {b ..< b + ?u} \<Longrightarrow> m x = s_mem s x"
    using slob_free_insert_refines [OF _ refl rep ok ne adr(3,6,7) dj] by auto
  note spec = ins_free_spec [OF ok adr(3,6,7) dj]
  define t where "t = upd_page ?p (\<lambda>p. p\<lparr>pg_units := pg_units p + ?u, pg_freelist := nxt (page_end ?p) ?bs\<rparr>)
    (s\<lparr>s_mem := m\<rparr>)"
  have "s16 ?u = ?u" using adr by (simp add: c_int)
  then have code: "slob_free s (2 * b) sz = Inr t" using adr(1) sz part fl ins
    by (simp add: slob_free_def SLOB_UNIT_def slob_page_free_def t_def upd_page_def Let_def)
  have rt: "page_repr t ?p ?bs" using spec m(1) r by (simp add: page_repr_def t_def)
  have lists: "lists_ok t" using slob_wfD(2) [OF wf] unfolding lists_ok_def t_def by auto
  have "slob_wf t (L - {(b, ?u)})"
  proof (rule slob_wf_give [OF wf bu refl r rt _ _ _ _ _ _ lists])
    show "s_pg t = (s_pg s)(?p := (s_pg s ?p)\<lparr>pg_units := pg_units (s_pg s ?p) + ?u,
        pg_freelist := nxt (page_end ?p) ?bs\<rparr>)" by (simp add: t_def)
  qed (use adr(5) spec part m(2) in \<open>auto simp: slabs_def t_def\<close>)
  moreover have "slabs t = slabs s" by (auto simp: t_def slabs_def)
  then have "s_pages t = of_nat (card (slabs t))" using pages by (simp add: t_def)
  moreover have "s_mem t x = s_mem s x" if "x \<in> live_units (L - {(b, ?u)})" for x
  proof -
    have "x \<notin> bunits bs \<union> {b ..< b + ?u}"
      using that live_units_remove [OF slob_wfD(1) [OF wf] bu] bs by (auto simp: span_def)
    then show ?thesis using m(2) by (simp add: t_def)
  qed
  ultimately show ?thesis using code by (auto simp: free_post_def slob_inv_def)
qed

lemma slob_free_wf:
  assumes "slob_inv s L" and "(b, SLOB_UNITS sz) \<in> L" and "sz \<noteq> 0"
  shows "\<exists>s'. slob_free s (2 * b) sz = Inr s' \<and> free_post s (L - {(b, SLOB_UNITS sz)}) s'"
  using slob_free_whole [OF assms] slob_free_full [OF assms] slob_free_part [OF assms] by blast

subsection \<open>slob\_alloc and slob\_free as an allocator\<close>

text \<open>The page allocator keeps its promise in every state of this allocator.\<close>

definition pages_ok :: "kconf \<Rightarrow> bool" where
  "pages_ok k \<longleftrightarrow> (\<forall>s. fresh_pages k s)"

definition block_units :: "slob \<Rightarrow> int \<times> int \<Rightarrow> 16 word list" where
  "block_units s b = map (s_mem s) [fst b .. fst b + snd b - 1]"

text \<open>A request is a size and an alignment.\<close>

definition slob_req_ok :: "int \<times> int \<Rightarrow> bool" where
  "slob_req_ok n \<longleftrightarrow> 0 < fst n \<and> fst n \<le> PAGE_SIZE \<and> align_ok (snd n) \<and> snd n \<le> PAGE_SIZE"

definition slob_blk :: "int \<times> int \<times> int \<Rightarrow> int \<times> int" where
  "slob_blk x = (fst x, SLOB_UNITS (fst (snd x)))"

lemma block_units_eq:
  "x \<in> L \<Longrightarrow> \<forall>a \<in> live_units L. s_mem s' a = s_mem s a \<Longrightarrow> block_units s' x = block_units s x"
  by (auto simp: block_units_def live_units_def span_def)

lemma alloc_post_new:
  assumes "alloc_post s L u al s' a" and "1 \<le> u" shows "(a, u) \<notin> L"
  using assms by (force simp: alloc_post_def live_units_def span_def)

interpretation slob_store: allocator
  "\<lambda>s L. slob_inv s L \<and> pages_ok k"
  "\<lambda>s n. slob_alloc k s (fst n) flags (snd n) node"
  "\<lambda>s p n. slob_free s (2 * p) (fst n)"
  slob_blk block_units slob_req_ok
  for k flags node
proof
  fix s :: slob and L and n :: "int \<times> int"
  assume "slob_inv s L \<and> pages_ok k" and n: "slob_req_ok n"
  then have inv: "slob_inv s L" "pages_ok k" "fresh_pages k s" by (auto simp: pages_ok_def)
  from n have sz: "0 < fst n" "fst n \<le> PAGE_SIZE" "align_ok (snd n)" "snd n \<le> PAGE_SIZE"
    by (auto simp: slob_req_ok_def)
  note u = SLOB_UNITS_pos [OF sz(1,2)]
  from slob_alloc_search [OF inv(1) sz inv(3) refl, of flags node] consider
    "slob_alloc k s (fst n) flags (snd n) node = Inr (s, None)"
  | s' a where "slob_alloc k s (fst n) flags (snd n) node = Inr (s', Some a)"
      "alloc_post s L (SLOB_UNITS (fst n)) (snd n) s' a" "s_pages s' = of_nat (card (slabs s'))" by blast
  then show "slob_alloc k s (fst n) flags (snd n) node = Inr (s, None) \<or>
    (\<exists>s' p. slob_alloc k s (fst n) flags (snd n) node = Inr (s', Some p) \<and> slob_blk (p, n) \<notin> L \<and>
      (slob_inv s' (insert (slob_blk (p, n)) L) \<and> pages_ok k) \<and>
      (\<forall>b \<in> L. block_units s' b = block_units s b))"
  proof cases
    case 2
    from alloc_post_new [OF 2(2) u] 2 inv(2) show ?thesis
      by (auto simp: slob_blk_def slob_inv_def alloc_post_def intro: block_units_eq)
  qed simp
next
  fix s :: slob and L p and n :: "int \<times> int"
  assume inv: "slob_inv s L \<and> pages_ok k" and n: "slob_req_ok n" and L: "slob_blk (p, n) \<in> L"
  from n L have "(p, SLOB_UNITS (fst n)) \<in> L" "fst n \<noteq> 0" by (auto simp: slob_blk_def slob_req_ok_def)
  with inv slob_free_wf [of s L p "fst n"] obtain s' where "slob_free s (2 * p) (fst n) = Inr s'"
    "free_post s (L - {(p, SLOB_UNITS (fst n))}) s'" by blast
  with inv show "\<exists>s'. slob_free s (2 * p) (fst n) = Inr s' \<and>
      (slob_inv s' (L - {slob_blk (p, n)}) \<and> pages_ok k) \<and>
      (\<forall>b \<in> L - {slob_blk (p, n)}. block_units s' b = block_units s b)"
    using block_units_eq [of _ "L - {(p, SLOB_UNITS (fst n))}" s' s] by (auto simp: free_post_def slob_blk_def)
qed

end
