(* ===== verification/Slob_Kmalloc.thy ===== *)
theory Slob_Kmalloc
  imports Slob_Release
begin

text \<open>
  The front end of the allocator, \<open>assignments/a4/slob.c\<close>, lines 453-552 and 598-603: \<open>kmalloc\<close>,
  \<open>kfree\<close> and \<open>ksize\<close>. Pointers at this level are byte addresses. Tracing, lockdep and
  kmemleak calls have no effect on the allocator and are left out.
\<close>

unbundle bit_operations_syntax

subsection \<open>Words in memory\<close>

definition put_u32 :: "mem \<Rightarrow> int \<Rightarrow> 32 word \<Rightarrow> mem" where
  "put_u32 m a v =
     put_byte (put_byte (put_byte (put_byte m a (ucast v)) (a + 1) (ucast (drop_bit 8 v)))
       (a + 2) (ucast (drop_bit 16 v))) (a + 3) (ucast (drop_bit 24 v))"

definition get_u32 :: "mem \<Rightarrow> int \<Rightarrow> 32 word" where
  "get_u32 m a =
     ucast (get_byte m a) OR push_bit 8 (ucast (get_byte m (a + 1)))
       OR push_bit 16 (ucast (get_byte m (a + 2))) OR push_bit 24 (ucast (get_byte m (a + 3)))"

subsection \<open>kmalloc\<close>

definition ZERO_SIZE_PTR :: int where "ZERO_SIZE_PTR = 16"

text \<open>\<open>max_t(size_t, ARCH_KMALLOC_MINALIGN, ARCH_SLAB_MINALIGN)\<close>.\<close>

definition kmalloc_align :: "kconf \<Rightarrow> int" where
  "kmalloc_align k = max (ARCH_KMALLOC_MINALIGN k) (ARCH_SLAB_MINALIGN k)"

definition do_kmalloc_node :: "kconf \<Rightarrow> slob \<Rightarrow> int \<Rightarrow> 32 word \<Rightarrow> int \<Rightarrow> (slob \<times> int option) result" where
  "do_kmalloc_node k s sz flags0 node =
     (let align = kmalloc_align k; flags = flags0 AND gfp_allowed_mask k in
      if sz < PAGE_SIZE - align then
        (if sz = 0 then Inr (s, Some ZERO_SIZE_PTR)
         else (case slob_alloc k s (sz + align) flags align node of
                 Inl f \<Rightarrow> Inl f
               | Inr (s', None) \<Rightarrow> Inr (s', None)
               | Inr (s', Some m) \<Rightarrow>
                   Inr (s'\<lparr>s_mem := put_u32 (s_mem s') (SLOB_UNIT * m) (word_of_int sz)\<rparr>,
                        Some (SLOB_UNIT * m + align))))
      else
        (let order = get_order k sz;
             flags' = (if order \<noteq> 0 then flags OR GFP_COMP k else flags)
         in Inr (s, map_option (\<lambda>p. PAGE_SIZE * p) (slob_new_pages k s flags' order node))))"

definition kmalloc :: "kconf \<Rightarrow> slob \<Rightarrow> int \<Rightarrow> 32 word \<Rightarrow> (slob \<times> int option) result" where
  "kmalloc k s sz flags = do_kmalloc_node k s sz flags NUMA_NO_NODE"

definition kmalloc_node :: "kconf \<Rightarrow> slob \<Rightarrow> int \<Rightarrow> 32 word \<Rightarrow> int \<Rightarrow> (slob \<times> int option) result" where
  "kmalloc_node k s sz flags node = do_kmalloc_node k s sz flags node"

definition kfree :: "kconf \<Rightarrow> slob \<Rightarrow> int \<Rightarrow> slob result" where
  "kfree k s block =
     (if ZERO_OR_NULL_PTR block then Inr s
      else
        (let sp = block div PAGE_SIZE in
         if pg_slab (s_pg s sp) then
           (let align = kmalloc_align k; m = block - align in
            slob_free s m (uint (get_u32 (s_mem s) m) + align))
         else Inr (s\<lparr>s_freed := (sp, compound_order k sp) # s_freed s\<rparr>)))"

definition ksize :: "kconf \<Rightarrow> slob \<Rightarrow> int \<Rightarrow> int result" where
  "ksize k s block =
     (if block = 0 then Inl Bug
      else if block = ZERO_SIZE_PTR then Inr 0
      else
        (let sp = block div PAGE_SIZE in
         if \<not> pg_slab (s_pg s sp) then Inr (PAGE_SIZE * 2 ^ nat (compound_order k sp))
         else
           (let align = kmalloc_align k; m = block - align in
            Inr (SLOB_UNITS (uint (get_u32 (s_mem s) m)) * SLOB_UNIT))))"

subsection \<open>Header round trip\<close>

lemma bytes_u32:
  fixes v :: "32 word"
  shows "ucast (ucast v :: 8 word) OR push_bit 8 (ucast (ucast (drop_bit 8 v) :: 8 word))
      OR push_bit 16 (ucast (ucast (drop_bit 16 v) :: 8 word))
      OR push_bit 24 (ucast (ucast (drop_bit 24 v) :: 8 word)) = v" (is "?w = v")
proof (rule bit_word_eqI)
  fix n assume "n < LENGTH(32)"
  then consider "n < 8" | "8 \<le> n" "n < 16" | "16 \<le> n" "n < 24" | "24 \<le> n" "n < 32" by fastforce
  then show "bit ?w n = bit v n" by cases (auto simp: bit_simps)
qed

lemma get_put_u32: "get_u32 (put_u32 m a v) a = v"
  using bytes_u32 [of v] by (simp add: get_u32_def put_u32_def get_put_byte)

lemma put_u32_frame: "x < a div 2 \<or> (a + 3) div 2 < x \<Longrightarrow> put_u32 m a v x = m x"
  unfolding put_u32_def by (subst put_byte_frame, arith)+ simp

lemma get_byte_cong: "m' (a div 2) = m (a div 2) \<Longrightarrow> get_byte m' a = get_byte m a"
  by (simp add: get_byte_def)

lemma get_u32_cong:
  "(\<And>x. a div 2 \<le> x \<Longrightarrow> x \<le> (a + 3) div 2 \<Longrightarrow> m' x = m x) \<Longrightarrow> get_u32 m' a = get_u32 m a"
  unfolding get_u32_def by (intro arg_cong2 [where f = "(OR)"] arg_cong [where f = "push_bit _"]
      arg_cong [where f = ucast] get_byte_cong) auto

subsection \<open>Objects from kmalloc\<close>

text \<open>The documented property of the alignment constants: a power of two that holds the header.\<close>

definition conf_ok :: "kconf \<Rightarrow> bool" where
  "conf_ok k \<longleftrightarrow> align_ok (kmalloc_align k) \<and> 4 \<le> kmalloc_align k \<and> kmalloc_align k \<le> PAGE_SIZE"

text \<open>
  \<open>kmalloced k s L p m sz\<close>: the pointer \<open>p\<close> belongs to the live block at unit \<open>m\<close>, which has room
  for \<open>sz\<close> bytes and whose header says \<open>sz\<close>.
\<close>

definition kmalloced :: "kconf \<Rightarrow> slob \<Rightarrow> (int \<times> int) set \<Rightarrow> int \<Rightarrow> int \<Rightarrow> int \<Rightarrow> bool" where
  "kmalloced k s L p m sz \<longleftrightarrow>
     p = 2 * m + kmalloc_align k \<and> (m, SLOB_UNITS (sz + kmalloc_align k)) \<in> L \<and>
     0 < sz \<and> sz < PAGE_SIZE - kmalloc_align k \<and> get_u32 (s_mem s) (2 * m) = word_of_int sz"

lemma align_even:
  assumes "conf_ok k" shows "even (kmalloc_align k)"
proof -
  from assms obtain j where j: "kmalloc_align k = 2 ^ j" by (auto simp: conf_ok_def align_ok_def)
  with assms have "j \<noteq> 0" by (cases j) (auto simp: conf_ok_def)
  then show ?thesis by (simp add: j)
qed

lemma kmalloc_units:
  assumes "conf_ok k" and "0 < sz" and "sz < PAGE_SIZE - kmalloc_align k"
  shows "2 * SLOB_UNITS (sz + kmalloc_align k) = kmalloc_align k + 2 * ((sz + 1) div 2)"
    and "3 \<le> SLOB_UNITS (sz + kmalloc_align k)"
proof -
  from assms have eq: "SLOB_UNITS (sz + kmalloc_align k) = (sz + kmalloc_align k + 1) div 2"
    by (simp add: SLOB_UNITS_eq conf_ok_def PAGE_SIZE_def)
  from align_even [OF assms(1)] obtain c where c: "kmalloc_align k = 2 * c" by (rule evenE)
  have "(sz + 2 * c + 1) div 2 = c + (sz + 1) div 2" by presburger
  with eq c show "2 * SLOB_UNITS (sz + kmalloc_align k) = kmalloc_align k + 2 * ((sz + 1) div 2)"
    by simp
  show "3 \<le> SLOB_UNITS (sz + kmalloc_align k)" using assms(1,2) unfolding eq by (auto simp: conf_ok_def)
qed

text \<open>Writing the header changes no other live block.\<close>

lemma alloc_post_header:
  assumes "alloc_post s L u al s' m" and "2 \<le> u"
  shows "alloc_post s L u al (s'\<lparr>s_mem := put_u32 (s_mem s') (2 * m) v\<rparr>) m"
  using assms(2) by (intro alloc_post_mem [OF assms(1)] put_u32_frame) auto

lemma kmalloc_small:
  assumes inv: "slob_inv s L" and k: "conf_ok k" and sz: "0 < sz" "sz < PAGE_SIZE - kmalloc_align k"
    and fresh: "fresh_pages k s" and r: "r = do_kmalloc_node k s sz flags node"
  shows "r = Inr (s, None) \<or>
    (\<exists>s' m L'. r = Inr (s', Some (2 * m + kmalloc_align k)) \<and>
      L' = insert (m, SLOB_UNITS (sz + kmalloc_align k)) L \<and> (m, SLOB_UNITS (sz + kmalloc_align k)) \<notin> L \<and>
      slob_inv s' L' \<and> kmalloced k s' L' (2 * m + kmalloc_align k) m sz \<and> kmalloc_align k dvd 2 * m \<and>
      (\<forall>x \<in> live_units L. s_mem s' x = s_mem s x))"
proof -
  let ?al = "kmalloc_align k" and ?f = "flags AND gfp_allowed_mask k"
  let ?u = "SLOB_UNITS (sz + ?al)" and ?a = "slob_alloc k s (sz + ?al) ?f ?al node"
  have al: "align_ok ?al" "?al \<le> PAGE_SIZE" "?al \<noteq> 0" using k by (auto simp: conf_ok_def)
  have sz': "0 < sz + ?al" "sz + ?al \<le> PAGE_SIZE" using sz k by (auto simp: conf_ok_def)
  note u = kmalloc_units [OF k sz]
  consider "?a = Inr (s, None)"
    | (got) s1 m where "?a = Inr (s1, Some m)" "alloc_post s L ?u ?al s1 m" "s_pages s1 = of_nat (card (slabs s1))"
    using slob_alloc_search [OF inv sz' al(1,2) fresh refl, of ?f node] by blast
  then show ?thesis
  proof cases
    case 1
    then show ?thesis using r sz by (simp add: do_kmalloc_node_def Let_def)
  next
    case got
    define s' where "s' = s1\<lparr>s_mem := put_u32 (s_mem s1) (2 * m) (word_of_int sz)\<rparr>"
    have post: "alloc_post s L ?u ?al s' m"
      unfolding s'_def using got(2) u(2) by (intro alloc_post_header) auto
    have "m \<in> {m ..< m + ?u}" using u(2) by simp
    then have new: "(m, ?u) \<notin> L" using post by (force simp: alloc_post_def live_units_def span_def)
    have "r = Inr (s', Some (2 * m + ?al))"
      using r sz got(1) by (simp add: do_kmalloc_node_def s'_def SLOB_UNIT_def Let_def)
    moreover have "slob_inv s' (insert (m, ?u) L)"
      using post got(3) by (simp add: slob_inv_def alloc_post_def s'_def slabs_def)
    moreover have "kmalloced k s' (insert (m, ?u) L) (2 * m + ?al) m sz"
      using sz by (simp add: kmalloced_def s'_def get_put_u32)
    ultimately show ?thesis using post new al(3) by (auto simp: alloc_post_def)
  qed
qed

lemma kmalloced_page:
  assumes inv: "slob_inv s L" and k: "conf_ok k" and p: "kmalloced k s L p m sz"
  shows "p div PAGE_SIZE = m div PU" and "pg_slab (s_pg s (p div PAGE_SIZE))" and "\<not> ZERO_OR_NULL_PTR p"
    and "p \<noteq> 0" and "p \<noteq> ZERO_SIZE_PTR" and "uint (get_u32 (s_mem s) (p - kmalloc_align k)) = sz"
proof -
  let ?al = "kmalloc_align k" and ?u = "SLOB_UNITS (sz + kmalloc_align k)"
  from inv have wf: "slob_wf s L" by (simp add: slob_inv_def)
  from p have bu: "(m, ?u) \<in> L" and sz: "0 < sz" "sz < PAGE_SIZE - ?al" and pm: "p = 2 * m + ?al"
    and hd: "get_u32 (s_mem s) (2 * m) = word_of_int sz" by (auto simp: kmalloced_def)
  note adr = live_block_address [OF wf bu] and u = kmalloc_units(1) [OF k sz]
  have al: "0 < ?al" "?al \<le> 4096" using k by (auto simp: conf_ok_def PAGE_SIZE_def)
  let ?q = "m div PU"
  have lo: "4096 * ?q \<le> p" and hi: "p < 4096 * ?q + 4096" using adr(6,7) u sz al pm by auto
  then show page: "p div PAGE_SIZE = ?q" by (simp add: PAGE_SIZE_def)
  then show "pg_slab (s_pg s (p div PAGE_SIZE))" using adr(5) by (simp add: slabs_def)
  have q: "0 < ?q" "?q < 2 ^ 20 - 1" using wf adr(5) by (auto simp: slob_wf_def)
  then have "4096 \<le> p" "p < 4294967296" using lo hi by auto
  then show "\<not> ZERO_OR_NULL_PTR p" "p \<noteq> 0" "p \<noteq> ZERO_SIZE_PTR"
    by (simp_all add: ZERO_OR_NULL_PTR_def ZERO_SIZE_PTR_def c_int)
  show "uint (get_u32 (s_mem s) (p - ?al)) = sz"
    using hd sz al pm by (simp add: PAGE_SIZE_def uint_word_of_int)
qed

lemma kfree_kmalloced:
  assumes inv: "slob_inv s L" and k: "conf_ok k" and p: "kmalloced k s L p m sz"
  shows "\<exists>s'. kfree k s p = Inr s' \<and> free_post s (L - {(m, SLOB_UNITS (sz + kmalloc_align k))}) s'"
proof -
  note pg = kmalloced_page [OF assms]
  from p have pm: "p - kmalloc_align k = 2 * m" and bu: "(m, SLOB_UNITS (sz + kmalloc_align k)) \<in> L"
    and "sz + kmalloc_align k \<noteq> 0" using k by (auto simp: kmalloced_def conf_ok_def)
  then show ?thesis using slob_free_wf [OF inv bu] pg
    by (simp add: kfree_def Let_def)
qed

lemma ksize_kmalloced:
  assumes "slob_inv s L" and "conf_ok k" and p: "kmalloced k s L p m sz"
  shows "ksize k s p = Inr (2 * ((sz + 1) div 2))"
  using kmalloced_page [OF assms] p
  by (auto simp: ksize_def Let_def kmalloced_def SLOB_UNITS_eq SLOB_UNIT_def PAGE_SIZE_def)

subsection \<open>kmalloc and kfree as an allocator\<close>

lemma kmalloced_span:
  assumes k: "conf_ok k" and p: "kmalloced k s L p m sz"
  shows "0 \<le> i \<Longrightarrow> i < sz \<Longrightarrow> (p + i) div 2 \<in> span (m, SLOB_UNITS (sz + kmalloc_align k))"
    and "2 * m div 2 \<le> x \<Longrightarrow> x \<le> (2 * m + 3) div 2 \<Longrightarrow> x \<in> span (m, SLOB_UNITS (sz + kmalloc_align k))"
proof -
  from p have sz: "0 < sz" "sz < PAGE_SIZE - kmalloc_align k" and pm: "p = 2 * m + kmalloc_align k"
    by (auto simp: kmalloced_def)
  note u = kmalloc_units [OF k sz]
  have al: "0 < kmalloc_align k" using k by (auto simp: conf_ok_def)
  show "(p + i) div 2 \<in> span (m, SLOB_UNITS (sz + kmalloc_align k))" if "0 \<le> i" "i < sz"
  proof -
    have "p + i < 2 * m + 2 * SLOB_UNITS (sz + kmalloc_align k)" using that u(1) pm by linarith
    moreover have "2 * m \<le> p + i" using that al pm by linarith
    ultimately show ?thesis unfolding span_def by simp presburger
  qed
  show "x \<in> span (m, SLOB_UNITS (sz + kmalloc_align k))"
    if "2 * m div 2 \<le> x" "x \<le> (2 * m + 3) div 2" for x
    using that u(2) by (auto simp: span_def)
qed

lemma kmalloced_frame:
  assumes k: "conf_ok k" and p: "kmalloced k s L p m sz"
    and L': "(m, SLOB_UNITS (sz + kmalloc_align k)) \<in> L'"
    and eq: "\<And>x. x \<in> span (m, SLOB_UNITS (sz + kmalloc_align k)) \<Longrightarrow> s_mem s' x = s_mem s x"
  shows "kmalloced k s' L' p m sz"
    and "map (get_byte (s_mem s')) [p .. p + sz - 1] = map (get_byte (s_mem s)) [p .. p + sz - 1]"
proof -
  have "get_u32 (s_mem s') (2 * m) = get_u32 (s_mem s) (2 * m)"
    using kmalloced_span(2) [OF k p] eq by (intro get_u32_cong) blast
  then show "kmalloced k s' L' p m sz" using p L' by (simp add: kmalloced_def)
  have "get_byte (s_mem s') x = get_byte (s_mem s) x" if "p \<le> x" "x \<le> p + sz - 1" for x
    using kmalloced_span(1) [OF k p, of "x - p"] that eq by (intro get_byte_cong) simp
  then show "map (get_byte (s_mem s')) [p .. p + sz - 1] = map (get_byte (s_mem s)) [p .. p + sz - 1]"
    by simp
qed

text \<open>
  \<open>kinv k oth m0 s K\<close>: \<open>K\<close> are the objects from \<open>kmalloc\<close>, as (pointer, size). The blocks \<open>oth\<close> of
  other users of the allocator are live too and still hold \<open>m0\<close>.
\<close>

definition kblk :: "kconf \<Rightarrow> int \<times> int \<Rightarrow> int \<times> int" where
  "kblk k x = ((fst x - kmalloc_align k) div 2, SLOB_UNITS (snd x + kmalloc_align k))"

definition kinv :: "kconf \<Rightarrow> (int \<times> int) set \<Rightarrow> mem \<Rightarrow> slob \<Rightarrow> (int \<times> int) set \<Rightarrow> bool" where
  "kinv k oth m0 s K \<longleftrightarrow>
     conf_ok k \<and> pages_ok k \<and> slob_inv s (kblk k ` K \<union> oth) \<and> inj_on (kblk k) K \<and> kblk k ` K \<inter> oth = {} \<and>
     (\<forall>x \<in> K. kmalloced k s (kblk k ` K \<union> oth) (fst x) (fst (kblk k x)) (snd x)) \<and>
     (\<forall>x \<in> live_units oth. s_mem s x = m0 x)"

definition kbytes :: "slob \<Rightarrow> int \<times> int \<Rightarrow> 8 word list" where
  "kbytes s x = map (get_byte (s_mem s)) [fst x .. fst x + snd x - 1]"

definition kreq_ok :: "kconf \<Rightarrow> int \<Rightarrow> bool" where
  "kreq_ok k sz \<longleftrightarrow> 0 < sz \<and> sz < PAGE_SIZE - kmalloc_align k"

lemma live_units_mono: "x \<in> L \<Longrightarrow> span x \<subseteq> live_units L"
  by (auto simp: live_units_def)

lemma kinv_frame:
  assumes inv: "kinv k oth m0 s K" and K': "K' \<subseteq> K"
    and eq: "\<forall>a \<in> live_units (kblk k ` K' \<union> oth). s_mem s' a = s_mem s a"
    and L': "kblk k ` K' \<subseteq> L'" and x: "x \<in> K'"
  shows "kmalloced k s' L' (fst x) (fst (kblk k x)) (snd x)" and "kbytes s' x = kbytes s x"
proof -
  let ?u = "SLOB_UNITS (snd x + kmalloc_align k)"
  from inv x K' have k: "conf_ok k"
    and p: "kmalloced k s (kblk k ` K \<union> oth) (fst x) (fst (kblk k x)) (snd x)" by (auto simp: kinv_def)
  have b: "kblk k x = (fst (kblk k x), ?u)" by (simp add: kblk_def)
  have in_L': "(fst (kblk k x), ?u) \<in> L'" using L' x b by (metis image_subset_iff)
  have "span (kblk k x) \<subseteq> live_units (kblk k ` K' \<union> oth)" using x by (intro live_units_mono) simp
  then have "s_mem s' a = s_mem s a" if "a \<in> span (fst (kblk k x), ?u)" for a
    using that eq b by (metis subsetD)
  from kmalloced_frame [OF k p in_L' this]
  show "kmalloced k s' L' (fst x) (fst (kblk k x)) (snd x)" and "kbytes s' x = kbytes s x"
    by (simp_all add: kbytes_def)
qed

lemma kinv_alloc:
  assumes inv: "kinv k oth m0 s K" and n: "kreq_ok k n"
  shows "do_kmalloc_node k s n flags node = Inr (s, None) \<or>
    (\<exists>s' p. do_kmalloc_node k s n flags node = Inr (s', Some p) \<and> (p, n) \<notin> K \<and>
      kinv k oth m0 s' (insert (p, n) K) \<and> (\<forall>b \<in> K. kbytes s' b = kbytes s b))"
proof -
  let ?L = "kblk k ` K \<union> oth" and ?al = "kmalloc_align k" and ?u = "SLOB_UNITS (n + kmalloc_align k)"
  from inv have k: "conf_ok k" "pages_ok k" "slob_inv s ?L" "inj_on (kblk k) K" "kblk k ` K \<inter> oth = {}"
    and oth: "\<forall>x \<in> live_units oth. s_mem s x = m0 x" by (auto simp: kinv_def)
  from n have sz: "0 < n" "n < PAGE_SIZE - ?al" by (auto simp: kreq_ok_def)
  consider "do_kmalloc_node k s n flags node = Inr (s, None)"
    | s' m where "do_kmalloc_node k s n flags node = Inr (s', Some (2 * m + ?al))" "(m, ?u) \<notin> ?L"
      "slob_inv s' (insert (m, ?u) ?L)" "kmalloced k s' (insert (m, ?u) ?L) (2 * m + ?al) m n"
      "\<forall>x \<in> live_units ?L. s_mem s' x = s_mem s x"
    using kmalloc_small [OF k(3,1) sz _ refl, of flags node] k(2) unfolding pages_ok_def by blast
  then show ?thesis
  proof cases
    case 2
    let ?x = "(2 * m + ?al, n)" and ?K = "insert (2 * m + ?al, n) K"
    have b: "kblk k ?x = (m, ?u)" by (simp add: kblk_def)
    have L: "kblk k ` ?K \<union> oth = insert (m, ?u) ?L" by (simp add: b)
    have "?x \<notin> K" using 2(2) b by (metis UnI1 imageI)
    moreover have "inj_on (kblk k) ?K" "kblk k ` ?K \<inter> oth = {}" using k(4,5) b 2(2) by auto
    moreover have "\<forall>x \<in> live_units oth. s_mem s' x = m0 x" using oth 2(5) by (auto simp: live_units_def)
    moreover have "\<forall>x \<in> ?K. kmalloced k s' (insert (m, ?u) ?L) (fst x) (fst (kblk k x)) (snd x)"
      using kinv_frame(1) [OF inv subset_refl 2(5), of "insert (m, ?u) ?L"] 2(4) b by auto
    ultimately have "kinv k oth m0 s' ?K" using k 2(3) unfolding kinv_def L by simp
    moreover have "\<forall>b \<in> K. kbytes s' b = kbytes s b" using kinv_frame(2) [OF inv subset_refl 2(5)] by blast
    ultimately show ?thesis using 2(1) \<open>?x \<notin> K\<close> by blast
  qed simp
qed

lemma kinv_free:
  assumes inv: "kinv k oth m0 s K" and x: "x \<in> K"
  shows "\<exists>s'. kfree k s (fst x) = Inr s' \<and> kinv k oth m0 s' (K - {x}) \<and>
    (\<forall>b \<in> K - {x}. kbytes s' b = kbytes s b)"
proof -
  let ?L = "kblk k ` K \<union> oth" and ?K = "K - {x}"
  from inv have k: "conf_ok k" "pages_ok k" "slob_inv s ?L" "inj_on (kblk k) K" "kblk k ` K \<inter> oth = {}"
    and oth: "\<forall>x \<in> live_units oth. s_mem s x = m0 x"
    and p: "kmalloced k s ?L (fst x) (fst (kblk k x)) (snd x)" using x by (auto simp: kinv_def)
  obtain s' where s': "kfree k s (fst x) = Inr s'" "free_post s (?L - {kblk k x}) s'"
    using kfree_kmalloced [OF k(3,1) p] by (auto simp: kblk_def)
  have im: "kblk k ` ?K = kblk k ` K - {kblk k x}" using k(4) x by (auto simp: inj_on_def)
  have L: "?L - {kblk k x} = kblk k ` ?K \<union> oth" using im k(5) x by auto
  from s'(2) have fr: "\<forall>a \<in> live_units (kblk k ` ?K \<union> oth). s_mem s' a = s_mem s a"
    and inv': "slob_inv s' (kblk k ` ?K \<union> oth)" unfolding L by (auto simp: free_post_def)
  note kf = kinv_frame [OF inv _ fr, of "kblk k ` ?K \<union> oth"]
  have "inj_on (kblk k) ?K" "kblk k ` ?K \<inter> oth = {}" using k(4,5) by (auto simp: inj_on_diff)
  moreover have "\<forall>x \<in> live_units oth. s_mem s' x = m0 x" using oth fr by (auto simp: live_units_def)
  moreover have "\<forall>x \<in> ?K. kmalloced k s' (kblk k ` ?K \<union> oth) (fst x) (fst (kblk k x)) (snd x)"
    using kf(1) by blast
  ultimately have "kinv k oth m0 s' ?K" using k inv' unfolding kinv_def by blast
  moreover have "\<forall>b \<in> ?K. kbytes s' b = kbytes s b" using kf(2) by blast
  ultimately show ?thesis using s'(1) by blast
qed

interpretation kmalloc_store: allocator
  "kinv k oth m0" "\<lambda>s n. do_kmalloc_node k s n flags node" "\<lambda>s p n. kfree k s p"
  "\<lambda>x. x" kbytes "kreq_ok k"
  for k oth m0 flags node
proof
  fix s K n assume "kinv k oth m0 s K" and "kreq_ok k n"
  from kinv_alloc [OF this, of flags node] show "do_kmalloc_node k s n flags node = Inr (s, None) \<or>
    (\<exists>s' p. do_kmalloc_node k s n flags node = Inr (s', Some p) \<and> (p, n) \<notin> K \<and>
      kinv k oth m0 s' (insert (p, n) K) \<and> (\<forall>b \<in> K. kbytes s' b = kbytes s b))" .
next
  fix s K n p assume "kinv k oth m0 s K" and "(p, n) \<in> K"
  from kinv_free [OF this] show "\<exists>s'. kfree k s p = Inr s' \<and> kinv k oth m0 s' (K - {(p, n)}) \<and>
    (\<forall>b \<in> K - {(p, n)}. kbytes s' b = kbytes s b)" by simp
qed

end
