(* ===== verification/Slob_Cache.thy ===== *)
theory Slob_Cache
  imports Slob_Kmalloc
begin

text \<open>
  Object caches, \<open>assignments/a4/slob.c\<close>, lines 554-654, with the delayed free of
  \<open>SLAB_DESTROY_BY_RCU\<close> caches. Objects are byte addresses, as in \<open>kmalloc\<close>. The constructor of a
  cache belongs to its user and is a parameter; \<open>call_rcu\<close> is the RCU core's: it queues the
  head, and may write the two words of the \<open>rcu_head\<close> inside the object.
\<close>

unbundle bit_operations_syntax

subsection \<open>Object caches\<close>

text \<open>\<open>struct kmem_cache\<close>, with the constructor as its effect on the memory.\<close>

record kmem_cache =
  c_size :: int
  c_align :: int
  c_flags :: "32 word"
  c_ctor :: "(mem \<Rightarrow> int \<Rightarrow> mem) option"

text \<open>\<open>sizeof(struct slob_rcu)\<close>: an \<open>rcu_head\<close> (two pointers) and an \<open>int\<close>, on 32 bits.\<close>

definition sizeof_slob_rcu :: int where "sizeof_slob_rcu = 12"

definition offsetof_rcu_size :: int where "offsetof_rcu_size = 8"

definition kmem_cache_create :: "kconf \<Rightarrow> kmem_cache \<Rightarrow> 32 word \<Rightarrow> kmem_cache \<times> int" where
  "kmem_cache_create k c flags =
     ((if flags AND SLAB_DESTROY_BY_RCU k \<noteq> 0
       then c\<lparr>c_size := c_size c + sizeof_slob_rcu\<rparr> else c)\<lparr>c_flags := flags\<rparr>, 0)"

definition slob_alloc_node :: "kconf \<Rightarrow> slob \<Rightarrow> kmem_cache \<Rightarrow> 32 word \<Rightarrow> int \<Rightarrow> (slob \<times> int option) result" where
  "slob_alloc_node k s c flags0 node =
     (let flags = flags0 AND gfp_allowed_mask k;
          r = (if c_size c < PAGE_SIZE
               then (case slob_alloc k s (c_size c) flags (c_align c) node of
                       Inl f \<Rightarrow> Inl f
                     | Inr (s', b) \<Rightarrow> Inr (s', map_option (\<lambda>u. SLOB_UNIT * u) b))
               else Inr (s, map_option (\<lambda>p. PAGE_SIZE * p)
                              (slob_new_pages k s flags (get_order k (c_size c)) node)))
      in case r of
           Inl f \<Rightarrow> Inl f
         | Inr (s', None) \<Rightarrow> Inr (s', None)
         | Inr (s', Some b) \<Rightarrow>
             (case c_ctor c of
                None \<Rightarrow> Inr (s', Some b)
              | Some ctor \<Rightarrow> Inr (s'\<lparr>s_mem := ctor (s_mem s') b\<rparr>, Some b)))"

definition kmem_cache_alloc :: "kconf \<Rightarrow> slob \<Rightarrow> kmem_cache \<Rightarrow> 32 word \<Rightarrow> (slob \<times> int option) result" where
  "kmem_cache_alloc k s c flags = slob_alloc_node k s c flags NUMA_NO_NODE"

definition kmem_cache_alloc_node ::
  "kconf \<Rightarrow> slob \<Rightarrow> kmem_cache \<Rightarrow> 32 word \<Rightarrow> int \<Rightarrow> (slob \<times> int option) result" where
  "kmem_cache_alloc_node k s c flags node = slob_alloc_node k s c flags node"

definition do_kmem_cache_free :: "kconf \<Rightarrow> slob \<Rightarrow> int \<Rightarrow> int \<Rightarrow> slob result" where
  "do_kmem_cache_free k s b sz =
     (if ulong sz < PAGE_SIZE then slob_free s b sz
      else Inr (slob_free_pages s (b div SLOB_UNIT) (get_order k sz)))"

definition kmem_rcu_free :: "kconf \<Rightarrow> slob \<Rightarrow> int \<Rightarrow> slob result" where
  "kmem_rcu_free k s head =
     (let sz = sint (get_u32 (s_mem s) (head + offsetof_rcu_size));
          b = head - (sz - sizeof_slob_rcu)
      in do_kmem_cache_free k s b sz)"

definition kmem_cache_free :: "kconf \<Rightarrow> slob \<Rightarrow> kmem_cache \<Rightarrow> int \<Rightarrow> slob result" where
  "kmem_cache_free k s c b =
     (if c_flags c AND SLAB_DESTROY_BY_RCU k \<noteq> 0 then
        (let head = b + (c_size c - sizeof_slob_rcu) in
         Inr (s\<lparr>s_mem := put_u32 (s_mem s) (head + offsetof_rcu_size) (word_of_int (c_size c)),
                s_rcu := head # s_rcu s\<rparr>))
      else do_kmem_cache_free k s b (c_size c))"

text \<open>The RCU core runs a pending callback: it is taken off the queue and \<open>kmem_rcu_free\<close> is called.\<close>

definition run_rcu :: "kconf \<Rightarrow> slob \<Rightarrow> int \<Rightarrow> slob result" where
  "run_rcu k s head = kmem_rcu_free k (s\<lparr>s_rcu := remove1 head (s_rcu s)\<rparr>) head"

definition kmem_cache_shutdown :: "kmem_cache \<Rightarrow> int" where "kmem_cache_shutdown c = 0"

definition kmem_cache_shrink :: "kmem_cache \<Rightarrow> int" where "kmem_cache_shrink c = 0"

subsection \<open>Boot\<close>

text \<open>
  Lines 656 to 672. \<open>sizeof(struct kmem_cache)\<close> and \<open>SLAB_PANIC\<close> come from headers, and so does
  the state before \<open>kmem_cache_init\<close>; \<open>slab_state\<close> and \<open>kmem_cache\<close> are shared with the rest of the kernel.
\<close>

datatype slab_state = DOWN | UP | FULL

record slab_globals =
  kmem_cache_var :: "kmem_cache option"
  slab_state_var :: slab_state

definition kmem_cache_boot :: "kconf \<Rightarrow> int \<Rightarrow> 32 word \<Rightarrow> kmem_cache" where
  "kmem_cache_boot k sizeof_cache SLAB_PANIC =
     \<lparr>c_size = sizeof_cache, c_align = ARCH_KMALLOC_MINALIGN k, c_flags = SLAB_PANIC, c_ctor = None\<rparr>"

definition kmem_cache_init :: "kmem_cache \<Rightarrow> slab_globals \<Rightarrow> slab_globals" where
  "kmem_cache_init boot g = g\<lparr>kmem_cache_var := Some boot, slab_state_var := UP\<rparr>"

definition kmem_cache_init_late :: "slab_globals \<Rightarrow> slab_globals" where
  "kmem_cache_init_late g = g\<lparr>slab_state_var := FULL\<rparr>"

subsection \<open>Caches as an allocator\<close>

text \<open>
  A constructor writes inside its object only.
\<close>

definition ctor_ok :: "kmem_cache \<Rightarrow> bool" where
  "ctor_ok c \<longleftrightarrow>
     (\<forall>f m a x. c_ctor c = Some f \<longrightarrow> x \<notin> {a ..< a + SLOB_UNITS (c_size c)} \<longrightarrow> f m (2 * a) x = m x)"

text \<open>A cache whose objects come from slob pages and are freed at once.\<close>

definition cache_ok :: "kconf \<Rightarrow> kmem_cache \<Rightarrow> bool" where
  "cache_ok k c \<longleftrightarrow>
     0 < c_size c \<and> c_size c < PAGE_SIZE \<and> align_ok (c_align c) \<and> c_align c \<le> PAGE_SIZE \<and> ctor_ok c"

lemma slob_alloc_node_wf:
  assumes inv: "slob_inv s L" and c: "cache_ok k c" and fresh: "fresh_pages k s"
  shows "slob_alloc_node k s c flags node = Inr (s, None) \<or>
    (\<exists>s' a. slob_alloc_node k s c flags node = Inr (s', Some (2 * a)) \<and>
       alloc_post s L (SLOB_UNITS (c_size c)) (c_align c) s' a \<and> s_pages s' = of_nat (card (slabs s')))"
proof -
  let ?f = "flags AND gfp_allowed_mask k" and ?u = "SLOB_UNITS (c_size c)"
  from c have sz: "0 < c_size c" "c_size c \<le> PAGE_SIZE" "align_ok (c_align c)" "c_align c \<le> PAGE_SIZE"
    "c_size c < PAGE_SIZE" by (auto simp: cache_ok_def)
  consider "slob_alloc k s (c_size c) ?f (c_align c) node = Inr (s, None)"
    | (got) s' a where "slob_alloc k s (c_size c) ?f (c_align c) node = Inr (s', Some a)"
      "alloc_post s L ?u (c_align c) s' a" "s_pages s' = of_nat (card (slabs s'))"
    using slob_alloc_search [OF inv sz(1-4) fresh refl, of ?f node] by blast
  then show ?thesis
  proof cases
    case 1
    then show ?thesis using sz by (simp add: slob_alloc_node_def Let_def)
  next
    case got
    show ?thesis
    proof (cases "c_ctor c")
      case None
      then show ?thesis using got sz by (auto simp: slob_alloc_node_def SLOB_UNIT_def Let_def)
    next
      case (Some f)
      have "alloc_post s L ?u (c_align c) (s'\<lparr>s_mem := f (s_mem s') (2 * a)\<rparr>) a"
        using c Some by (intro alloc_post_mem [OF got(2)]) (auto simp: cache_ok_def ctor_ok_def)
      then show ?thesis using got sz Some
        by (auto simp: slob_alloc_node_def SLOB_UNIT_def Let_def slabs_def)
    qed
  qed
qed

lemma do_kmem_cache_free_wf:
  assumes "slob_inv s L" and "(b, SLOB_UNITS sz) \<in> L" and "0 < sz" and "sz < PAGE_SIZE"
  shows "\<exists>s'. do_kmem_cache_free k s (2 * b) sz = Inr s' \<and> free_post s (L - {(b, SLOB_UNITS sz)}) s'"
  using slob_free_wf [OF assms(1,2)] assms(3,4) by (simp add: do_kmem_cache_free_def PAGE_SIZE_def c_int)

definition no_rcu :: "kconf \<Rightarrow> kmem_cache \<Rightarrow> bool" where
  "no_rcu k c \<longleftrightarrow> c_flags c AND SLAB_DESTROY_BY_RCU k = 0"

lemma boot_cache_ok:
  assumes "0 < sz" and "sz < PAGE_SIZE" and "align_ok (ARCH_KMALLOC_MINALIGN k)" and "ARCH_KMALLOC_MINALIGN k \<le> PAGE_SIZE"
    and "panic AND SLAB_DESTROY_BY_RCU k = 0"
    and "kmem_cache_var (kmem_cache_init_late (kmem_cache_init (kmem_cache_boot k sz panic) g)) = Some c"
  shows "cache_ok k c \<and> no_rcu k c"
  using assms
  by (auto simp: kmem_cache_init_def kmem_cache_init_late_def kmem_cache_boot_def cache_ok_def ctor_ok_def no_rcu_def)

text \<open>Live objects by byte address, as the callers see them.\<close>

definition by_byte :: "int \<times> int \<Rightarrow> int \<times> int" where
  "by_byte x = (2 * fst x, snd x)"

lemma inj_by_byte: "inj by_byte"
  by (rule injI) (auto simp: by_byte_def prod_eq_iff)

lemmas by_byte_image = inj_image_mem_iff [OF inj_by_byte] image_set_diff [OF inj_by_byte] image_insert [of by_byte]

definition cinv :: "kconf \<Rightarrow> slob \<Rightarrow> (int \<times> int) set \<Rightarrow> bool" where
  "cinv k s K \<longleftrightarrow> (\<exists>L. slob_inv s L \<and> K = by_byte ` L) \<and> pages_ok k"

definition object_units :: "slob \<Rightarrow> int \<times> int \<Rightarrow> 16 word list" where
  "object_units s x = block_units s (fst x div 2, snd x)"

lemma object_units_by_byte [simp]: "object_units s (by_byte x) = block_units s x"
  by (simp add: object_units_def by_byte_def)

definition object :: "int \<times> kmem_cache \<Rightarrow> int \<times> int" where
  "object x = (fst x, SLOB_UNITS (c_size (snd x)))"

lemma object_by_byte: "object (2 * a, c) = by_byte (a, SLOB_UNITS (c_size c))"
  by (simp add: object_def by_byte_def)

interpretation cache_store: allocator "cinv k" "\<lambda>s c. slob_alloc_node k s c flags node"
  "\<lambda>s p c. kmem_cache_free k s c p" object object_units "\<lambda>c. cache_ok k c \<and> no_rcu k c"
  for k flags node
proof
  fix s :: slob and K and c :: kmem_cache
  assume "cinv k s K" and c: "cache_ok k c \<and> no_rcu k c"
  then obtain L where inv: "slob_inv s L" "pages_ok k" "fresh_pages k s" and K: "K = by_byte ` L"
    by (auto simp: cinv_def pages_ok_def)
  from c have u: "1 \<le> SLOB_UNITS (c_size c)" by (intro SLOB_UNITS_pos) (auto simp: cache_ok_def)
  from slob_alloc_node_wf [OF inv(1) _ inv(3), of c flags node] c consider
    "slob_alloc_node k s c flags node = Inr (s, None)"
  | s' a where "slob_alloc_node k s c flags node = Inr (s', Some (2 * a))"
      "alloc_post s L (SLOB_UNITS (c_size c)) (c_align c) s' a" "s_pages s' = of_nat (card (slabs s'))" by blast
  then show "slob_alloc_node k s c flags node = Inr (s, None) \<or>
    (\<exists>s' p. slob_alloc_node k s c flags node = Inr (s', Some p) \<and> object (p, c) \<notin> K \<and>
      cinv k s' (insert (object (p, c)) K) \<and> (\<forall>b \<in> K. object_units s' b = object_units s b))"
  proof cases
    case 2
    let ?b = "(a, SLOB_UNITS (c_size c))"
    from alloc_post_new [OF 2(2) u] have "?b \<notin> L" by simp
    moreover have "slob_inv s' (insert ?b L)" using 2(2,3) by (simp add: slob_inv_def alloc_post_def)
    then have "cinv k s' (insert (by_byte ?b) K)" using inv(2) by (auto simp: cinv_def K intro!: exI [of _ "insert ?b L"])
    moreover have "\<forall>x \<in> L. block_units s' x = block_units s x"
      using 2(2) by (auto simp: alloc_post_def intro: block_units_eq)
    ultimately show ?thesis using 2(1) by (auto simp: object_by_byte by_byte_image K)
  qed simp
next
  fix s :: slob and K p and c :: kmem_cache
  assume "cinv k s K" and c: "cache_ok k c \<and> no_rcu k c" and "object (p, c) \<in> K"
  then obtain L b where inv: "slob_inv s L" "pages_ok k" and K: "K = by_byte ` L"
    and b: "p = 2 * b" "(b, SLOB_UNITS (c_size c)) \<in> L"
    by (auto simp: cinv_def object_def by_byte_def image_iff)
  let ?b = "(b, SLOB_UNITS (c_size c))"
  from do_kmem_cache_free_wf [OF inv(1) b(2), of k] c obtain s' where
    s': "kmem_cache_free k s c p = Inr s'" "free_post s (L - {?b}) s'"
    by (auto simp: cache_ok_def no_rcu_def kmem_cache_free_def b(1))
  have "by_byte ` (L - {?b}) = K - {object (p, c)}" by (auto simp: K by_byte_image b(1) object_by_byte)
  moreover have "\<forall>x \<in> L - {?b}. block_units s' x = block_units s x"
    using s'(2) block_units_eq [of _ "L - {?b}" s' s] by (auto simp: free_post_def)
  moreover have "cinv k s' (by_byte ` (L - {?b}))" using s'(2) inv(2) by (auto simp: cinv_def free_post_def)
  ultimately show "\<exists>s'. kmem_cache_free k s c p = Inr s' \<and> cinv k s' (K - {object (p, c)}) \<and>
      (\<forall>b \<in> K - {object (p, c)}. object_units s' b = object_units s b)"
    using s'(1) by (metis (no_types, lifting) imageE object_units_by_byte)
qed

subsection \<open>Delayed free\<close>

lemma slob_inv_rcu [simp]: "slob_inv (s\<lparr>s_rcu := q\<rparr>) L = slob_inv s L"
  by (simp add: slob_inv_def slob_wf_def slabs_def page_ok_def page_repr_def lists_ok_def live_ok_def)

lemma get_byte_put_u32:
  assumes "x < a \<or> a + 3 < x" shows "get_byte (put_u32 m a v) x = get_byte m x"
  using assms by (auto simp: put_u32_def get_put_byte)

text \<open>The RCU footer lies inside the object, so writing its size field keeps every other byte.\<close>

lemma rcu_footer_units:
  assumes "sizeof_slob_rcu \<le> sz" and "x \<notin> {b ..< b + SLOB_UNITS sz}" and "sz < PAGE_SIZE"
  shows "put_u32 m (2 * b + (sz - sizeof_slob_rcu) + offsetof_rcu_size) v x = m x"
proof (rule put_u32_frame)
  have "SLOB_UNITS sz = (sz + 1) div 2" using assms by (simp add: SLOB_UNITS_eq PAGE_SIZE_def sizeof_slob_rcu_def)
  then show "x < (2 * b + (sz - sizeof_slob_rcu) + offsetof_rcu_size) div 2 \<or>
    (2 * b + (sz - sizeof_slob_rcu) + offsetof_rcu_size + 3) div 2 < x"
    using assms(1,2) by (auto simp: sizeof_slob_rcu_def offsetof_rcu_size_def)
qed

lemma kmem_cache_free_rcu:
  assumes inv: "slob_inv s L" and rcu: "\<not> no_rcu k c" and bu: "(b, SLOB_UNITS (c_size c)) \<in> L"
    and sz: "sizeof_slob_rcu \<le> c_size c" "c_size c < PAGE_SIZE"
    and head: "head = 2 * b + (c_size c - sizeof_slob_rcu)"
  shows "\<exists>s'. kmem_cache_free k s c (2 * b) = Inr s' \<and> slob_inv s' L \<and> s_rcu s' = head # s_rcu s \<and>
    get_u32 (s_mem s') (head + offsetof_rcu_size) = word_of_int (c_size c) \<and>
    (\<forall>x. x < head \<or> head + sizeof_slob_rcu \<le> x \<longrightarrow> get_byte (s_mem s') x = get_byte (s_mem s) x)"
proof -
  define m where "m = put_u32 (s_mem s) (head + offsetof_rcu_size) (word_of_int (c_size c))"
  have code: "kmem_cache_free k s c (2 * b) = Inr (s\<lparr>s_mem := m, s_rcu := head # s_rcu s\<rparr>)"
    using rcu by (simp add: kmem_cache_free_def no_rcu_def m_def head Let_def)
  have fr: "m x = s_mem s x" if "x \<notin> live_units L" for x
  proof -
    have "x \<notin> {b ..< b + SLOB_UNITS (c_size c)}" using that bu by (force simp: live_units_def span_def)
    then show ?thesis using rcu_footer_units [OF sz(1) _ sz(2)] by (simp add: m_def head)
  qed
  have "slob_wf (s\<lparr>s_mem := m\<rparr>) L" using inv fr by (intro slob_wf_mem) (auto simp: slob_inv_def)
  then have "slob_inv (s\<lparr>s_mem := m\<rparr>) L" using inv by (simp add: slob_inv_def slabs_def)
  then have "slob_inv (s\<lparr>s_mem := m, s_rcu := head # s_rcu s\<rparr>) L"
    by simp
  moreover have "get_byte m x = get_byte (s_mem s) x" if "x < head \<or> head + sizeof_slob_rcu \<le> x" for x
    using that unfolding m_def
    by (intro get_byte_put_u32) (auto simp: sizeof_slob_rcu_def offsetof_rcu_size_def)
  ultimately show ?thesis using code by (auto simp: m_def get_put_u32)
qed

lemma run_rcu_wf:
  assumes inv: "slob_inv t L" and bu: "(b, SLOB_UNITS sz) \<in> L"
    and sz: "sizeof_slob_rcu \<le> sz" "sz < PAGE_SIZE" and head: "head = 2 * b + (sz - sizeof_slob_rcu)"
    and stored: "get_u32 (s_mem t) (head + offsetof_rcu_size) = word_of_int sz"
  shows "\<exists>t'. run_rcu k t head = Inr t' \<and> slob_inv t' (L - {(b, SLOB_UNITS sz)}) \<and>
    (\<forall>x \<in> live_units (L - {(b, SLOB_UNITS sz)}). s_mem t' x = s_mem t x)"
proof -
  let ?t = "t\<lparr>s_rcu := remove1 head (s_rcu t)\<rparr>"
  have "sint (word_of_int sz :: 32 word) = sz"
    using sz by (simp add: sint_sbintrunc' signed_take_bit_int_eq_self sizeof_slob_rcu_def PAGE_SIZE_def)
  then have "run_rcu k t head = do_kmem_cache_free k ?t (2 * b) sz"
    using stored head by (simp add: run_rcu_def kmem_rcu_free_def Let_def)
  moreover have "slob_inv ?t L" using inv by simp
  from do_kmem_cache_free_wf [OF this bu, of k] sz obtain t' where
    "do_kmem_cache_free k ?t (2 * b) sz = Inr t'" "free_post ?t (L - {(b, SLOB_UNITS sz)}) t'"
    by (auto simp: sizeof_slob_rcu_def)
  ultimately show ?thesis by (auto simp: free_post_def)
qed

end
