(* ===== verification/Slob_Stats.thy ===== *)
theory Slob_Stats
  imports Slob_Release
begin

text \<open>
  The statistics of \<open>assignments/a4/slob.c\<close>, lines 674-716: \<open>free_units\<close> and the two system calls.
\<close>

definition sum_list_units :: "slob \<Rightarrow> 32 word \<Rightarrow> int list \<Rightarrow> 32 word" where
  "sum_list_units s t0 sps = foldl (\<lambda>t sp. t + word_of_int (pg_units (s_pg s sp))) t0 sps"

definition free_units :: "slob \<Rightarrow> 32 word" where
  "free_units s =
     (let t1 = sum_list_units s 0 (s_list s Small);
          t2 = sum_list_units s t1 (s_list s Medium)
      in sum_list_units s t2 (s_list s Large))"

definition sys_slob_units_used :: "slob \<Rightarrow> int" where
  "sys_slob_units_used s = sint (word_of_int (SLOB_UNITS PAGE_SIZE) * s_pages s - free_units s)"

definition sys_slob_units_free :: "slob \<Rightarrow> int" where
  "sys_slob_units_free s = sint (free_units s)"

subsection \<open>The counts are exact\<close>

lemma sum_list_units_eq:
  "sum_list_units s t sps = t + word_of_int (\<Sum>sp \<leftarrow> sps. pg_units (s_pg s sp))"
  unfolding sum_list_units_def by (induction sps arbitrary: t) (simp_all add: add.assoc)

lemma free_units_lists:
  "free_units s = word_of_int (\<Sum>sp \<leftarrow> s_list s Small @ s_list s Medium @ s_list s Large. pg_units (s_pg s sp))"
  by (simp add: free_units_def sum_list_units_eq Let_def add.assoc)

lemma full_page_units:
  assumes "slob_wf s L" and "p \<in> slabs s" and "\<not> pg_slobfree (s_pg s p)"
  shows "pg_units (s_pg s p) = 0"
  using slob_wf_page [OF assms(1,2)] assms(3) by (metis bsum_simps(1) page_repr_def)

lemma all_classes: "(\<exists>c. P c) \<longleftrightarrow> P Small \<or> P Medium \<or> P Large"
  by (simp only: enum_ex_slob_class_def flip: enum_ex)

lemma free_units_slabs:
  assumes wf: "slob_wf s L"
  shows "free_units s = word_of_int (\<Sum>p \<in> slabs s. pg_units (s_pg s p))"
proof -
  let ?xs = "s_list s Small @ s_list s Medium @ s_list s Large"
  have lists: "lists_ok s" using wf by (rule slob_wfD)
  then have d: "distinct ?xs" by (auto simp: lists_ok_def)
  have set: "set ?xs = {p. pg_slobfree (s_pg s p)}" using lists by (auto simp: lists_ok_def all_classes)
  have "(\<Sum>sp \<leftarrow> ?xs. pg_units (s_pg s sp)) = (\<Sum>p \<in> set ?xs. pg_units (s_pg s p))"
    using d by (rule sum_list_distinct_conv_sum_set)
  also have "\<dots> = (\<Sum>p \<in> slabs s. pg_units (s_pg s p))"
    unfolding set using wf full_page_units [OF wf] slob_wfD(3) [OF wf]
    by (intro sum.mono_neutral_left) (auto simp: slob_wf_def)
  finally show ?thesis by (simp only: free_units_lists)
qed

lemma slabs_bound:
  assumes wf: "slob_wf s L" shows "int (card (slabs s)) < 2 ^ 20 - 1"
proof -
  have "slabs s \<subseteq> {1 ..< 2 ^ 20 - 1}" using wf by (auto simp: slob_wf_def)
  then have "card (slabs s) \<le> card {1 ..< 2 ^ 20 - 1 :: int}" by (intro card_mono) auto
  then show ?thesis by simp
qed

lemma live_sum_bounds:
  assumes wf: "slob_wf s L"
  shows "0 \<le> (\<Sum>x \<in> L. snd x)" and "0 \<le> (\<Sum>p \<in> slabs s. pg_units (s_pg s p))"
proof -
  have "1 \<le> snd x" if "x \<in> L" for x
    using slob_wfD(1) [OF wf] that by (cases x) (auto simp: live_ok_def)
  then show "0 \<le> (\<Sum>x \<in> L. snd x)" by (intro sum_nonneg) force
  have "0 \<le> pg_units (s_pg s p)" if "p \<in> slabs s" for p
    using slob_wf_page [OF wf that] page_repr_ok bsum_nonneg by (metis page_repr_def)
  then show "0 \<le> (\<Sum>p \<in> slabs s. pg_units (s_pg s p))" by (intro sum_nonneg) auto
qed

lemma units_exact:
  assumes inv: "slob_inv s L"
  shows "sys_slob_units_used s = (\<Sum>x \<in> L. snd x)"
    and "sys_slob_units_free s = PU * int (card (slabs s)) - (\<Sum>x \<in> L. snd x)"
proof -
  from inv have wf: "slob_wf s L" and pages: "s_pages s = word_of_int (int (card (slabs s)))"
    by (auto simp: slob_inv_def)
  let ?used = "\<Sum>x \<in> L. snd x" and ?free = "\<Sum>p \<in> slabs s. pg_units (s_pg s p)"
  have sum: "?used + ?free = PU * int (card (slabs s))" using wf by (simp add: slob_wf_def)
  note b = live_sum_bounds [OF wf] slabs_bound [OF wf]
  have small: "sint (word_of_int x :: 32 word) = x" if "0 \<le> x" "x < 2 ^ 31" for x
    using that by (simp add: sint_sbintrunc' signed_take_bit_int_eq_self)
  have "word_of_int (SLOB_UNITS PAGE_SIZE) * s_pages s - free_units s = (word_of_int ?used :: 32 word)"
    unfolding pages free_units_slabs [OF wf]
    by (metis SLOB_UNITS_PAGE_SIZE add_diff_cancel_right' of_int_diff of_int_mult sum)
  moreover have "?used < 2 ^ 31" and lt: "?free < 2 ^ 31" using b sum by auto
  ultimately show "sys_slob_units_used s = ?used"
    unfolding sys_slob_units_used_def using b(1) small by metis
  have "sys_slob_units_free s = ?free"
    unfolding sys_slob_units_free_def free_units_slabs [OF wf] using b(2) lt by (rule small)
  then show "sys_slob_units_free s = PU * int (card (slabs s)) - ?used" using sum by simp
qed

end
