(* ===== verification/Slob_Bestfit.thy ===== *)
theory Slob_Bestfit
  imports Slob_Inv
begin

text \<open>
  What the page search of \<open>slob_alloc\<close> (\<open>assignments/a4/slob.c\<close>, lines 290-335) chooses. The scan
  looks at the first 50 pages of the list, up to the page of the outer loop, and picks the one
  with the fewest free units that still has enough of them. Enough free units do not mean a large
  enough block: the last lemma shows that one fragmented page can hide every other page of the list.
\<close>

subsection \<open>The scan is a minimum\<close>

text \<open>The pages the scan looks at.\<close>

definition scan_window :: "int \<Rightarrow> nat \<Rightarrow> int list \<Rightarrow> int list" where
  "scan_window cur i nodes = take i (takeWhile (\<lambda>q. q \<noteq> cur) nodes @ [cur])"

definition roomy :: "slob \<Rightarrow> int \<Rightarrow> int \<Rightarrow> bool" where
  "roomy s sz q \<longleftrightarrow> ulong (pg_units (s_pg s q)) \<ge> SLOB_UNITS sz"

lemma scan_window_Cons:
  "scan_window cur (Suc i) (q # nodes) = (if q = cur then [q] else q # scan_window cur i nodes)"
  by (simp add: scan_window_def)

lemma best_scan_least:
  assumes "cur \<in> set nodes" and "roomy s sz best"
  shows "\<exists>b. best_scan s sz cur i nodes best = Some b \<and> (b = best \<or> b \<in> set (scan_window cur i nodes)) \<and>
    roomy s sz b \<and> pg_units (s_pg s b) \<le> pg_units (s_pg s best) \<and>
    (\<forall>q \<in> set (scan_window cur i nodes). roomy s sz q \<longrightarrow> pg_units (s_pg s b) \<le> pg_units (s_pg s q))"
  using assms
proof (induction s sz cur i nodes best rule: best_scan.induct)
  case (1 s sz cur nodes best)
  then show ?case by (simp add: scan_window_def)
next
  case (3 s sz cur i q nodes best)
  define better where "better = (if roomy s sz q \<and> pg_units (s_pg s q) < pg_units (s_pg s best) then q else best)"
  have better: "roomy s sz better" "pg_units (s_pg s better) \<le> pg_units (s_pg s best)"
    "roomy s sz q \<longrightarrow> pg_units (s_pg s better) \<le> pg_units (s_pg s q)" "better = q \<or> better = best"
    using 3(3) by (auto simp: better_def)
  have code: "best_scan s sz cur (Suc i) (q # nodes) best =
      (if q = cur then Some better else best_scan s sz cur i nodes better)"
    by (simp add: better_def roomy_def Let_def)
  show ?case
  proof (cases "q = cur")
    case True
    then show ?thesis using better code by (auto simp: scan_window_Cons)
  next
    case False
    then have "cur \<in> set nodes" using 3(2) by simp
    with 3(1) [OF refl] False better(1) obtain b where
      "best_scan s sz cur i nodes better = Some b"
      "b = better \<or> b \<in> set (scan_window cur i nodes)" "roomy s sz b"
      "pg_units (s_pg s b) \<le> pg_units (s_pg s better)"
      "\<forall>q \<in> set (scan_window cur i nodes). roomy s sz q \<longrightarrow> pg_units (s_pg s b) \<le> pg_units (s_pg s q)"
      by (metis (no_types, lifting) better_def roomy_def)
    then show ?thesis using better code False by (auto simp: scan_window_Cons)
  qed
qed simp

text \<open>With at most 50 pages on the list, the scan from the last page sees all of them.\<close>

lemma scan_window_last:
  assumes "distinct xs" and "xs \<noteq> []" and "length xs \<le> i"
  shows "scan_window (last xs) i xs = xs"
proof -
  from assms(2) have xs: "xs = butlast xs @ [last xs]" by simp
  then have "last xs \<notin> set (butlast xs)" using assms(1) by (metis distinct_append disjoint_iff list.set_intros(1))
  then have "takeWhile (\<lambda>q. q \<noteq> last xs) (butlast xs @ [last xs]) = butlast xs"
    by (subst takeWhile_append2) auto
  then show ?thesis using xs assms(3) by (simp add: scan_window_def)
qed

subsection \<open>A fragmented page hides the rest of the list\<close>

lemma scan_window_first: "0 < i \<Longrightarrow> a \<in> set (scan_window cur i (a # rest))"
  by (cases i) (auto simp: scan_window_Cons)

lemma scan_window_subset: "cur \<in> set nodes \<Longrightarrow> set (scan_window cur i nodes) \<subseteq> set nodes"
  by (auto simp: scan_window_def dest!: in_set_takeD dest: set_takeWhileD)

lemma best_scan_first:
  assumes "roomy s sz a" and "\<forall>q \<in> set rest. pg_units (s_pg s a) < pg_units (s_pg s q)"
    and "cur \<in> set (a # rest)" and "roomy s sz cur" and "0 < i"
  shows "best_scan s sz cur i (a # rest) cur = Some a"
proof -
  obtain b where b: "best_scan s sz cur i (a # rest) cur = Some b"
    "b = cur \<or> b \<in> set (scan_window cur i (a # rest))"
    "\<forall>q \<in> set (scan_window cur i (a # rest)). roomy s sz q \<longrightarrow> pg_units (s_pg s b) \<le> pg_units (s_pg s q)"
    using best_scan_least [OF assms(3,4), of i] by blast
  have "b \<in> set (a # rest)" using b(2) scan_window_subset [OF assms(3), of i] assms(3) by blast
  moreover have "pg_units (s_pg s b) \<le> pg_units (s_pg s a)"
    using b(3) scan_window_first [OF assms(5)] assms(1) by blast
  ultimately show ?thesis using b(1) assms(2) by auto
qed

lemma slob_alloc_list_hidden:
  assumes roomy: "roomy s sz a" and least: "\<forall>q \<in> set rest. pg_units (s_pg s a) < pg_units (s_pg s q)"
    and l: "s_list s c = a # rest" and full: "slob_page_alloc s a sz al = Inr (s, None)"
    and todo: "set todo \<subseteq> set (a # rest)"
  shows "slob_alloc_list k s sz al node c todo = Inr (s, None)"
  using todo
proof (induction todo)
  case (Cons sp todo)
  then have "best_scan s sz sp 50 (s_list s c) sp = Some a" if "roomy s sz sp"
    using best_scan_first [OF roomy least _ that, of 50] l by auto
  then show ?case using Cons full by (auto simp: roomy_def)
qed simp

end
