(* ===== verification/Slob_Steps.thy ===== *)
theory Slob_Steps
  imports Slob_Cache Slob_Stats Slob_Bestfit
begin

text \<open>
  The allocator of \<open>assignments/a4/slob.c\<close> on several processors. A processor that runs \<open>slob_alloc\<close>
  searches the page lists under \<open>slob_lock\<close> (lines 288-336); when it finds nothing it gets a page from
  the page allocator and marks it, without the lock (lines 340-344), installs it under the lock (lines
  346-354), and only then, without the lock again, does \<open>pages++\<close> (line 355). A processor that runs
  \<open>slob_free\<close> works under the lock; if that empties the page, it gives the page back and does
  \<open>pages--\<close> after the unlock (lines 386-390). \<open>pages\<close> is a plain \<open>unsigned long\<close>, so that each of the two
  updates is a read and a write. Other processors may come in between any two of these steps. What the
  holders of live blocks write to them, the \<open>memset\<close> of line 358 included, is the step \<open>scribble\<close>.
\<close>

subsection \<open>Steps of a processor\<close>

definition slob_boot :: "slob \<times> (int \<times> int) set \<Rightarrow> bool" where
  "slob_boot x \<longleftrightarrow> snd x = {} \<and> s_pages (fst x) = 0 \<and> (\<forall>c. s_list (fst x) c = []) \<and>
     (\<forall>p. \<not> pg_slab (s_pg (fst x) p) \<and> \<not> pg_slobfree (s_pg (fst x) p))"

text \<open>
  Where a processor is: outside the allocator, or before the call of the page allocator for a request
  (size and alignment), before the section that installs the page it got, before it gives a page
  back, before it reads \<open>pages\<close> to add to it, or before it stores the sum.
\<close>

datatype todo =
    Idle
  | New_page int int
  | Install int int int
  | Give_back int
  | Load_pages "32 word"
  | Store_pages "32 word"

record smp =
  r_slob :: slob
  r_live :: "(int \<times> int) set"
  r_todo :: "nat \<Rightarrow> todo"

text \<open>
  The page that a processor holds on its own: marked as a slab page, on no list and with no block in
  it. Nothing but its mark is of interest, and the mark is kept here: \<open>pg_slab\<close> is the mark of
  the other pages.
\<close>

fun transit :: "todo \<Rightarrow> int set" where
  "transit (Install p sz al) = {p}"
| "transit (Give_back p) = {p}"
| "transit _ = {}"

definition slab_pages :: "smp \<Rightarrow> int set" where
  "slab_pages x = slabs (r_slob x) \<union> (\<Union>i. transit (r_todo x i))"

definition goes_to :: "nat \<Rightarrow> todo \<Rightarrow> smp \<Rightarrow> smp" where
  "goes_to i d x = x\<lparr>r_todo := (r_todo x)(i := d)\<rparr>"

text \<open>What a section leaves of \<open>s'\<close> for the steps after the unlock: the counter and the page allocator.\<close>

definition locked_part :: "slob \<Rightarrow> slob \<Rightarrow> slob" where
  "locked_part s s' = s'\<lparr>s_pages := s_pages s, s_reclaimed := s_reclaimed s, s_freed := s_freed s\<rparr>"

inductive smp_step :: "kconf \<Rightarrow> nat \<Rightarrow> smp \<Rightarrow> smp \<Rightarrow> bool"
  for k :: kconf and n :: nat where
  search: "i < n \<Longrightarrow> r_todo x i = Idle \<Longrightarrow> slob_req_ok (sz, al) \<Longrightarrow>
    slob_alloc_list k (r_slob x) sz al node (slob_list_for sz) (s_list (r_slob x) (slob_list_for sz)) = Inr (s', Some a) \<Longrightarrow>
    smp_step k n x (x\<lparr>r_slob := s', r_live := insert (a, SLOB_UNITS sz) (r_live x)\<rparr>)"
| search_fails: "i < n \<Longrightarrow> r_todo x i = Idle \<Longrightarrow> slob_req_ok (sz, al) \<Longrightarrow>
    slob_alloc_list k (r_slob x) sz al node (slob_list_for sz) (s_list (r_slob x) (slob_list_for sz)) = Inr (s', None) \<Longrightarrow>
    smp_step k n x (goes_to i (New_page sz al) (x\<lparr>r_slob := s'\<rparr>))"
| no_page: "i < n \<Longrightarrow> r_todo x i = New_page sz al \<Longrightarrow> smp_step k n x (goes_to i Idle x)"
| new_page: "i < n \<Longrightarrow> r_todo x i = New_page sz al \<Longrightarrow> p \<notin> slab_pages x \<Longrightarrow> 0 < p \<Longrightarrow> p < 2 ^ 20 - 1 \<Longrightarrow>
    smp_step k n x (goes_to i (Install p sz al) x)"
| install: "i < n \<Longrightarrow> r_todo x i = Install p sz al \<Longrightarrow>
    slob_alloc_new (r_slob x) sz al (slob_list_for sz) p = Inr (s', Some a) \<Longrightarrow>
    smp_step k n x (goes_to i (Load_pages 1)
      (x\<lparr>r_slob := locked_part (r_slob x) s', r_live := insert (a, SLOB_UNITS sz) (r_live x)\<rparr>))"
| release: "i < n \<Longrightarrow> r_todo x i = Idle \<Longrightarrow> (b, SLOB_UNITS sz) \<in> r_live x \<Longrightarrow> sz \<noteq> 0 \<Longrightarrow>
    slob_free (r_slob x) (2 * b) sz = Inr s' \<Longrightarrow>
    smp_step k n x (goes_to i (if pg_slab (s_pg s' (b div PU)) then Idle else Give_back (b div PU))
      (x\<lparr>r_slob := locked_part (r_slob x) s', r_live := r_live x - {(b, SLOB_UNITS sz)}\<rparr>))"
| give_back: "i < n \<Longrightarrow> r_todo x i = Give_back p \<Longrightarrow>
    smp_step k n x (goes_to i (Load_pages (- 1)) (x\<lparr>r_slob := slob_free_pages (r_slob x) (PU * p) 0\<rparr>))"
| load: "i < n \<Longrightarrow> r_todo x i = Load_pages d \<Longrightarrow>
    smp_step k n x (goes_to i (Store_pages (s_pages (r_slob x) + d)) x)"
| store: "i < n \<Longrightarrow> r_todo x i = Store_pages v \<Longrightarrow>
    smp_step k n x (goes_to i Idle (x\<lparr>r_slob := (r_slob x)\<lparr>s_pages := v\<rparr>\<rparr>))"
| scribble: "(\<And>y. y \<notin> live_units (r_live x) \<Longrightarrow> m y = s_mem (r_slob x) y) \<Longrightarrow>
    smp_step k n x (x\<lparr>r_slob := (r_slob x)\<lparr>s_mem := m\<rparr>\<rparr>)"

inductive_cases smp_stepE: "smp_step k n x y"

definition smp_boot :: "smp \<Rightarrow> bool" where
  "smp_boot x \<longleftrightarrow> slob_boot (r_slob x, r_live x) \<and> r_todo x = (\<lambda>_. Idle)"

abbreviation smp_reach :: "kconf \<Rightarrow> nat \<Rightarrow> smp \<Rightarrow> bool" where
  "smp_reach k n \<equiv> reach smp_boot (smp_step k n)"

subsection \<open>The critical sections\<close>

lemma slob_boot_inv: "slob_boot x \<Longrightarrow> slob_inv (fst x) (snd x)"
  by (auto simp: slob_boot_def slob_inv_def slob_wf_def slabs_def lists_ok_def live_ok_def)

lemma slob_search_section:
  assumes "slob_wf s L" and "slob_req_ok (sz, al)"
  shows "slob_alloc_list k s sz al node c (s_list s c) = Inr (s, None) \<or>
    (\<exists>s' a. slob_alloc_list k s sz al node c (s_list s c) = Inr (s', Some a) \<and>
       slob_wf s' (insert (a, SLOB_UNITS sz) L) \<and> slabs s' = slabs s \<and> s_pages s' = s_pages s)"
  using slob_alloc_list_wf [OF assms(1), of sz al "s_list s c" c k node] assms(2)
  by (auto simp: slob_req_ok_def alloc_post_def)

lemma slob_new_section:
  assumes "slob_wf s L" and "slob_req_ok (sz, al)" and "p \<notin> slabs s" "0 < p" "p < 2 ^ 20 - 1"
  shows "\<exists>s'. slob_alloc_new s sz al c p = Inr (s', Some (PU * p)) \<and>
    slob_wf s' (insert (PU * p, SLOB_UNITS sz) L) \<and> slabs s' = insert p (slabs s) \<and> s_pages s' = s_pages s + 1"
  using slob_alloc_new_wf [OF assms(1,3-5), of sz al c] assms(2)
  by (auto simp: slob_req_ok_def alloc_post_def)

lemma slob_grow_inv:
  assumes "slob_inv s L" and "slob_req_ok (sz, al)" and "p \<notin> slabs s" "0 < p" "p < 2 ^ 20 - 1"
  shows "\<exists>s'. slob_alloc_new s sz al c p = Inr (s', Some (PU * p)) \<and> slob_inv s' (insert (PU * p, SLOB_UNITS sz) L) \<and>
    slabs s' = insert p (slabs s)"
proof -
  from assms(1) have wf: "slob_wf s L" and "s_pages s = of_nat (card (slabs s))" by (auto simp: slob_inv_def)
  with slob_new_section [OF wf assms(2-5), of c] slob_wfD(3) [OF wf] assms(3) show ?thesis by (auto simp: slob_inv_def)
qed

subsection \<open>No idle page\<close>

text \<open>Every slab page holds a live block: a page is given back with its last block.\<close>

definition no_idle :: "slob \<Rightarrow> (int \<times> int) set \<Rightarrow> bool" where
  "no_idle s L \<longleftrightarrow> (\<forall>p \<in> slabs s. \<exists>x \<in> L. fst x div PU = p)"

lemma slob_free_slabs:
  assumes "slob_free s (2 * b) sz = Inr s'" and "\<not> ZERO_OR_NULL_PTR (2 * b)"
  shows "slabs s' =
    (if pg_units (s_pg s (b div PU)) + s16 (SLOB_UNITS sz) = PU then slabs s - {b div PU} else slabs s)"
  using assms by (auto simp: slob_free_def slob_free_pages_def slabs_def SLOB_UNIT_def Let_def
      split: if_splits option.splits prod.splits)

lemma only_block:
  assumes wf: "slob_wf s L" and bu: "(b, u) \<in> L" and only: "\<And>x. x \<in> L \<Longrightarrow> fst x div PU = b div PU \<Longrightarrow> x = (b, u)"
  shows "pg_units (s_pg s (b div PU)) + u = PU"
proof -
  let ?p = "b div PU" and ?P = "{page_base (b div PU) ..< page_end (b div PU)}"
  note live = slob_wfD(1) [OF wf] and adr = live_block_address [OF wf bu]
  obtain bs where r: "page_repr s ?p bs" and part: "bunits bs = ?P - live_units L"
    using slob_wf_page [OF wf adr(5)] by metis
  have "span x \<inter> ?P = {}" if "x \<in> L" "x \<noteq> (b, u)" for x
  proof -
    have "span x \<subseteq> {page_base (fst x div PU) ..< page_end (fst x div PU)}"
      unfolding span_def using live_in_page [OF live, of "fst x" "snd x"] that by (metis prod.collapse)
    moreover have "fst x div PU \<noteq> ?p" using that only by blast
    ultimately show ?thesis using page_units_disjoint [of "fst x div PU" ?p] by blast
  qed
  moreover have "span (b, u) \<subseteq> ?P" using live_in_page [OF live bu] by (simp add: span_def)
  ultimately have "live_units L \<inter> ?P = span (b, u)" using bu unfolding live_units_def by blast
  then have "live_units L \<inter> ?P = {b ..< b + u}" by (simp add: span_def)
  then have eq: "bunits bs = ?P - {b ..< b + u}" using part by blast
  have sub: "{b ..< b + u} \<subseteq> ?P" using live_in_page [OF live bu] .
  have "int (card ?P) = int (card (bunits bs)) + int (card {b ..< b + u})"
    unfolding eq using card_Diff_subset [of "{b ..< b + u}" ?P] card_mono [OF _ sub] sub
    by (simp add: of_nat_diff)
  moreover have "int (card (bunits bs)) = pg_units (s_pg s ?p)"
    using fl_ok_sum_card [OF page_repr_ok [OF r]] r by (simp add: page_repr_def)
  ultimately show ?thesis using adr(3) by simp
qed

lemma no_idle_release:
  assumes wf: "slob_wf s L" and idle: "no_idle s L" and bu: "(b, SLOB_UNITS sz) \<in> L"
    and free: "slob_free s (2 * b) sz = Inr s'"
  shows "no_idle s' (L - {(b, SLOB_UNITS sz)})"
proof -
  let ?u = "SLOB_UNITS sz" and ?p = "b div PU"
  note adr = live_block_address [OF wf bu]
  have "s16 ?u = ?u" using adr by (simp add: c_int)
  then have sl: "slabs s' = (if pg_units (s_pg s ?p) + ?u = PU then slabs s - {?p} else slabs s)"
    using slob_free_slabs [OF free adr(1)] by simp
  show ?thesis
    unfolding no_idle_def
  proof
    fix q assume q: "q \<in> slabs s'"
    then obtain x where x: "x \<in> L" "fst x div PU = q"
      using idle sl by (auto simp: no_idle_def split: if_splits)
    show "\<exists>x \<in> L - {(b, ?u)}. fst x div PU = q"
    proof (cases "q = ?p")
      case True
      then have "pg_units (s_pg s ?p) + ?u \<noteq> PU" using q sl by auto
      then obtain y where "y \<in> L" "fst y div PU = ?p" "y \<noteq> (b, ?u)" using only_block [OF wf bu] by blast
      then show ?thesis using True by blast
    next
      case False
      then show ?thesis using x by auto
    qed
  qed
qed

subsection \<open>The counter does not matter to the allocator\<close>

abbreviation page_count :: "slob \<Rightarrow> 32 word" where
  "page_count s \<equiv> of_nat (card (slabs s))"

lemma slob_free_pages_shift:
  assumes "slob_free s b sz = Inr s'"
  shows "slob_free (s\<lparr>s_pages := c\<rparr>) b sz = Inr (s'\<lparr>s_pages := c + (s_pages s' - s_pages s)\<rparr>)"
  using assms
  by (auto simp: slob_free_def slob_page_free_def clear_slob_page_free_def set_slob_page_free_def upd_page_def slob_free_pages_def Let_def
      split: if_splits option.splits)

lemma slob_free_total:
  assumes "slob_wf s L" and "(b, SLOB_UNITS sz) \<in> L" and "sz \<noteq> 0" shows "\<exists>s'. slob_free s (2 * b) sz = Inr s'"
proof -
  have "slob_inv (s\<lparr>s_pages := page_count s\<rparr>) L" using assms(1) by (simp add: slob_inv_def)
  from slob_free_wf [OF this assms(2,3)] obtain t where "slob_free (s\<lparr>s_pages := page_count s\<rparr>) (2 * b) sz = Inr t" by blast
  from slob_free_pages_shift [OF this, of "s_pages s"] show ?thesis by auto
qed

lemma slob_free_section:
  assumes wf: "slob_wf s L" and bu: "(b, SLOB_UNITS sz) \<in> L" "sz \<noteq> 0" and free: "slob_free s (2 * b) sz = Inr s'"
  shows "slob_wf s' (L - {(b, SLOB_UNITS sz)})"
    and "slabs s' = slabs s - (if pg_slab (s_pg s' (b div PU)) then {} else {b div PU})" and "b div PU \<in> slabs s"
proof -
  let ?s = "s\<lparr>s_pages := page_count s\<rparr>"
  have "slob_inv ?s L" using wf by (simp add: slob_inv_def)
  from slob_free_wf [OF this bu] slob_free_pages_shift [OF free, of "page_count s"]
  show "slob_wf s' (L - {(b, SLOB_UNITS sz)})" by (auto simp: free_post_def slob_inv_def)
  note adr = live_block_address [OF wf bu(1)]
  show "b div PU \<in> slabs s" by (rule adr(5))
  show "slabs s' = slabs s - (if pg_slab (s_pg s' (b div PU)) then {} else {b div PU})"
    using slob_free_slabs [OF free adr(1)] adr(5) by (auto simp: slabs_def split: if_splits)
qed

lemma locked_part_wf [simp]: "slob_wf (locked_part s s') L = slob_wf s' L" "slabs (locked_part s s') = slabs s'"
  "s_pages (locked_part s s') = s_pages s"
  by (simp_all add: locked_part_def slob_wf_def page_ok_def page_repr_def lists_ok_def live_ok_def slabs_def)

lemma slob_free_pages_wf [simp]: "slob_wf (slob_free_pages s b d) L = slob_wf s L" "slabs (slob_free_pages s b d) = slabs s"
  "s_pages (slob_free_pages s b d) = s_pages s"
  by (simp_all add: slob_free_pages_def slob_wf_def page_ok_def page_repr_def lists_ok_def live_ok_def slabs_def)

subsection \<open>Invariant\<close>

text \<open>
  The pages that processors hold on their own are different ones and not among the others, and the
  requests that processors work on are valid.
\<close>

fun todo_ok :: "todo \<Rightarrow> bool" where
  "todo_ok (New_page sz al) = slob_req_ok (sz, al)"
| "todo_ok (Install p sz al) = (slob_req_ok (sz, al) \<and> 0 < p \<and> p < 2 ^ 20 - 1)"
| "todo_ok _ = True"

definition smp_inv :: "nat \<Rightarrow> smp \<Rightarrow> bool" where
  "smp_inv n x \<longleftrightarrow> slob_wf (r_slob x) (r_live x) \<and> no_idle (r_slob x) (r_live x) \<and>
     (\<forall>i. todo_ok (r_todo x i) \<and> transit (r_todo x i) \<inter> slabs (r_slob x) = {} \<and> (n \<le> i \<longrightarrow> r_todo x i = Idle)) \<and>
     (\<forall>i j. i \<noteq> j \<longrightarrow> transit (r_todo x i) \<inter> transit (r_todo x j) = {})"

lemma goes_to_sel [simp]:
  "r_slob (goes_to i d x) = r_slob x" "r_live (goes_to i d x) = r_live x" "r_todo (goes_to i d x) = (r_todo x)(i := d)"
  by (simp_all add: goes_to_def)

lemma locked_part_idle [simp]: "no_idle (locked_part s s') L = no_idle s' L" "no_idle (slob_free_pages s b d) L = no_idle s L"
  by (simp_all add: no_idle_def)

text \<open>A step of processor \<open>i\<close>, by what it does to the pages.\<close>

lemma smp_inv_goes_to:
  assumes inv: "smp_inv n x" and i: "i < n" and wf: "slob_wf s L" "no_idle s L"
    and d: "todo_ok d" and own: "transit d \<inter> slabs s = {}"
    and pages: "slabs s \<union> transit d \<subseteq> slabs (r_slob x) \<union> transit (r_todo x i) \<union> N" and fresh: "N \<inter> slab_pages x = {}"
  shows "smp_inv n (goes_to i d (x\<lparr>r_slob := s, r_live := L\<rparr>))"
proof -
  have apart: "(slabs s \<union> transit d) \<inter> transit (r_todo x j) = {}" if "j \<noteq> i" for j
  proof -
    have "transit (r_todo x j) \<inter> slabs (r_slob x) = {}" "transit (r_todo x i) \<inter> transit (r_todo x j) = {}"
      using inv that unfolding smp_inv_def by metis+
    moreover have "transit (r_todo x j) \<subseteq> slab_pages x" by (auto simp: slab_pages_def)
    ultimately show ?thesis using pages fresh by blast
  qed
  let ?y = "goes_to i d (x\<lparr>r_slob := s, r_live := L\<rparr>)"
  have "todo_ok (r_todo ?y j) \<and> transit (r_todo ?y j) \<inter> slabs s = {} \<and> (n \<le> j \<longrightarrow> r_todo ?y j = Idle)" for j
    using inv d own i apart [of j] unfolding smp_inv_def by (cases "j = i") auto
  moreover have "transit (r_todo ?y j) \<inter> transit (r_todo ?y l) = {}" if "j \<noteq> l" for j l
  proof -
    have "transit (r_todo x j) \<inter> transit (r_todo x l) = {}" using inv that unfolding smp_inv_def by metis
    then show ?thesis using that apart [of j] apart [of l] by (cases "j = i"; cases "l = i") auto
  qed
  ultimately show ?thesis using wf unfolding smp_inv_def by simp
qed

lemma smp_step_inv:
  assumes inv: "smp_inv n x" and "smp_step k n x y" shows "smp_inv n y"
proof -
  note goes = smp_inv_goes_to [OF inv]
  from inv have wf: "slob_wf (r_slob x) (r_live x)" and idle: "no_idle (r_slob x) (r_live x)"
    and ok: "\<And>i. todo_ok (r_todo x i)" and own: "\<And>i. transit (r_todo x i) \<inter> slabs (r_slob x) = {}"
    by (auto simp: smp_inv_def)
  from assms(2) show ?thesis
  proof cases
    case (search i sz al node s' a)
    with slob_search_section [OF wf search(4), of k node "slob_list_for sz"] have "slob_wf s' (insert (a, SLOB_UNITS sz) (r_live x))"
      "slabs s' = slabs (r_slob x)" by auto
    then show ?thesis using search(1) inv idle by (auto simp: smp_inv_def no_idle_def)
  next
    case (search_fails i sz al node s')
    with slob_search_section [OF wf search_fails(4), of k node "slob_list_for sz"] have "s' = r_slob x" by auto
    then show ?thesis using search_fails goes [OF search_fails(2) wf idle, of "New_page sz al" "{}"] by simp
  next
    case (no_page i sz al)
    then show ?thesis using goes [OF no_page(2) wf idle, of Idle "{}"] by simp
  next
    case (new_page i sz al p)
    then show ?thesis
      using goes [OF new_page(2) wf idle, of "Install p sz al" "{p}"] ok [of i] by (auto simp: slab_pages_def)
  next
    case (install i p sz al s' a)
    from install(3) ok [of i] own [of i] slob_new_section [OF wf, of sz al p "slob_list_for sz"] install(4)
    have s': "slob_wf s' (insert (a, SLOB_UNITS sz) (r_live x))" "slabs s' = insert p (slabs (r_slob x))" "a = PU * p" by auto
    then have "no_idle s' (insert (a, SLOB_UNITS sz) (r_live x))" using idle by (auto simp: no_idle_def)
    then show ?thesis using install goes [OF install(2), of "locked_part (r_slob x) s'" _ "Load_pages 1" "{}"] s' by simp
  next
    case (release i b sz s')
    note f = slob_free_section [OF wf release(4-6)]
    have "no_idle s' (r_live x - {(b, SLOB_UNITS sz)})" by (rule no_idle_release [OF wf idle release(4,6)])
    then show ?thesis
      unfolding release(1) using f by (intro goes [OF release(2), where N = "{}"]) auto
  next
    case (give_back i p)
    then show ?thesis using goes [OF give_back(2), of "slob_free_pages (r_slob x) (PU * p) 0" "r_live x" "Load_pages (- 1)" "{}"] wf idle
      by (simp add: subset_insertI)
  next
    case (load i d)
    then show ?thesis using goes [OF load(2) wf idle, of "Store_pages (s_pages (r_slob x) + d)" "{}"] by simp
  next
    case (store i v)
    then show ?thesis using goes [OF store(2), of "(r_slob x)\<lparr>s_pages := v\<rparr>" "r_live x" Idle "{}"] wf idle by (simp add: no_idle_def slabs_def)
  next
    case (scribble m)
    have "slob_wf ((r_slob x)\<lparr>s_mem := m\<rparr>) (r_live x)" using wf scribble by (intro slob_wf_mem) auto
    then show ?thesis using scribble(1) inv by (simp add: smp_inv_def no_idle_def slabs_def)
  qed
qed

lemma smp_boot_inv: "smp_boot x \<Longrightarrow> smp_inv n x"
  using slob_boot_inv [of "(r_slob x, r_live x)"]
  by (auto simp: smp_boot_def smp_inv_def slob_inv_def slob_boot_def no_idle_def slabs_def)

interpretation smp_run: invariant_system smp_boot "smp_step k n" "smp_inv n" for k n
  by unfold_locales (blast intro: smp_boot_inv smp_step_inv)+

subsection \<open>Runs\<close>

lemma slob_alloc_new_locked:
  assumes "slob_alloc_new s sz al c sp = Inr (s', r)" shows "locked_part s s' = s'\<lparr>s_pages := s_pages s\<rparr>"
  using assms
  by (auto simp: locked_part_def slob_alloc_new_def slob_page_alloc_def slob_page_take_def clear_slob_page_free_def
      set_slob_page_free_def upd_page_def Let_def split: if_splits option.splits prod.splits)

lemma smp_reach_record:
  assumes "smp_reach k n \<lparr>r_slob = s, r_live = L, r_todo = f\<rparr>" and "i < n"
  shows "f i = Idle \<Longrightarrow> slob_req_ok (sz, al) \<Longrightarrow> s_list s (slob_list_for sz) = [] \<Longrightarrow>
      smp_reach k n \<lparr>r_slob = s, r_live = L, r_todo = f(i := New_page sz al)\<rparr>"
    and "f i = New_page sz al \<Longrightarrow> p \<notin> slabs s \<Longrightarrow> \<forall>j. p \<notin> transit (f j) \<Longrightarrow> 0 < p \<Longrightarrow> p < 2 ^ 20 - 1 \<Longrightarrow>
      smp_reach k n \<lparr>r_slob = s, r_live = L, r_todo = f(i := Install p sz al)\<rparr>"
    and "f i = Install p sz al \<Longrightarrow> slob_alloc_new s sz al (slob_list_for sz) p = Inr (s', Some a) \<Longrightarrow>
      smp_reach k n \<lparr>r_slob = s'\<lparr>s_pages := s_pages s\<rparr>, r_live = insert (a, SLOB_UNITS sz) L, r_todo = f(i := Load_pages 1)\<rparr>"
    and "f i = Load_pages d \<Longrightarrow> smp_reach k n \<lparr>r_slob = s, r_live = L, r_todo = f(i := Store_pages (s_pages s + d))\<rparr>"
    and "f i = Store_pages v \<Longrightarrow> smp_reach k n \<lparr>r_slob = s\<lparr>s_pages := v\<rparr>, r_live = L, r_todo = f(i := Idle)\<rparr>"
proof -
  note st = reach_step [OF assms(1)]
  show "f i = Idle \<Longrightarrow> slob_req_ok (sz, al) \<Longrightarrow> s_list s (slob_list_for sz) = [] \<Longrightarrow>
      smp_reach k n \<lparr>r_slob = s, r_live = L, r_todo = f(i := New_page sz al)\<rparr>"
    using st [OF smp_step.search_fails [of i n _ sz al k NUMA_NO_NODE s]] assms(2) by (simp add: goes_to_def)
  show "f i = New_page sz al \<Longrightarrow> p \<notin> slabs s \<Longrightarrow> \<forall>j. p \<notin> transit (f j) \<Longrightarrow> 0 < p \<Longrightarrow> p < 2 ^ 20 - 1 \<Longrightarrow>
      smp_reach k n \<lparr>r_slob = s, r_live = L, r_todo = f(i := Install p sz al)\<rparr>"
    using st [OF smp_step.new_page [of i n _ sz al p k]] assms(2) by (simp add: goes_to_def slab_pages_def)
  show "f i = Install p sz al \<Longrightarrow> slob_alloc_new s sz al (slob_list_for sz) p = Inr (s', Some a) \<Longrightarrow>
      smp_reach k n \<lparr>r_slob = s'\<lparr>s_pages := s_pages s\<rparr>, r_live = insert (a, SLOB_UNITS sz) L, r_todo = f(i := Load_pages 1)\<rparr>"
    using st [OF smp_step.install [of i n _ p sz al s' a k]] assms(2) slob_alloc_new_locked [of s sz al "slob_list_for sz" p s' "Some a"]
    by (simp add: goes_to_def)
  show "f i = Load_pages d \<Longrightarrow> smp_reach k n \<lparr>r_slob = s, r_live = L, r_todo = f(i := Store_pages (s_pages s + d))\<rparr>"
    using st [OF smp_step.load [of i n _ d k]] assms(2) by (simp add: goes_to_def)
  show "f i = Store_pages v \<Longrightarrow> smp_reach k n \<lparr>r_slob = s\<lparr>s_pages := v\<rparr>, r_live = L, r_todo = f(i := Idle)\<rparr>"
    using st [OF smp_step.store [of i n _ v k]] assms(2) by (simp add: goes_to_def)
qed

end
