(* ===== verification/Slob_Examples.thy ===== *)
theory Slob_Examples
  imports Slob_Steps
begin

text \<open>
  Concrete allocator states, used to show that the hypotheses of the theorems can hold: the state
  at boot, a state with one block, a state with one \<open>kmalloc\<close> object, a state with an RCU object
  and a state with two partly free pages, the first of them fragmented.
\<close>

unbundle bit_operations_syntax

text \<open>A machine of 100 page frames whose page allocator hands out the first frame not in use.\<close>

definition first_free :: "slob \<Rightarrow> int option" where
  "first_free s = find (\<lambda>p. \<not> pg_slab (s_pg s p)) [1 .. 100]"

definition example_conf :: kconf where
  "example_conf = \<lparr>kc_numa = False, page_to_nid = (\<lambda>_. 0),
     alloc_pages = (\<lambda>s flags order. if order = 0 then first_free s else None),
     alloc_pages_exact_node = (\<lambda>s node flags order. None),
     GFP_ZERO = 0x8000, GFP_COMP = 0x4000, gfp_allowed_mask = 0xFFFFFF,
     get_order = (\<lambda>n. if n \<le> 4096 then 0 else 1), compound_order = (\<lambda>_. 0),
     ARCH_KMALLOC_MINALIGN = 8, ARCH_SLAB_MINALIGN = 4, SLAB_DESTROY_BY_RCU = 0x80000\<rparr>"

lemma example_conf_sel [simp]:
  "GFP_ZERO example_conf = 0x8000" "get_order example_conf n = (if n \<le> 4096 then 0 else 1)"
  "compound_order example_conf p = 0" "SLAB_DESTROY_BY_RCU example_conf = 0x80000"
  by (simp_all add: example_conf_def)

definition empty_slob :: slob where
  "empty_slob = \<lparr>s_mem = (\<lambda>_. 0),
     s_pg = (\<lambda>_. \<lparr>pg_units = 0, pg_freelist = 0, pg_slobfree = False, pg_slab = False\<rparr>),
     s_list = (\<lambda>_. []), s_pages = 0, s_reclaimed = None, s_freed = [], s_rcu = []\<rparr>"

lemma first_page_free: "slob_new_pages example_conf empty_slob f 0 NUMA_NO_NODE = Some 1"
  by (simp add: slob_new_pages_def example_conf_def first_free_def upto_rec1 empty_slob_def NUMA_NO_NODE_def)

lemma pages_ok_example: "pages_ok example_conf"
proof -
  have "p \<in> set [1 .. 100] \<and> \<not> pg_slab (s_pg s p)" if "first_free s = Some p" for s p
    using that unfolding first_free_def by (metis (mono_tags) find_Some_iff nth_mem)
  then show ?thesis
    by (fastforce simp: pages_ok_def fresh_pages_def slob_new_pages_def example_conf_def slabs_def
        split: if_splits)
qed

lemma fresh_pages_example: "fresh_pages example_conf s"
  using pages_ok_example by (simp add: pages_ok_def)

lemma conf_ok_example: "conf_ok example_conf" "kmalloc_align example_conf = 8"
proof -
  show a: "kmalloc_align example_conf = 8" by (simp add: kmalloc_align_def example_conf_def)
  have "align_ok 8" unfolding align_ok_def by (rule disjI2, rule exI [of _ 3]) simp
  then show "conf_ok example_conf" unfolding conf_ok_def a by (simp add: PAGE_SIZE_def)
qed

lemma boot_example: "slob_boot (empty_slob, {})"
  by (simp add: slob_boot_def empty_slob_def)

lemma slob_inv_empty: "slob_inv empty_slob {}"
  using slob_boot_inv [OF boot_example] by simp

text \<open>One block of 9 units, in page 1.\<close>

definition one_slob :: slob where
  "one_slob = (case slob_alloc_new empty_slob 18 0 Small 1 of Inr (s, _) \<Rightarrow> s | Inl _ \<Rightarrow> empty_slob)"

lemma one_slob:
  "slob_alloc_new empty_slob 18 0 Small 1 = Inr (one_slob, Some 2048)" "slob_inv one_slob {(2048, 9)}"
proof -
  have "(1::int) \<notin> slabs empty_slob" by (simp add: slabs_def empty_slob_def)
  from slob_grow_inv [OF slob_inv_empty _ this, of 18 0 Small]
  obtain s' where "slob_alloc_new empty_slob 18 0 Small 1 = Inr (s', Some 2048)"
    "slob_inv s' {(2048, SLOB_UNITS 18)}" by (auto simp: slob_req_ok_def PAGE_SIZE_def align_ok_def)
  then show "slob_alloc_new empty_slob 18 0 Small 1 = Inr (one_slob, Some 2048)"
    "slob_inv one_slob {(2048, 9)}" by (simp_all add: one_slob_def SLOB_UNITS_eq)
qed

lemma example_req: "slob_req_ok (18, 0)"
  by (simp add: slob_req_ok_def PAGE_SIZE_def align_ok_def)

lemma example_size: "SLOB_UNITS 18 = 9" "slob_list_for 18 = Small"
  by (simp_all add: SLOB_UNITS_eq slob_list_for_def SLOB_BREAK1_def)

lemma one_slabs: "slabs one_slob = {1}" "s_pages one_slob = 1"
proof -
  have "slabs empty_slob = {}" by (simp add: slabs_def empty_slob_def)
  with slob_grow_inv [OF slob_inv_empty example_req, of 1 Small] one_slob(1)
  show "slabs one_slob = {1}" by auto
  with one_slob(2) show "s_pages one_slob = 1" by (simp add: slob_inv_def)
qed

text \<open>The machine at boot, and the run of processor 0 up to the installation of the page.\<close>

lemma boot_reach: "smp_reach k n \<lparr>r_slob = empty_slob, r_live = {}, r_todo = (\<lambda>_. Idle)\<rparr>"
  using boot_example by (intro reach_init) (simp add: smp_boot_def)

lemma install_reach:
  assumes "0 < n"
  shows "smp_reach k n \<lparr>r_slob = empty_slob, r_live = {}, r_todo = (\<lambda>_. Idle)(0 := Install 1 18 0)\<rparr>"
proof -
  have "smp_reach k n \<lparr>r_slob = empty_slob, r_live = {}, r_todo = (\<lambda>_. Idle)(0 := New_page 18 0)\<rparr>"
    using smp_reach_record(1) [OF boot_reach assms, of 18 0 k] example_req by (simp add: example_size empty_slob_def)
  from smp_reach_record(2) [OF this assms, of 18 0 1] show ?thesis by (simp add: slabs_def empty_slob_def)
qed

text \<open>One object of 10 bytes from \<open>kmalloc\<close>.\<close>

definition km_slob :: slob where
  "km_slob = (case do_kmalloc_node example_conf empty_slob 10 0 NUMA_NO_NODE of
     Inr (s, _) \<Rightarrow> s | Inl _ \<Rightarrow> empty_slob)"

lemma km_slob:
  "do_kmalloc_node example_conf empty_slob 10 0 NUMA_NO_NODE = Inr (km_slob, Some 4104)"
  "kinv example_conf {} (\<lambda>_. 0) km_slob {(4104, 10)}"
proof -
  let ?r = "do_kmalloc_node example_conf empty_slob 10 0 NUMA_NO_NODE"
  have "(1::int) \<notin> slabs empty_slob" by (simp add: slabs_def empty_slob_def)
  moreover have "align_ok 8" using conf_ok_example by (simp add: conf_ok_def)
  ultimately obtain s1 where "slob_alloc_new empty_slob 18 8 Small 1 = Inr (s1, Some 2048)"
    using slob_grow_inv [OF slob_inv_empty, of 18 8 1 Small] by (auto simp: slob_req_ok_def PAGE_SIZE_def)
  moreover have "s_list empty_slob c = []" for c by (simp add: empty_slob_def)
  ultimately have "\<exists>s'. ?r = Inr (s', Some 4104)"
    by (simp add: do_kmalloc_node_def conf_ok_example slob_alloc_def slob_list_for_def SLOB_BREAK1_def
        SLOB_UNIT_def PAGE_SIZE_def first_page_free Let_def)
  then obtain s' where eq: "?r = Inr (s', Some 4104)" by blast
  then show r: "?r = Inr (km_slob, Some 4104)" by (simp add: km_slob_def)
  have "kinv example_conf {} (\<lambda>_. 0) empty_slob {}"
    using slob_inv_empty conf_ok_example pages_ok_example by (simp add: kinv_def live_units_def)
  from kinv_alloc [OF this, of 10 0 NUMA_NO_NODE] eq r
  show "kinv example_conf {} (\<lambda>_. 0) km_slob {(4104, 10)}"
    by (auto simp: kreq_ok_def conf_ok_example PAGE_SIZE_def)
qed

text \<open>
  Two pages on the list \<open>Small\<close>: page 1 has two free blocks of 2 units, page 2 one of 10.
\<close>

definition frag_slob :: slob where
  "frag_slob = \<lparr>s_mem = set_slob (set_slob (set_slob (\<lambda>_. 0) 2054 2 4096) 2050 2 2054) 6134 10 6144,
     s_pg = (\<lambda>p. if p = 1 then \<lparr>pg_units = 4, pg_freelist = 2050, pg_slobfree = True, pg_slab = True\<rparr>
       else if p = 2 then \<lparr>pg_units = 10, pg_freelist = 6134, pg_slobfree = True, pg_slab = True\<rparr>
       else \<lparr>pg_units = 0, pg_freelist = 0, pg_slobfree = False, pg_slab = False\<rparr>),
     s_list = (\<lambda>c. if c = Small then [1, 2] else []), s_pages = 2, s_reclaimed = Some 0,
     s_freed = [], s_rcu = []\<rparr>"

definition frag_live :: "(int \<times> int) set" where
  "frag_live = {(2048, 2), (2052, 2), (2056, 2040), (4096, 2038)}"

lemma frag_pages: "page_repr frag_slob 1 [(2050, 2), (2054, 2)]" "page_repr frag_slob 2 [(6134, 10)]"
  by (auto simp: page_repr_def frag_slob_def is_block_def slob_units_def slob_next_def set_slob_def
      slob_base_eq c_int Let_def)

lemma frag_inv: "slob_inv frag_slob frag_live"
proof -
  have sl: "slabs frag_slob = {1, 2}" by (auto simp: slabs_def frag_slob_def)
  have lu: "live_units frag_live = {2048 ..< 2050} \<union> {2052 ..< 2054} \<union> {2056 ..< 4096} \<union> {4096 ..< 6134}"
    by (auto simp: live_units_def frag_live_def span_def)
  have "page_ok frag_slob frag_live 1"
    unfolding page_ok_def lu
    by (intro exI [of _ "[(2050, 2), (2054, 2)]"]) (auto simp: frag_pages, auto simp: frag_slob_def)
  moreover have "page_ok frag_slob frag_live 2"
    unfolding page_ok_def lu
    by (intro exI [of _ "[(6134, 10)]"]) (auto simp: frag_pages, auto simp: frag_slob_def)
  moreover have "lists_ok frag_slob" by (auto simp: lists_ok_def frag_slob_def)
  moreover have "live_ok frag_slob frag_live" by (auto simp: live_ok_def sl frag_live_def span_def)
  moreover have "(\<Sum>x \<in> frag_live. snd x) = 4082" by (simp add: frag_live_def)
  moreover have "(\<Sum>p \<in> slabs frag_slob. pg_units (s_pg frag_slob p)) = 14" unfolding sl by (simp add: frag_slob_def)
  moreover have "s_pages frag_slob = 2" "\<forall>p. pg_slobfree (s_pg frag_slob p) \<longrightarrow> p \<in> slabs frag_slob"
    unfolding sl by (auto simp: frag_slob_def split: if_splits)
  moreover have "finite frag_live" by (simp add: frag_live_def)
  ultimately show ?thesis unfolding slob_inv_def slob_wf_def by (simp add: sl)
qed

end
