(* ===== verification/Slob_Props.thy ===== *)
theory Slob_Props
  imports Slob_Examples
begin

text \<open>
  The properties of the slob allocator (\<open>assignments/a4/slob.c\<close>), each with an application to a
  concrete state where it has hypotheses.
\<close>

unbundle bit_operations_syntax

subsection \<open>slob\_alloc and slob\_free\<close>

text \<open>
  C1: \<open>slob_alloc\<close> is correct. From a consistent state it never faults or loops for ever. It returns
  NULL only when the page allocator refuses a page, and then changes nothing. Otherwise the block
  is disjoint from every live block, lies in a slab page, is aligned as asked, no live block's
  memory changes, the new state is consistent with the block added, and with \<open>__GFP_ZERO\<close> every
  byte asked for is zero.
\<close>

theorem slob_alloc_correct:
  assumes "slob_inv s L" and "0 < sz" and "sz \<le> PAGE_SIZE" and "align_ok al" and "al \<le> PAGE_SIZE"
    and "fresh_pages k s"
  shows "slob_alloc k s sz flags al node = Inr (s, None) \<and>
      slob_new_pages k s (flags AND NOT (GFP_ZERO k)) 0 node = None
    \<or> (\<exists>s' a. slob_alloc k s sz flags al node = Inr (s', Some a) \<and>
         slob_inv s' (insert (a, SLOB_UNITS sz) L) \<and>
         {a ..< a + SLOB_UNITS sz} \<inter> live_units L = {} \<and> a div PU \<in> slabs s' \<and>
         (al \<noteq> 0 \<longrightarrow> al dvd 2 * a) \<and> (\<forall>x \<in> live_units L. s_mem s' x = s_mem s x) \<and>
         (flags AND GFP_ZERO k \<noteq> 0 \<longrightarrow>
            (\<forall>i. 0 \<le> i \<and> i < sz \<longrightarrow> get_byte (s_mem s') (2 * a + i) = 0)))"
  using slob_alloc_search [OF assms refl, of flags node] unfolding alloc_post_def slob_inv_def by blast

theorem slob_alloc_correct_witness:
  "\<exists>s' a. slob_alloc example_conf frag_slob 18 0x8000 8 NUMA_NO_NODE = Inr (s', Some a) \<and>
     slob_inv s' (insert (a, 9) frag_live) \<and> {a ..< a + 9} \<inter> live_units frag_live = {} \<and> 8 dvd 2 * a \<and>
     get_byte (s_mem s') (2 * a + 17) = 0"
proof -
  have "align_ok 8" using conf_ok_example by (simp add: conf_ok_def)
  moreover have "slob_new_pages example_conf frag_slob 0 0 NUMA_NO_NODE \<noteq> None"
    by (simp add: slob_new_pages_def example_conf_def first_free_def upto_rec1 frag_slob_def NUMA_NO_NODE_def)
  ultimately show ?thesis
    using slob_alloc_correct [OF frag_inv, of 18 8 example_conf "0x8000" NUMA_NO_NODE]
    by (auto simp: PAGE_SIZE_def SLOB_UNITS_eq fresh_pages_example)
qed

text \<open>
  C2: \<open>slob_free\<close> is correct. Freeing a live block with its size never faults or loops for ever; the
  new state is consistent with exactly that block gone, and no other live block's memory changes.
\<close>

theorem slob_free_correct:
  assumes "slob_inv s L" and "(b, SLOB_UNITS sz) \<in> L" and "sz \<noteq> 0"
  shows "\<exists>s'. slob_free s (2 * b) sz = Inr s' \<and> slob_inv s' (L - {(b, SLOB_UNITS sz)}) \<and>
    (\<forall>x \<in> live_units (L - {(b, SLOB_UNITS sz)}). s_mem s' x = s_mem s x)"
  using slob_free_wf [OF assms] by (simp add: free_post_def)

theorem slob_free_correct_witness:
  "\<exists>s'. slob_free frag_slob 4104 4 = Inr s' \<and> slob_inv s' {(2048, 2), (2056, 2040), (4096, 2038)}"
proof -
  have "frag_live - {(2052, 2)} = {(2048, 2), (2056, 2040), (4096, 2038)}" by (auto simp: frag_live_def)
  then show ?thesis
    using slob_free_correct [OF frag_inv, of 2052 4] by (auto simp: SLOB_UNITS_eq frag_live_def)
qed

subsection \<open>Inside a page\<close>

text \<open>
  C5: \<open>slob_page_alloc\<close> implements first fit. On a page whose memory encodes the free list \<open>bs\<close>, the
  pointer loop ends and does what the list function \<open>ff_alloc\<close> does: no fit leaves the state alone;
  a fit returns the same address, and the page then encodes the new free list, written only inside
  free units.
\<close>

theorem slob_page_alloc_refines:
  assumes "page_repr s p bs" and "bs \<noteq> []" and "0 < sz" and "sz \<le> PAGE_SIZE" and "align_ok al"
  shows "case ff_alloc (SLOB_UNITS sz) al bs of
      None \<Rightarrow> slob_page_alloc s p sz al = Inr (s, None)
    | Some (a, bs') \<Rightarrow> (\<exists>s'. slob_page_alloc s p sz al = Inr (s', Some a) \<and> page_repr s' p bs' \<and>
        bunits bs' = bunits bs - {a ..< a + SLOB_UNITS sz} \<and> {a ..< a + SLOB_UNITS sz} \<subseteq> bunits bs \<and>
        (\<forall>x. x \<notin> bunits bs \<longrightarrow> s_mem s' x = s_mem s x))"
proof (cases "ff_alloc (SLOB_UNITS sz) al bs")
  case None
  then show ?thesis using slob_page_alloc_None [OF assms(1,2)] by simp
next
  case (Some ab)
  then obtain a bs' where ff: "ff_alloc (SLOB_UNITS sz) al bs = Some (a, bs')" by (cases ab) auto
  note u = SLOB_UNITS_pos [OF assms(3,4)]
  note spec = ff_alloc_spec [OF ff page_repr_ok [OF assms(1)] u assms(5)]
  obtain m where eq: "slob_page_alloc s p sz al = Inr (page_set s p m bs', Some a)"
    and m: "repr m (page_end p) bs'" "\<And>x. x \<notin> bunits bs \<Longrightarrow> m x = s_mem s x"
    by (rule slob_page_alloc_Some [OF assms(1) u assms(5) ff]) blast
  have "page_repr (page_set s p m bs') p bs'" using spec(1) m(1) by (simp add: page_repr_def)
  then show ?thesis using ff eq spec(2,3) m(2) by simp
qed

theorem slob_page_alloc_refines_witness:
  "slob_page_alloc frag_slob 1 6 0 = Inr (frag_slob, None) \<and>
   (\<exists>s'. slob_page_alloc frag_slob 2 6 0 = Inr (s', Some 6134) \<and> page_repr s' 2 [(6137, 7)])"
  using slob_page_alloc_refines [OF frag_pages(1), of 6 0] slob_page_alloc_refines [OF frag_pages(2), of 6 0]
  by (auto simp: PAGE_SIZE_def align_ok_def SLOB_UNITS_eq slob_delta_def leftover_def)

text \<open>
  C6: Reinsertion coalesces. \<open>slob_free\<close>'s search loop ends, and the freed units join the address-
  ordered free list, merged with a neighbour on either side, so that no two free blocks of the
  result touch; memory outside the free units and the freed block is untouched.
\<close>

theorem slob_free_insert_coalesces:
  assumes "page_repr s p bs" and "bs \<noteq> []" and "1 \<le> u" and "page_base p \<le> b" and "b + u \<le> page_end p"
    and "{b ..< b + u} \<inter> bunits bs = {}"
  shows "\<exists>m. slob_free_insert (s_mem s) (pg_freelist (s_pg s p)) b u = Some (m, nxt (page_end p) (ins_free b u bs)) \<and>
    repr m (page_end p) (ins_free b u bs) \<and> fl_ok (page_end p) (page_base p) (ins_free b u bs) \<and>
    bunits (ins_free b u bs) = bunits bs \<union> {b ..< b + u} \<and>
    (\<forall>x. x \<notin> bunits bs \<union> {b ..< b + u} \<longrightarrow> m x = s_mem s x)"
proof -
  from assms(1,2) have r: "repr (s_mem s) (page_end p) bs" "fl_ok (page_end p) (page_base p) bs"
    "pg_freelist (s_pg s p) = nxt (page_end p) bs" by (auto simp: page_repr_def)
  show ?thesis
    using slob_free_insert_refines [OF _ refl r(1,2) assms(2-)] ins_free_spec [OF r(2) assms(3-)] r(3) by auto
qed

theorem slob_free_insert_coalesces_witness:
  "\<exists>m. slob_free_insert (s_mem frag_slob) 2050 2052 2 = Some (m, 2050) \<and> repr m 4096 [(2050, 6)]"
proof -
  have "{2052 ..< 2052 + 2} \<inter> bunits [(2050, 2), (2054, 2)] = {}" by auto
  with slob_free_insert_coalesces [OF frag_pages(1), of 2 2052] show ?thesis
    by (auto simp: frag_slob_def)
qed

text \<open>
  The block encoding round-trips. \<open>slob_units\<close>, \<open>slob_next\<close> and \<open>slob_last\<close> read back what
  \<open>set_slob\<close> wrote, also for blocks of one unit, where size and offset share a single \<open>s16\<close>.
\<close>

lemma set_slob_roundtrip:
  assumes "PU * p \<le> b" and "b < PU * p + PU" and "1 \<le> n" and "n \<le> PU" and "PU * p < nx" and "nx \<le> PU * p + PU"
  shows "slob_units (set_slob m b n nx) b = n \<and> slob_next (set_slob m b n nx) b = nx \<and>
    (slob_last (set_slob m b n nx) b \<longleftrightarrow> nx = PU * p + PU) \<and>
    (\<forall>a. a < b \<or> b + n \<le> a \<longrightarrow> set_slob m b n nx a = m a)"
proof -
  have blk: "is_block (set_slob m b n nx) b n nx" using assms by (intro set_slob_block [of "PU * p"]) auto
  then have nx: "slob_next (set_slob m b n nx) b = nx" by (simp add: is_block_def)
  have "slob_last (set_slob m b n nx) b \<longleftrightarrow> nx = PU * p + PU"
    unfolding slob_last_eq nx using assms(5,6) by (rule page_end_iff)
  then show ?thesis using blk assms(3) set_slob_frame by (simp add: is_block_def)
qed

lemma set_slob_roundtrip_witness:
  "slob_units (set_slob (\<lambda>_. 0) 2050 1 4096) 2050 = 1 \<and> slob_next (set_slob (\<lambda>_. 0) 2050 1 4096) 2050 = 4096 \<and>
   slob_last (set_slob (\<lambda>_. 0) 2050 1 4096) 2050"
  using set_slob_roundtrip [of 1 2050 1 4096 "\<lambda>_. 0"] by simp

subsection \<open>The page search\<close>

text \<open>
  The best-fit scan. For a page \<open>cur\<close> on the list with enough free units the scan never runs into
  the list head, and the page it picks has enough units and no more than \<open>cur\<close> and every other
  page with enough units among those scanned (the first 50 of the list, up to \<open>cur\<close>).
\<close>

lemma best_scan_minimal:
  assumes "cur \<in> set nodes" and "ulong (pg_units (s_pg s cur)) \<ge> SLOB_UNITS sz"
  shows "\<exists>b. best_scan s sz cur 50 nodes cur = Some b \<and> b \<in> set nodes \<and>
    ulong (pg_units (s_pg s b)) \<ge> SLOB_UNITS sz \<and> pg_units (s_pg s b) \<le> pg_units (s_pg s cur) \<and>
    (\<forall>q \<in> set (take 50 (takeWhile (\<lambda>q. q \<noteq> cur) nodes @ [cur])).
       ulong (pg_units (s_pg s q)) \<ge> SLOB_UNITS sz \<longrightarrow> pg_units (s_pg s b) \<le> pg_units (s_pg s q))"
  using best_scan_least [OF assms(1), of s sz cur 50] assms scan_window_subset [OF assms(1), of 50]
  unfolding roomy_def scan_window_def by blast

lemma best_scan_minimal_witness:
  "\<exists>b. best_scan frag_slob 8 2 50 [1, 2] 2 = Some b \<and> pg_units (s_pg frag_slob b) \<le> 4"
proof -
  have "ulong (pg_units (s_pg frag_slob q)) \<ge> SLOB_UNITS 8" if "q \<in> {1, 2}" for q
    using that by (auto simp: frag_slob_def c_int SLOB_UNITS_eq)
  moreover have "pg_units (s_pg frag_slob 1) = 4" by (simp add: frag_slob_def)
  ultimately show ?thesis using best_scan_minimal [of 2 "[1, 2]" 8 frag_slob] by fastforce
qed

text \<open>
  C36: The best-fit search can miss. If the first page of the list has enough free units, but no
  single block large enough, and every other page has more free units, the scan picks that first
  page for every page of the list, and the search finds nothing, whatever the other pages hold:
  the caller takes a new page although a listed page could serve it.
\<close>

theorem slob_search_misses:
  assumes "s_list s c = a # rest" and "page_repr s a bs" and "bs \<noteq> []"
    and "ff_alloc (SLOB_UNITS sz) al bs = None" and "ulong (pg_units (s_pg s a)) \<ge> SLOB_UNITS sz"
    and "\<forall>q \<in> set rest. pg_units (s_pg s a) < pg_units (s_pg s q)"
  shows "slob_alloc_list k s sz al node c (s_list s c) = Inr (s, None)"
  using slob_alloc_list_hidden [of s sz a rest c al "s_list s c" k node]
    slob_page_alloc_None [OF assms(2-4)] assms by (auto simp: roomy_def)

theorem slob_search_misses_witness:
  "slob_inv frag_slob frag_live \<and>
   slob_alloc_list example_conf frag_slob 8 0 NUMA_NO_NODE Small [1, 2] = Inr (frag_slob, None) \<and>
   (\<exists>s'. slob_page_alloc frag_slob 2 8 0 = Inr (s', Some 6134))"
proof -
  have "s_list frag_slob Small = [1, 2]" by (simp add: frag_slob_def)
  moreover have "ff_alloc (SLOB_UNITS 8) 0 [(2050, 2), (2054, 2)] = None"
    by (simp add: SLOB_UNITS_eq slob_delta_def)
  moreover have "ulong (pg_units (s_pg frag_slob 1)) \<ge> SLOB_UNITS 8"
    "pg_units (s_pg frag_slob 1) < pg_units (s_pg frag_slob 2)"
    by (simp_all add: frag_slob_def c_int SLOB_UNITS_eq)
  ultimately have "slob_alloc_list example_conf frag_slob 8 0 NUMA_NO_NODE Small [1, 2] = Inr (frag_slob, None)"
    using slob_search_misses [of frag_slob Small 1 "[2]" "[(2050, 2), (2054, 2)]" 8 0 example_conf NUMA_NO_NODE]
      frag_pages(1) by (simp del: slob_alloc_list.simps ff_alloc.simps)
  moreover have "ff_alloc (SLOB_UNITS 8) 0 [(6134, 10)] = Some (6134, [(6138, 6)])"
    by (simp add: SLOB_UNITS_eq slob_delta_def leftover_def)
  from slob_page_alloc_Some [OF frag_pages(2) _ _ this]
  have "\<exists>s'. slob_page_alloc frag_slob 2 8 0 = Inr (s', Some 6134)"
    by (auto simp: SLOB_UNITS_eq align_ok_def)
  ultimately show ?thesis using frag_inv by blast
qed

subsection \<open>kmalloc, kfree and ksize\<close>

text \<open>
  C4: Batches of \<open>kmalloc\<close> and \<open>kfree\<close> below the page size. For any list of sizes below a page less the
  header, zero included, the calls in turn, up to the first NULL, do not fault; those of size zero get
  \<open>ZERO_SIZE_PTR\<close>, the others distinct objects, none of them in use before. \<open>kfree\<close> of all the pointers
  in any order succeeds and restores the set of objects in use; the bytes of every object in use
  before, and every block of other users of the allocator, keep their contents throughout.
\<close>

theorem kmalloc_batch:
  assumes "kinv k oth m0 s K" and "\<forall>n \<in> set ns. 0 \<le> n \<and> n < PAGE_SIZE - kmalloc_align k"
  shows "\<exists>s' ps os. alloc_all (\<lambda>s n. kmalloc k s n flags) s ns = Inr (s', ps) \<and> os = filter (\<lambda>x. snd x \<noteq> 0) ps \<and>
    (\<forall>x \<in> set ps. snd x = 0 \<longrightarrow> fst x = ZERO_SIZE_PTR) \<and> distinct os \<and>
    K \<inter> set os = {} \<and> kinv k oth m0 s' (K \<union> set os) \<and>
    (\<forall>qs. mset qs = mset ps \<longrightarrow>
       (\<exists>s''. free_all (\<lambda>s p n. kfree k s p) s' qs = Inr s'' \<and> kinv k oth m0 s'' K \<and>
          (\<forall>b \<in> K. kbytes s'' b = kbytes s b)))"
proof -
  let ?al = "\<lambda>s n. kmalloc k s n flags" and ?fr = "\<lambda>s p (n::int). kfree k s p"
  have conf: "kmalloc_align k < PAGE_SIZE" if "0 \<in> set ns" using assms(2) that by auto
  have "\<forall>n \<in> set (filter (\<lambda>n. n \<noteq> 0) ns). kreq_ok k n" using assms(2) by (auto simp: kreq_ok_def)
  from kmalloc_store.batch [OF assms(1) this, of flags NUMA_NO_NODE] obtain s' os where
    al: "alloc_all ?al s (filter (\<lambda>n. n \<noteq> 0) ns) = Inr (s', os)" and os: "distinct os" "K \<inter> set os = {}"
      "kinv k oth m0 s' (K \<union> set os)"
    and fr: "\<And>qs. mset qs = mset os \<Longrightarrow> \<exists>s''. free_all ?fr s' qs = Inr s'' \<and> kinv k oth m0 s'' K \<and>
        (\<forall>b \<in> K. kbytes s'' b = kbytes s b)" by (auto simp: kmalloc_def)
  have "?al s 0 = Inr (s, Some ZERO_SIZE_PTR)" if "0 \<in> set ns" for s
    using conf [OF that] by (simp add: kmalloc_def do_kmalloc_node_def Let_def)
  from alloc_all_skip [OF this al] obtain ps where ps: "alloc_all ?al s ns = Inr (s', ps)" "os = filter (\<lambda>x. snd x \<noteq> 0) ps"
    "\<forall>x \<in> set ps. snd x = 0 \<longrightarrow> fst x = ZERO_SIZE_PTR" by blast
  have "\<exists>s''. free_all ?fr s' qs = Inr s'' \<and> kinv k oth m0 s'' K \<and> (\<forall>b \<in> K. kbytes s'' b = kbytes s b)"
    if "mset qs = mset ps" for qs
  proof -
    have "mset (filter (\<lambda>x. snd x \<noteq> 0) qs) = mset os" using that ps(2) by simp
    from fr [OF this] obtain s'' where "free_all ?fr s' (filter (\<lambda>x. snd x \<noteq> 0) qs) = Inr s''" "kinv k oth m0 s'' K"
      "\<forall>b \<in> K. kbytes s'' b = kbytes s b" by blast
    moreover have "set qs = set ps" using that by (rule mset_eq_setD)
    then have "\<forall>x \<in> set qs. snd x = 0 \<longrightarrow> fst x = ZERO_SIZE_PTR" using ps(3) by simp
    then have "free_all ?fr s' (filter (\<lambda>x. snd x \<noteq> 0) qs) = free_all ?fr s' qs"
      by (rule free_all_skip) (simp add: kfree_def ZERO_OR_NULL_PTR_def ZERO_SIZE_PTR_def c_int)
    ultimately show ?thesis by auto
  qed
  with ps os show ?thesis by blast
qed

theorem kmalloc_batch_witness:
  "\<exists>s' ps. alloc_all (\<lambda>s n. kmalloc example_conf s n 0) km_slob [4, 0, 1000, 0, 30] = Inr (s', ps) \<and>
     distinct (filter (\<lambda>x. snd x \<noteq> 0) ps) \<and> (4104, 10) \<notin> set ps"
proof -
  have "\<forall>n \<in> set [4, 0, 1000, 0, 30]. 0 \<le> n \<and> n < PAGE_SIZE - kmalloc_align example_conf"
    by (simp add: PAGE_SIZE_def conf_ok_example)
  from kmalloc_batch [OF km_slob(2) this, of 0] show ?thesis by fastforce
qed

text \<open>
  C11: Batches of object caches without RCU. Allocating one object each from any list of caches whose
  objects are below the page size, that do not have \<open>SLAB_DESTROY_BY_RCU\<close>, and whose constructors stay
  inside their object, up to the first NULL, does not fault and hands out distinct objects, none of
  them in use before; \<open>kmem_cache_free\<close> of all of them in any order succeeds, restores the set of
  objects in use and leaves their contents alone.
\<close>

theorem kmem_cache_batch:
  assumes "cinv k s K" and "\<forall>c \<in> set cs. cache_ok k c \<and> no_rcu k c"
  shows "\<exists>s' ps. alloc_all (\<lambda>s c. kmem_cache_alloc k s c flags) s cs = Inr (s', ps) \<and>
    distinct (map object ps) \<and> K \<inter> object ` set ps = {} \<and> cinv k s' (K \<union> object ` set ps) \<and>
    (\<forall>qs. mset qs = mset ps \<longrightarrow>
       (\<exists>s''. free_all (\<lambda>s p c. kmem_cache_free k s c p) s' qs = Inr s'' \<and> cinv k s'' K \<and>
          (\<forall>b \<in> K. object_units s'' b = object_units s b)))"
  using cache_store.batch [OF assms, of flags NUMA_NO_NODE] by (simp add: kmem_cache_alloc_def)

theorem kmem_cache_batch_witness:
  "\<exists>s' ps. alloc_all (\<lambda>s c. kmem_cache_alloc example_conf s c 0) one_slob
      (replicate 3 (kmem_cache_boot example_conf 100 0x40000)) = Inr (s', ps) \<and>
    distinct (map object ps) \<and> (4096, 9) \<notin> object ` set ps"
proof -
  let ?c = "kmem_cache_boot example_conf 100 0x40000"
  have "align_ok 8" using conf_ok_example by (simp add: conf_ok_def)
  then have "cache_ok example_conf ?c \<and> no_rcu example_conf ?c"
    by (intro boot_cache_ok [of 100]) (simp_all add: PAGE_SIZE_def example_conf_def kmem_cache_init_def kmem_cache_init_late_def)
  moreover have "cinv example_conf one_slob {(4096, 9)}"
    using one_slob(2) pages_ok_example by (auto simp: cinv_def by_byte_def intro!: exI [of _ "{(2048, 9)}"])
  ultimately show ?thesis
    using kmem_cache_batch [of example_conf one_slob "{(4096, 9)}" "replicate 3 ?c" 0] by auto
qed

text \<open>
  C29: A small \<open>kmalloc\<close>. It returns NULL and changes nothing, or a pointer whose block is new,
  aligned, has a header with the size in front of it and room for all bytes behind it, inside one
  slab page; no live memory changes.
\<close>

theorem kmalloc_small_correct:
  assumes "slob_inv s L" and "conf_ok k" and "0 < sz" and "sz < PAGE_SIZE - kmalloc_align k" and "fresh_pages k s"
  shows "do_kmalloc_node k s sz flags node = Inr (s, None) \<or>
    (\<exists>s' p m u. do_kmalloc_node k s sz flags node = Inr (s', Some p) \<and>
      p = 2 * m + kmalloc_align k \<and> kmalloc_align k dvd p \<and> (m, u) \<notin> L \<and> slob_inv s' (insert (m, u) L) \<and>
      get_u32 (s_mem s') (2 * m) = word_of_int sz \<and> p + sz \<le> 2 * (m + u) \<and>
      (\<forall>x \<in> live_units L. s_mem s' x = s_mem s x))"
proof -
  let ?al = "kmalloc_align k" and ?u = "SLOB_UNITS (sz + kmalloc_align k)"
  consider "do_kmalloc_node k s sz flags node = Inr (s, None)"
    | s' m where "do_kmalloc_node k s sz flags node = Inr (s', Some (2 * m + ?al))" "(m, ?u) \<notin> L"
      "slob_inv s' (insert (m, ?u) L)" "kmalloced k s' (insert (m, ?u) L) (2 * m + ?al) m sz" "?al dvd 2 * m"
      "\<forall>x \<in> live_units L. s_mem s' x = s_mem s x"
    using kmalloc_small [OF assms refl, of flags node] by blast
  then show ?thesis
  proof cases
    case 2
    have "sz \<le> 2 * ((sz + 1) div 2)" by simp
    then have "2 * m + ?al + sz \<le> 2 * (m + ?u)" using kmalloc_units(1) [OF assms(2-4)] by simp
    moreover have "get_u32 (s_mem s') (2 * m) = word_of_int sz" using 2(4) by (simp add: kmalloced_def)
    moreover have "?al dvd 2 * m + ?al" using 2(5) by (rule dvd_add) simp
    ultimately show ?thesis using 2 by blast
  qed simp
qed

theorem kmalloc_small_correct_witness:
  "\<exists>s' p. do_kmalloc_node example_conf empty_slob 10 0 NUMA_NO_NODE = Inr (s', Some p) \<and> 8 dvd p"
  using kmalloc_small_correct [OF slob_inv_empty conf_ok_example(1), of 10 0 NUMA_NO_NODE] km_slob(1)
  by (auto simp: conf_ok_example PAGE_SIZE_def fresh_pages_example)

text \<open>
  C30: \<open>kfree\<close> and \<open>ksize\<close> on objects in use. \<open>kfree\<close> needs only the pointer: it reads the size from
  the header and releases exactly that object. \<open>ksize\<close> is the size rounded up to a whole unit, so
  the caller may use that many bytes and no two objects' bytes overlap.
\<close>

theorem kfree_ksize_correct:
  assumes "kinv k oth m0 s K" and "(p, sz) \<in> K"
  shows "ksize k s p = Inr (2 * ((sz + 1) div 2)) \<and>
    (\<exists>s'. kfree k s p = Inr s' \<and> kinv k oth m0 s' (K - {(p, sz)}) \<and>
      (\<forall>b \<in> K - {(p, sz)}. kbytes s' b = kbytes s b))"
proof -
  from assms have "slob_inv s (kblk k ` K \<union> oth)" "conf_ok k"
    "kmalloced k s (kblk k ` K \<union> oth) p (fst (kblk k (p, sz))) sz" by (auto simp: kinv_def)
  then have "ksize k s p = Inr (2 * ((sz + 1) div 2))" by (rule ksize_kmalloced)
  then show ?thesis using kinv_free [OF assms] by simp
qed

theorem kfree_ksize_correct_witness:
  "ksize example_conf km_slob 4104 = Inr 10 \<and>
   (\<exists>s'. kfree example_conf km_slob 4104 = Inr s' \<and> kinv example_conf {} (\<lambda>_. 0) s' {})"
  using kfree_ksize_correct [OF km_slob(2), of 4104 10] by simp

text \<open>
  Large requests bypass the slob pages. \<open>kmalloc\<close> of at least a page less the header asks the
  page allocator once, for \<open>get_order\<close> pages, and leaves the state alone; \<open>kfree\<close> of such a pointer
  gives the pages back at their compound order and touches nothing else.
\<close>

lemma kmalloc_large_correct:
  assumes "PAGE_SIZE - kmalloc_align k \<le> sz" and "fresh_pages k s" and "0 \<le> get_order k sz"
  shows "\<exists>r. do_kmalloc_node k s sz flags node = Inr (s, r) \<and>
    (\<forall>b. r = Some b \<longrightarrow>
       (\<exists>p. b = PAGE_SIZE * p \<and> p \<notin> slabs s \<and>
          kfree k s b = Inr (s\<lparr>s_freed := (p, compound_order k p) # s_freed s\<rparr>) \<and>
          ksize k s b = Inr (PAGE_SIZE * 2 ^ nat (compound_order k p))))"
proof -
  define f where "f = (if get_order k sz \<noteq> 0 then flags AND gfp_allowed_mask k OR GFP_COMP k
    else flags AND gfp_allowed_mask k)"
  define r where "r = slob_new_pages k s f (get_order k sz) node"
  have code: "do_kmalloc_node k s sz flags node = Inr (s, map_option (\<lambda>p. PAGE_SIZE * p) r)"
    using assms(1) by (simp add: do_kmalloc_node_def r_def f_def Let_def)
  have "p \<notin> slabs s \<and> kfree k s (PAGE_SIZE * p) = Inr (s\<lparr>s_freed := (p, compound_order k p) # s_freed s\<rparr>) \<and>
      ksize k s (PAGE_SIZE * p) = Inr (PAGE_SIZE * 2 ^ nat (compound_order k p))" if "r = Some p" for p
    using fresh_pagesD [OF assms(2) that [unfolded r_def]]
    by (auto simp: kfree_def ksize_def Let_def slabs_def PAGE_SIZE_def ZERO_OR_NULL_PTR_def ZERO_SIZE_PTR_def c_int)
  then show ?thesis using code by (intro exI [of _ "map_option (\<lambda>p. PAGE_SIZE * p) r"]) auto
qed

lemma kmalloc_large_correct_witness:
  "do_kmalloc_node example_conf empty_slob 4090 0 NUMA_NO_NODE = Inr (empty_slob, Some 4096) \<and>
   kfree example_conf empty_slob 4096 = Inr (empty_slob\<lparr>s_freed := [(1, 0)]\<rparr>)"
proof -
  have "do_kmalloc_node example_conf empty_slob 4090 0 NUMA_NO_NODE = Inr (empty_slob, Some 4096)"
    by (simp add: do_kmalloc_node_def conf_ok_example PAGE_SIZE_def first_page_free Let_def)
  moreover have "s_freed empty_slob = []" by (simp add: empty_slob_def)
  ultimately show ?thesis
    using kmalloc_large_correct [of example_conf 4090 empty_slob 0 NUMA_NO_NODE]
    by (auto simp: conf_ok_example PAGE_SIZE_def fresh_pages_example)
qed

subsection \<open>Object caches and statistics\<close>

text \<open>
  C28: Delayed free. Freeing an object of a \<open>SLAB_DESTROY_BY_RCU\<close> cache only queues it: the allocator
  state and every byte outside the object's footer stay as they were, so readers may still use
  it. When the callback runs later, in any consistent state that still has the object and its
  footer size, it finds the start of the object and frees exactly that object.
\<close>

theorem rcu_delayed_free:
  assumes "slob_inv s L" and "c_flags c AND SLAB_DESTROY_BY_RCU k \<noteq> 0" and "(b, SLOB_UNITS (c_size c)) \<in> L"
    and "sizeof_slob_rcu \<le> c_size c" and "c_size c < PAGE_SIZE"
    and "head = 2 * b + (c_size c - sizeof_slob_rcu)"
  shows "\<exists>s'. kmem_cache_free k s c (2 * b) = Inr s' \<and> slob_inv s' L \<and> s_rcu s' = head # s_rcu s \<and>
      (\<forall>x. x < head \<or> head + sizeof_slob_rcu \<le> x \<longrightarrow> get_byte (s_mem s') x = get_byte (s_mem s) x) \<and>
      (\<forall>t L'. slob_inv t L' \<and> (b, SLOB_UNITS (c_size c)) \<in> L' \<and>
         get_u32 (s_mem t) (head + offsetof_rcu_size) = get_u32 (s_mem s') (head + offsetof_rcu_size) \<longrightarrow>
         (\<exists>t'. run_rcu k t head = Inr t' \<and> slob_inv t' (L' - {(b, SLOB_UNITS (c_size c))})))"
proof -
  have "\<not> no_rcu k c" using assms(2) by (simp add: no_rcu_def)
  from kmem_cache_free_rcu [OF assms(1) this assms(3-6)] obtain s' where
    "kmem_cache_free k s c (2 * b) = Inr s'" "slob_inv s' L" "s_rcu s' = head # s_rcu s"
    "get_u32 (s_mem s') (head + offsetof_rcu_size) = word_of_int (c_size c)"
    "\<forall>x. x < head \<or> head + sizeof_slob_rcu \<le> x \<longrightarrow> get_byte (s_mem s') x = get_byte (s_mem s) x" by blast
  then show ?thesis using run_rcu_wf [OF _ _ assms(4-6)] by metis
qed

definition rcu_cache :: kmem_cache where
  "rcu_cache = \<lparr>c_size = 18, c_align = 0, c_flags = 0x80000, c_ctor = None\<rparr>"

theorem rcu_delayed_free_witness:
  "\<exists>s'. kmem_cache_free example_conf one_slob rcu_cache 4096 = Inr s' \<and> slob_inv s' {(2048, 9)} \<and>
     (\<exists>t'. run_rcu example_conf s' 4102 = Inr t' \<and> slob_inv t' {})"
proof -
  have "\<exists>s'. kmem_cache_free example_conf one_slob rcu_cache 4096 = Inr s' \<and> slob_inv s' {(2048, 9)} \<and>
      (\<forall>t L'. slob_inv t L' \<and> (2048, 9) \<in> L' \<and>
         get_u32 (s_mem t) (4102 + offsetof_rcu_size) = get_u32 (s_mem s') (4102 + offsetof_rcu_size) \<longrightarrow>
         (\<exists>t'. run_rcu example_conf t 4102 = Inr t' \<and> slob_inv t' (L' - {(2048, 9)})))"
    using rcu_delayed_free [OF one_slob(2), of rcu_cache example_conf 2048 4102]
    by (auto simp: rcu_cache_def sizeof_slob_rcu_def PAGE_SIZE_def SLOB_UNITS_eq)
  then show ?thesis by fastforce
qed

text \<open>
  The system calls report exact numbers. In a consistent state \<open>sys_slob_units_used\<close> is the sum of
  the units of the live blocks and \<open>sys_slob_units_free\<close> the rest of the slab pages; the 32-bit
  arithmetic does not wrap.
\<close>

lemma units_used_free_exact:
  assumes "slob_inv s L"
  shows "sys_slob_units_used s = (\<Sum>x \<in> L. snd x) \<and>
    sys_slob_units_free s = PU * int (card (slabs s)) - (\<Sum>x \<in> L. snd x)"
  using units_exact [OF assms] by simp

lemma units_used_free_exact_witness:
  "sys_slob_units_used frag_slob = 4082 \<and> sys_slob_units_free frag_slob = 14"
proof -
  have "slabs frag_slob = {1, 2}" by (auto simp: slabs_def frag_slob_def)
  then show ?thesis using units_used_free_exact [OF frag_inv] by (simp add: frag_live_def)
qed

end
