(* ===== verification/Slob_Race.thy ===== *)
theory Slob_Race
  imports Slob_Examples
begin

text \<open>
  The page counter of \<open>assignments/a4/slob.c\<close> on several processors, and the system calls that use it.
  \<open>pages++\<close> (line 355) and \<open>pages--\<close> (line 390) come after \<open>slob_lock\<close> has been released: an update can
  be lost. With one processor none is.
\<close>

subsection \<open>One processor\<close>

text \<open>With one processor the counter is right whenever it has nothing left to do.\<close>

fun counts_to :: "todo \<Rightarrow> 32 word \<Rightarrow> 32 word" where
  "counts_to (Load_pages d) c = c + d"
| "counts_to (Store_pages v) c = v"
| "counts_to (Give_back p) c = c - 1"
| "counts_to _ c = c"

definition solo_inv :: "smp \<Rightarrow> bool" where
  "solo_inv x \<longleftrightarrow> smp_inv 1 x \<and> counts_to (r_todo x 0) (s_pages (r_slob x)) = page_count (r_slob x)"

lemma solo_count:
  assumes inv: "solo_inv x" and "smp_step k 1 x y"
  shows "counts_to (r_todo y 0) (s_pages (r_slob y)) = page_count (r_slob y)"
proof -
  from inv have wf: "slob_wf (r_slob x) (r_live x)" and ok: "todo_ok (r_todo x 0)" "transit (r_todo x 0) \<inter> slabs (r_slob x) = {}"
    and fin: "finite (slabs (r_slob x))" and c: "counts_to (r_todo x 0) (s_pages (r_slob x)) = page_count (r_slob x)"
    using slob_wfD(3) by (auto simp: solo_inv_def smp_inv_def)
  from assms(2) show ?thesis
  proof cases
    case (search i sz al node s' a)
    with slob_search_section [OF wf search(4), of k node "slob_list_for sz"] c show ?thesis by auto
  next
    case (search_fails i sz al node s')
    with slob_search_section [OF wf search_fails(4), of k node "slob_list_for sz"] c show ?thesis by auto
  next
    case (install i p sz al s' a)
    with ok slob_new_section [OF wf, of sz al p "slob_list_for sz"] c fin show ?thesis by (auto simp: add.commute)
  next
    case (release i b sz s')
    have "1 \<le> card (slabs (r_slob x))" using slob_free_section(3) [OF wf release(4-6)] fin by (auto simp: Suc_le_eq card_gt_0_iff)
    with release c slob_free_section(2,3) [OF wf release(4-6)] fin show ?thesis by (auto simp: card_Diff_singleton of_nat_diff)
  next
    case (give_back i p)
    with c show ?thesis by simp
  qed (use c in \<open>auto simp: slabs_def\<close>)
qed

lemma solo_step: "solo_inv x \<Longrightarrow> smp_step k 1 x y \<Longrightarrow> solo_inv y"
  using solo_count smp_step_inv unfolding solo_inv_def by blast

lemma solo_boot: "smp_boot x \<Longrightarrow> solo_inv x"
  using smp_boot_inv [of x 1] by (auto simp: smp_boot_def slob_boot_def solo_inv_def slabs_def)

interpretation solo_run: invariant_system smp_boot "smp_step k 1" solo_inv for k
  by unfold_locales (rule solo_boot, assumption, rule solo_step)

subsection \<open>What the system calls report\<close>

text \<open>
  \<open>sys_slob_units_used\<close> reads the counter without the lock, and \<open>free_units\<close> takes the lock: other
  processors may run in between. Here \<open>pg\<close> is the value read, and \<open>s\<close> the state when the lock is held.
\<close>

definition units_used_read :: "32 word \<Rightarrow> slob \<Rightarrow> int" where
  "units_used_read pg s = sint (word_of_int (SLOB_UNITS PAGE_SIZE) * pg - free_units s)"

lemma units_used_read_once: "sys_slob_units_used s = units_used_read (s_pages s) s"
  by (simp add: sys_slob_units_used_def units_used_read_def)

lemma free_units_count [simp]: "free_units (s\<lparr>s_pages := c\<rparr>) = free_units s"
  by (simp add: free_units_def sum_list_units_def)

lemma units_free_wf:
  assumes "slob_wf s L"
  shows "sys_slob_units_free s = PU * int (card (slabs s)) - (\<Sum>x \<in> L. snd x)"
  using units_exact(2) [of "s\<lparr>s_pages := page_count s\<rparr>" L] assms
  by (simp add: slob_inv_def sys_slob_units_free_def)

lemma units_used_read_wf:
  assumes wf: "slob_wf s L"
  shows "units_used_read pg s =
    sint (word_of_int (\<Sum>x \<in> L. snd x) + word_of_int PU * (pg - page_count s) :: 32 word)"
proof -
  have "(\<Sum>p \<in> slabs s. pg_units (s_pg s p)) = PU * int (card (slabs s)) - (\<Sum>x \<in> L. snd x)"
    using wf by (simp add: slob_wf_def)
  then have "free_units s = word_of_int PU * page_count s - word_of_int (\<Sum>x \<in> L. snd x)"
    by (simp add: free_units_slabs [OF wf])
  then show ?thesis
    by (simp only: units_used_read_def SLOB_UNITS_PAGE_SIZE right_diff_distrib) (simp add: diff_diff_eq2 add.commute add_diff_eq)
qed

subsection \<open>A lost update\<close>

text \<open>A second caller, whose search had also failed, adds a page after the first one.\<close>

definition two_slob :: slob where
  "two_slob = (case slob_alloc_new one_slob 18 0 Small 2 of Inr (s, _) \<Rightarrow> s | Inl _ \<Rightarrow> one_slob)"

lemma two_slob:
  "slob_alloc_new one_slob 18 0 Small 2 = Inr (two_slob, Some 4096)"
  "slob_inv two_slob {(4096, 9), (2048, 9)}" "slabs two_slob = {1, 2}"
proof -
  have "(2::int) \<notin> slabs one_slob" by (simp add: one_slabs)
  from slob_grow_inv [OF one_slob(2) example_req this, of Small] obtain s' where
    "slob_alloc_new one_slob 18 0 Small 2 = Inr (s', Some 4096)" "slob_inv s' {(4096, 9), (2048, 9)}"
    "slabs s' = {2, 1}" by (simp add: example_size one_slabs) blast
  then show "slob_alloc_new one_slob 18 0 Small 2 = Inr (two_slob, Some 4096)"
    "slob_inv two_slob {(4096, 9), (2048, 9)}" "slabs two_slob = {1, 2}"
    by (simp_all add: two_slob_def insert_commute)
qed

lemma slob_alloc_new_shift:
  assumes "slob_alloc_new s sz al c sp = Inr (s', Some a)"
  shows "slob_alloc_new (s\<lparr>s_pages := w\<rparr>) sz al c sp = Inr (s'\<lparr>s_pages := w + (s_pages s' - s_pages s)\<rparr>, Some a)"
  using assms
  by (auto simp: slob_alloc_new_def slob_page_alloc_def slob_page_take_def clear_slob_page_free_def
      set_slob_page_free_def upd_page_def Let_def split: if_splits option.splits prod.splits)

text \<open>The two processors run their sections, then both read the counter, then both write it.\<close>

definition lost_update :: smp where
  "lost_update = \<lparr>r_slob = two_slob\<lparr>s_pages := 1\<rparr>, r_live = {(4096, 9), (2048, 9)}, r_todo = (\<lambda>_. Idle)\<rparr>"

lemma lost_update_reach: "smp_reach k 2 lost_update"
proof -
  let ?x = "\<lambda>s L f. \<lparr>r_slob = s, r_live = L, r_todo = f\<rparr>" and ?L = "{(4096, 9), (2048, 9)} :: (int \<times> int) set"
  let ?one = "one_slob\<lparr>s_pages := 0\<rparr>" and ?two = "two_slob\<lparr>s_pages := 0\<rparr>" and ?I = "\<lambda>_. Idle"
  note req = example_req and z = example_size
  have 1: "smp_reach k 2 (?x empty_slob {} (?I(0 := New_page 18 0)))"
    using smp_reach_record(1) [OF boot_reach [of k 2], of 0 18 0] req by (simp add: z empty_slob_def)
  have 2: "smp_reach k 2 (?x empty_slob {} (?I(0 := New_page 18 0, 1 := New_page 18 0)))"
    using smp_reach_record(1) [OF 1, of 1 18 0] req by (simp add: z empty_slob_def)
  have 3: "smp_reach k 2 (?x empty_slob {} (?I(1 := New_page 18 0, 0 := Install 1 18 0)))"
    using smp_reach_record(2) [OF 2, of 0 18 0 1] by (simp add: slabs_def empty_slob_def fun_upd_twist)
  have 4: "smp_reach k 2 (?x empty_slob {} (?I(0 := Install 1 18 0, 1 := Install 2 18 0)))"
    using smp_reach_record(2) [OF 3, of 1 18 0 2] by (simp add: slabs_def empty_slob_def fun_upd_twist)
  have 5: "smp_reach k 2 (?x ?one {(2048, 9)} (?I(1 := Install 2 18 0, 0 := Load_pages 1)))"
    using smp_reach_record(3) [OF 4, of 0 1 18 0 one_slob 2048] one_slob(1) by (simp add: z fun_upd_twist) (simp add: empty_slob_def)
  have "slob_alloc_new ?one 18 0 Small 2 = Inr (two_slob\<lparr>s_pages := 1\<rparr>, Some 4096)"
    using slob_alloc_new_shift [OF two_slob(1), of 0] two_slob(2,3) one_slabs by (simp add: slob_inv_def)
  then have 6: "smp_reach k 2 (?x ?two ?L (?I(0 := Load_pages 1, 1 := Load_pages 1)))"
    using smp_reach_record(3) [OF 5, of 1 2 18 0 "two_slob\<lparr>s_pages := 1\<rparr>" 4096] by (simp add: z fun_upd_twist)
  have 7: "smp_reach k 2 (?x ?two ?L (?I(1 := Load_pages 1, 0 := Store_pages 1)))"
    using smp_reach_record(4) [OF 6, of 0 1] by (simp add: fun_upd_twist)
  have 8: "smp_reach k 2 (?x ?two ?L (?I(0 := Store_pages 1, 1 := Store_pages 1)))"
    using smp_reach_record(4) [OF 7, of 1 1] by (simp add: fun_upd_twist)
  have 9: "smp_reach k 2 (?x (two_slob\<lparr>s_pages := 1\<rparr>) ?L (?I(1 := Store_pages 1, 0 := Idle)))"
    using smp_reach_record(5) [OF 8, of 0 1] by (simp add: fun_upd_twist)
  show ?thesis
    using smp_reach_record(5) [OF 9, of 1 1] by (simp add: lost_update_def fun_upd_twist fun_upd_idem)
qed

subsection \<open>Properties\<close>

text \<open>
  C3: Under any interleaving of the processors from boot, everything in the allocator but the counter
  \<open>pages\<close> is consistent with the live blocks, and no critical section can fault: a search ends with a
  block or nothing, a page that a processor got serves its request wherever the others have come in
  between (the \<open>BUG_ON\<close> of line 353 never fires), and a free of a live block succeeds.
\<close>

theorem slob_reachable_safe:
  assumes "smp_reach k n x"
  shows "slob_wf (r_slob x) (r_live x) \<and>
    (\<forall>sz al node f. slob_req_ok (sz, al) \<longrightarrow>
      slob_alloc_list k (r_slob x) sz al node (slob_list_for sz) (s_list (r_slob x) (slob_list_for sz)) \<noteq> Inl f) \<and>
    (\<forall>i p sz al. r_todo x i = Install p sz al \<longrightarrow>
      (\<exists>s'. slob_alloc_new (r_slob x) sz al (slob_list_for sz) p = Inr (s', Some (PU * p)))) \<and>
    (\<forall>b sz. (b, SLOB_UNITS sz) \<in> r_live x \<and> sz \<noteq> 0 \<longrightarrow> (\<exists>s'. slob_free (r_slob x) (2 * b) sz = Inr s'))"
proof (intro conjI allI impI)
  from smp_run.reach_inv [OF assms] show wf: "slob_wf (r_slob x) (r_live x)" by (simp add: smp_inv_def)
  show "slob_alloc_list k (r_slob x) sz al node (slob_list_for sz) (s_list (r_slob x) (slob_list_for sz)) \<noteq> Inl f"
    if "slob_req_ok (sz, al)" for sz al node f
    using slob_search_section [OF wf that, of k node "slob_list_for sz"] by auto
  show "\<exists>s'. slob_alloc_new (r_slob x) sz al (slob_list_for sz) p = Inr (s', Some (PU * p))"
    if "r_todo x i = Install p sz al" for i p sz al
  proof -
    from smp_run.reach_inv [OF assms] have "todo_ok (r_todo x i)" "transit (r_todo x i) \<inter> slabs (r_slob x) = {}"
      by (simp_all add: smp_inv_def)
    with that slob_new_section [OF wf, of sz al p "slob_list_for sz"] show ?thesis by auto
  qed
  show "\<exists>s'. slob_free (r_slob x) (2 * b) sz = Inr s'" if "(b, SLOB_UNITS sz) \<in> r_live x \<and> sz \<noteq> 0" for b sz
    using slob_free_total [OF wf] that by blast
qed

theorem slob_reachable_safe_witness:
  "(\<exists>s'. slob_alloc_new empty_slob 18 0 Small 1 = Inr (s', Some 2048)) \<and>
   (\<exists>s'. slob_free (two_slob\<lparr>s_pages := 1\<rparr>) 8192 18 = Inr s')"
proof -
  let ?x = "\<lparr>r_slob = empty_slob, r_live = {}, r_todo = (\<lambda>_. Idle)(0 := Install 1 18 0)\<rparr>"
  have "smp_reach example_conf 2 ?x" by (rule install_reach) simp
  moreover have "r_todo ?x 0 = Install 1 18 0" by simp
  ultimately have "\<exists>s'. slob_alloc_new (r_slob ?x) 18 0 (slob_list_for 18) 1 = Inr (s', Some (PU * 1))"
    using slob_reachable_safe by blast
  moreover have "(4096, SLOB_UNITS 18) \<in> r_live lost_update \<and> (18::int) \<noteq> 0" by (simp add: lost_update_def example_size)
  then have "\<exists>s'. slob_free (r_slob lost_update) (2 * 4096) 18 = Inr s'"
    using slob_reachable_safe [OF lost_update_reach [of example_conf]] by blast
  ultimately show ?thesis by (simp add: lost_update_def example_size)
qed

text \<open>
  C7: No page is kept idle. In every reachable state a page marked as a slab page either holds a live
  block, or exactly one processor is about to install it or to give it back, and never both. So once
  every block has been freed and all processors have left the allocator, every page has gone back to
  the page allocator; with one processor \<open>pages\<close> is then 0.
\<close>

theorem slob_no_idle_pages:
  assumes "smp_reach k n x"
  shows "(\<forall>p \<in> slab_pages x. (\<exists>(a, u) \<in> r_live x. a div PU = p) \<longleftrightarrow> \<not> (\<exists>!i. p \<in> transit (r_todo x i))) \<and>
    (r_live x = {} \<and> r_todo x = (\<lambda>_. Idle) \<longrightarrow> slab_pages x = {} \<and> (n = 1 \<longrightarrow> s_pages (r_slob x) = 0))"
proof -
  from smp_run.reach_inv [OF assms] have wf: "slob_wf (r_slob x) (r_live x)" and idle: "no_idle (r_slob x) (r_live x)"
    and out: "\<And>i. transit (r_todo x i) \<inter> slabs (r_slob x) = {}"
    and one: "\<And>i j. i \<noteq> j \<Longrightarrow> transit (r_todo x i) \<inter> transit (r_todo x j) = {}" by (simp_all add: smp_inv_def)
  have live: "(\<exists>(a, u) \<in> r_live x. a div PU = p) \<longleftrightarrow> p \<in> slabs (r_slob x)" for p
    using idle slob_wfD(1) [OF wf] by (fastforce simp: no_idle_def live_ok_def)
  have "(\<exists>(a, u) \<in> r_live x. a div PU = p) \<longleftrightarrow> \<not> (\<exists>!i. p \<in> transit (r_todo x i))" if "p \<in> slab_pages x" for p
    using that out one unfolding live slab_pages_def by blast
  moreover have "slab_pages x = {} \<and> (n = 1 \<longrightarrow> s_pages (r_slob x) = 0)" if "r_live x = {}" "r_todo x = (\<lambda>_. Idle)"
  proof -
    have "slabs (r_slob x) = {}" using live that(1) by blast
    then show ?thesis using that(2) solo_run.reach_inv [of k x] assms by (auto simp: slab_pages_def solo_inv_def)
  qed
  ultimately show ?thesis by blast
qed

text \<open>One processor allocates a block, which takes a page, and frees it again, which gives the page back.\<close>

lemma one_slob_released:
  assumes "slob_free one_slob 4096 18 = Inr s'" shows "\<not> pg_slab (s_pg s' 1)"
proof -
  have wf: "slob_wf one_slob {(2048, 9)}" using one_slob(2) by (simp add: slob_inv_def)
  from only_block [OF wf, of 2048 9] have "pg_units (s_pg one_slob 1) + 9 = PU" by simp
  with slob_free_slabs [of one_slob 2048 18 s'] assms have "slabs s' = slabs one_slob - {1}"
    using live_block_address(1) [OF wf, of 2048 9] by (simp add: example_size c_int)
  then show ?thesis by (auto simp: slabs_def)
qed

theorem slob_no_idle_pages_witness:
  "\<exists>x. smp_reach example_conf 1 x \<and> s_freed (r_slob x) = [(1, 0)] \<and> slab_pages x = {} \<and> s_pages (r_slob x) = 0"
proof -
  let ?R = "smp_reach example_conf 1" and ?I = "\<lambda>_. Idle" and ?x = "\<lambda>s L f. \<lparr>r_slob = s, r_live = L, r_todo = f\<rparr>"
  have 1: "?R (?x (one_slob\<lparr>s_pages := 0\<rparr>) {(2048, 9)} (?I(0 := Load_pages 1)))"
    using smp_reach_record(3) [OF install_reach, of 1 0 1 18 0 one_slob 2048] one_slob(1) by (simp add: example_size) (simp add: empty_slob_def)
  have 2: "?R (?x (one_slob\<lparr>s_pages := 0\<rparr>) {(2048, 9)} (?I(0 := Store_pages 1)))"
    using smp_reach_record(4) [OF 1, of 0 1] by simp
  have "one_slob\<lparr>s_pages := 1\<rparr> = one_slob" using one_slabs(2) by (cases one_slob) simp
  then have 3: "?R (?x one_slob {(2048, 9)} ?I)"
    using smp_reach_record(5) [OF 2, of 0 1] by (simp add: fun_upd_idem)
  obtain s' where f: "slob_free one_slob 4096 18 = Inr s'"
    using slob_free_wf [OF one_slob(2), of 2048 18] by (auto simp: example_size)
  let ?s = "locked_part one_slob s'" and ?t = "slob_free_pages (locked_part one_slob s') PU 0"
  have 4: "?R (?x ?s {} (?I(0 := Give_back 1)))"
    using reach_step [OF 3 smp_step.release [of 0 1 _ 2048 18 s']] f one_slob_released [OF f] by (simp add: example_size goes_to_def)
  have 5: "?R (?x ?t {} (?I(0 := Load_pages (- 1))))"
    using reach_step [OF 4 smp_step.give_back [of 0 1 _ 1]] by (simp add: goes_to_def)
  have 6: "?R (?x ?t {} (?I(0 := Store_pages 0)))"
    using smp_reach_record(4) [OF 5, of 0 "- 1"] one_slabs(2) by simp
  have 7: "?R (?x (?t\<lparr>s_pages := 0\<rparr>) {} ?I)"
    using smp_reach_record(5) [OF 6, of 0 0] by (simp add: fun_upd_idem)
  have "s_freed one_slob = []"
    using arg_cong [OF slob_alloc_new_locked [OF one_slob(1)], of s_freed] by (simp add: locked_part_def) (simp add: empty_slob_def)
  then have "s_freed (?t\<lparr>s_pages := 0\<rparr>) = [(1, 0)]" by (simp add: slob_free_pages_def locked_part_def)
  with slob_no_idle_pages [OF 7] 7 show ?thesis by (intro exI [of _ "?x (?t\<lparr>s_pages := 0\<rparr>) {} ?I"]) simp
qed

text \<open>
  C8: With any number of processors the unlocked updates of \<open>pages\<close> leave everything but the counter
  consistent: \<open>sys_slob_units_free\<close> is exact, and \<open>sys_slob_units_used\<close> is wrong by whole pages, as many
  as updates have been lost. With one processor none is lost: whenever it is between calls the
  whole invariant holds, and so both numbers are exact.
\<close>

theorem slob_race_safe:
  assumes "smp_reach k n x"
  shows "slob_wf (r_slob x) (r_live x) \<and>
    sys_slob_units_free (r_slob x) = PU * int (card (slabs (r_slob x))) - (\<Sum>b \<in> r_live x. snd b) \<and>
    sys_slob_units_used (r_slob x) = sint (word_of_int (\<Sum>b \<in> r_live x. snd b) +
      word_of_int PU * (s_pages (r_slob x) - of_nat (card (slabs (r_slob x)))) :: 32 word) \<and>
    (n = 1 \<and> r_todo x 0 = Idle \<longrightarrow> slob_inv (r_slob x) (r_live x) \<and>
       sys_slob_units_used (r_slob x) = (\<Sum>b \<in> r_live x. snd b))"
proof -
  have wf: "slob_wf (r_slob x) (r_live x)" using smp_run.reach_inv [OF assms] by (simp add: smp_inv_def)
  moreover have "slob_inv (r_slob x) (r_live x)" if "n = 1" "r_todo x 0 = Idle"
    using solo_run.reach_inv [of k x] assms that wf by (simp add: solo_inv_def slob_inv_def)
  ultimately show ?thesis using units_free_wf [OF wf] units_used_read_wf [OF wf] units_used_read_once units_exact(1) by metis
qed

theorem slob_race_safe_witness:
  "slob_wf (r_slob lost_update) (r_live lost_update) \<and> sys_slob_units_free (r_slob lost_update) = 4078"
  using slob_race_safe [OF lost_update_reach] by (simp add: lost_update_def two_slob)

text \<open>
  C37: What two processors can do to \<open>sys_slob_units_used\<close>. Each adds a page for a request of 18 bytes,
  and one of the two updates of \<open>pages\<close> is lost: once both have returned, 18 units are in use and the
  system call answers -2030. Even with no update lost, the counter may be read before, and the
  free units after, the critical section of another processor: it then answers -2039 with 9
  units in use.
\<close>

theorem slob_lost_update:
  "(\<exists>x. smp_reach k 2 x \<and> r_todo x = (\<lambda>_. Idle) \<and> (\<Sum>b \<in> r_live x. snd b) = 18 \<and>
      sys_slob_units_used (r_slob x) = -2030) \<and>
   (\<exists>x y. smp_reach k 2 x \<and> smp_step k 2 x y \<and> (\<Sum>b \<in> r_live y. snd b) = 9 \<and>
      units_used_read (s_pages (r_slob x)) (r_slob y) = -2039)"
proof
  have "slob_wf (two_slob\<lparr>s_pages := 1\<rparr>) {(4096, 9), (2048, 9)}" using two_slob(2) by (simp add: slob_inv_def)
  from units_used_read_wf [OF this] have "sys_slob_units_used (r_slob lost_update) = -2030"
    by (simp add: lost_update_def two_slob units_used_read_once)
  then show "\<exists>x. smp_reach k 2 x \<and> r_todo x = (\<lambda>_. Idle) \<and> (\<Sum>b \<in> r_live x. snd b) = 18 \<and>
      sys_slob_units_used (r_slob x) = -2030"
    using lost_update_reach [of k] by (intro exI [of _ lost_update]) (simp add: lost_update_def)
  let ?x = "\<lparr>r_slob = empty_slob, r_live = {}, r_todo = (\<lambda>_. Idle)(0 := Install 1 18 0)\<rparr>"
  have x: "smp_reach k 2 ?x" by (rule install_reach) simp
  let ?y = "\<lparr>r_slob = one_slob\<lparr>s_pages := 0\<rparr>, r_live = {(2048, 9)}, r_todo = (\<lambda>_. Idle)(0 := Load_pages 1)\<rparr>"
  have "smp_step k 2 ?x ?y"
    using smp_step.install [of 0 2 ?x 1 18 0 one_slob 2048 k] one_slob(1) slob_alloc_new_locked [OF one_slob(1)]
    by (simp add: example_size goes_to_def) (simp add: empty_slob_def)
  moreover have "slob_wf (one_slob\<lparr>s_pages := 0\<rparr>) {(2048, 9)}" using one_slob(2) by (simp add: slob_inv_def)
  from units_used_read_wf [OF this, of 0] have "units_used_read 0 (r_slob ?y) = -2039" by (simp add: one_slabs)
  ultimately show "\<exists>x y. smp_reach k 2 x \<and> smp_step k 2 x y \<and> (\<Sum>b \<in> r_live y. snd b) = 9 \<and>
      units_used_read (s_pages (r_slob x)) (r_slob y) = -2039"
    using x by (intro exI [of _ ?x] exI [of _ ?y]) (simp add: empty_slob_def)
qed

end
