(* ===== verification/Elevator.thy ===== *)
theory Elevator
  imports Prelude "HOL-Library.Multiset"
begin

text \<open>
  What the block layer relies on of an I/O scheduler's dispatch function, and what follows when it
  drains the scheduler by dispatching until nothing is left.
\<close>

locale elevator =
  fixes pending :: "'s \<Rightarrow> 'r list" and sent :: "'s \<Rightarrow> 'r list" and dispatch :: "'s \<Rightarrow> 's \<times> int"
  assumes dispatch_empty: "pending s = [] \<Longrightarrow> dispatch s = (s, 0)"
    and dispatch_one: "pending s \<noteq> [] \<Longrightarrow>
      \<exists>r \<in> set (pending s). snd (dispatch s) = 1 \<and> sent (fst (dispatch s)) = sent s @ [r] \<and>
        mset (pending (fst (dispatch s))) = mset (pending s) - {#r#}"
begin

lemma dispatch_length:
  assumes "pending s \<noteq> []"
  shows "length (pending s) = Suc (length (pending (fst (dispatch s))))"
proof -
  from dispatch_one [OF assms] obtain r where r: "r \<in> set (pending s)"
    "mset (pending (fst (dispatch s))) = mset (pending s) - {#r#}" by blast
  then have "size (mset (pending s)) = Suc (size (mset (pending (fst (dispatch s)))))"
    by (simp add: size_Suc_Diff1)
  then show ?thesis by simp
qed

lemma drain:
  "pending (((fst \<circ> dispatch) ^^ length (pending s)) s) = [] \<and>
   (\<exists>rs. sent (((fst \<circ> dispatch) ^^ length (pending s)) s) = sent s @ rs \<and> mset rs = mset (pending s))"
proof (induction "length (pending s)" arbitrary: s)
  case 0
  then show ?case by simp
next
  case (Suc n)
  then have ne: "pending s \<noteq> []" by auto
  from dispatch_one [OF ne] obtain r where r: "r \<in> set (pending s)"
    "sent (fst (dispatch s)) = sent s @ [r]"
    "mset (pending (fst (dispatch s))) = mset (pending s) - {#r#}" by blast
  let ?s = "fst (dispatch s)"
  have len: "length (pending s) = Suc n" "n = length (pending ?s)"
    using Suc(2) dispatch_length [OF ne] by auto
  have it: "((fst \<circ> dispatch) ^^ length (pending s)) s = ((fst \<circ> dispatch) ^^ length (pending ?s)) ?s"
    unfolding len(1) len(2) [symmetric] by (simp only: funpow_Suc_right o_apply)
  from Suc(1) [OF len(2)] obtain rs where rs: "pending (((fst \<circ> dispatch) ^^ length (pending ?s)) ?s) = []"
    "sent (((fst \<circ> dispatch) ^^ length (pending ?s)) ?s) = sent ?s @ rs" "mset rs = mset (pending ?s)" by blast
  have "mset (r # rs) = mset (pending s)" using rs(3) r(1,3) by simp
  then show ?case unfolding it using rs(1,2) r(2) by (intro conjI exI [of _ "r # rs"]) auto
qed

lemma drain_done: "snd (dispatch (((fst \<circ> dispatch) ^^ length (pending s)) s)) = 0"
  using drain [of s] dispatch_empty by auto

end

end
