(* ===== verification/Sstf.thy ===== *)
theory Sstf
  imports Klist Elevator
begin

text \<open>
  The I/O scheduler, \<open>assignments/a2/sstf-iosched.c\<close>. The queue is a kernel list; its head is not a
  request, and where \<open>sstf_add_request\<close> reads the head as one, the position it gets is the
  parameter \<open>g\<close> (whatever lies in memory there). Requests come from the block layer, which
  never adds one that is still queued.
\<close>

subsection \<open>Data\<close>

text \<open>\<open>struct request\<close>, as far as the scheduler reads it: an identity, \<open>blk_rq_pos\<close> and \<open>blk_rq_sectors\<close>.\<close>

record request =
  rq_id :: nat
  blk_rq_pos :: "64 word"
  blk_rq_sectors :: "32 word"

record sstf_data =
  queue :: "request list"
  direction :: char
  sector :: "64 word"

text \<open>The scheduler's data and the dispatch list that \<open>elv_dispatch_add_tail\<close> appends to.\<close>

record sstf_queue =
  elevator_data :: sstf_data
  dispatched :: "request list"

subsection \<open>Operations\<close>

definition sstf_merged_requests :: "sstf_queue \<Rightarrow> request \<Rightarrow> request \<Rightarrow> sstf_queue" where
  "sstf_merged_requests q rq nx =
     (let nd = elevator_data q in q\<lparr>elevator_data := nd\<lparr>queue := klist_del (queue nd) nx\<rparr>\<rparr>)"

text \<open>The choice of \<open>sstf_dispatch\<close> (lines 33-78): the request and the new direction.\<close>

definition sstf_choose :: "sstf_data \<Rightarrow> request \<Rightarrow> request \<Rightarrow> request \<times> char" where
  "sstf_choose nd prev next =
     (if prev \<noteq> next then
        (if direction nd = CHR ''B'' then
           (if sector nd \<ge> blk_rq_pos prev then (prev, direction nd) else (next, CHR ''F''))
         else
           (if sector nd \<ge> blk_rq_pos next then (next, direction nd) else (prev, CHR ''B'')))
      else (next, direction nd))"

definition sstf_dispatch :: "sstf_queue \<Rightarrow> sstf_queue \<times> int" where
  "sstf_dispatch q =
     (let nd = elevator_data q in
      case (klist_prev (queue nd) None, klist_next (queue nd) None) of
        (Some prev, Some next) \<Rightarrow>
          (let (rq, dir) = sstf_choose nd prev next in
           (q\<lparr>elevator_data := nd\<lparr>queue := klist_del (queue nd) rq, direction := dir,
                sector := ucast (blk_rq_sectors rq) + blk_rq_pos rq\<rparr>,
              dispatched := dispatched q @ [rq]\<rparr>, 1))
      | _ \<Rightarrow> (q, 0))"

text \<open>\<open>blk_rq_pos\<close> of a node of the list, with \<open>g\<close> for the head.\<close>

definition node_pos :: "64 word \<Rightarrow> request option \<Rightarrow> 64 word" where
  "node_pos g nd = (case nd of None \<Rightarrow> g | Some r \<Rightarrow> blk_rq_pos r)"

text \<open>The loop of lines 104-109; it may not end.\<close>

partial_function (option) sstf_find ::
  "request list \<Rightarrow> 64 word \<Rightarrow> request \<Rightarrow> request option \<Rightarrow> request option \<Rightarrow> request option option" where
  "sstf_find xs g rq prev nx =
     (if node_pos g nx \<le> blk_rq_pos rq
      then sstf_find xs g rq (klist_prev xs prev) (klist_next xs nx)
      else Some prev)"

definition sstf_add_request :: "64 word \<Rightarrow> sstf_queue \<Rightarrow> request \<Rightarrow> sstf_queue result" where
  "sstf_add_request g q rq =
     (let nd = elevator_data q; xs = queue nd in
      if xs \<noteq> [] then
        (case sstf_find xs g rq (klist_prev xs None) (klist_next xs None) of
           None \<Rightarrow> Inl Hang
         | Some prev \<Rightarrow> Inr (q\<lparr>elevator_data := nd\<lparr>queue := klist_add xs prev rq\<rparr>\<rparr>))
      else Inr (q\<lparr>elevator_data := nd\<lparr>queue := klist_add xs None rq\<rparr>\<rparr>))"

definition sstf_former_request :: "sstf_queue \<Rightarrow> request \<Rightarrow> request option" where
  "sstf_former_request q rq = klist_prev (queue (elevator_data q)) (Some rq)"

definition sstf_latter_request :: "sstf_queue \<Rightarrow> request \<Rightarrow> request option" where
  "sstf_latter_request q rq = klist_next (queue (elevator_data q)) (Some rq)"

text \<open>
  \<open>sstf_init_queue\<close> with the answers of \<open>elevator_alloc\<close> and \<open>kmalloc_node\<close> (did they return an
  object?). The result is the return code, the elevator set on the queue, if any, and the objects
  still held: elevators and \<open>sstf_data\<close>.
\<close>

definition ENOMEM :: int where "ENOMEM = 12"

definition sstf_init_queue :: "bool \<Rightarrow> bool \<Rightarrow> int \<times> sstf_data option \<times> nat \<times> nat" where
  "sstf_init_queue eq_ok nd_ok =
     (if \<not> eq_ok then (- ENOMEM, None, 0, 0)
      else if \<not> nd_ok then (- ENOMEM, None, 0, 0)
      else (0, Some \<lparr>queue = [], direction = CHR ''F'', sector = 0\<rparr>, 1, 1))"

text \<open>\<open>sstf_exit_queue\<close>: the number of \<open>sstf_data\<close> objects freed, or the \<open>BUG_ON\<close>.\<close>

definition sstf_exit_queue :: "sstf_data \<Rightarrow> nat result" where
  "sstf_exit_queue nd = (if queue nd \<noteq> [] then Inl Bug else Inr 1)"

subsection \<open>Adding\<close>

text \<open>How many requests at the front of the queue are not beyond the new one.\<close>

definition passed :: "request list \<Rightarrow> request \<Rightarrow> nat" where
  "passed xs rq = length (takeWhile (\<lambda>r. blk_rq_pos r \<le> blk_rq_pos rq) xs)"

lemma passed_le: "passed xs rq \<le> length xs"
  by (simp add: passed_def length_takeWhile_le)

lemma passed_before: "i < passed xs rq \<Longrightarrow> blk_rq_pos (xs ! i) \<le> blk_rq_pos rq"
  unfolding passed_def using nth_mem set_takeWhileD takeWhile_nth by fastforce

lemma passed_at: "passed xs rq < length xs \<Longrightarrow> \<not> blk_rq_pos (xs ! passed xs rq) \<le> blk_rq_pos rq"
  unfolding passed_def by (rule nth_length_takeWhile)

lemma sstf_find_from:
  assumes "distinct xs" and "i \<le> k" and "k \<le> length xs" and "\<not> node_pos g (node_at xs k) \<le> blk_rq_pos rq"
    and "\<And>j. j < k \<Longrightarrow> blk_rq_pos (xs ! j) \<le> blk_rq_pos rq"
  shows "sstf_find xs g rq (node_at (rev xs) i) (node_at xs i) = Some (node_at (rev xs) k)"
  using assms(2)
proof (induction rule: inc_induct)
  case base
  show ?case using assms(4) by (subst sstf_find.simps) simp
next
  case (step i)
  then have i: "i < length xs" using assms(3) by simp
  have "node_pos g (node_at xs i) \<le> blk_rq_pos rq"
    using assms(5) step i by (simp add: node_pos_def node_at_def)
  then show ?case using step assms(1) i
    by (subst sstf_find.simps) (simp add: klist_next_at klist_prev_at)
qed

lemma sstf_find_hang:
  assumes "\<And>r. r \<in> set xs \<Longrightarrow> blk_rq_pos r \<le> blk_rq_pos rq" and "g \<le> blk_rq_pos rq"
    and "nx \<in> insert None (Some ` set xs)"
  shows "sstf_find xs g rq prev nx = None"
proof -
  let ?nodes = "\<lambda>xs. insert None (Some ` set xs)"
  have "\<not> (nx \<in> ?nodes xs \<and> (\<forall>nd \<in> ?nodes xs. node_pos g nd \<le> blk_rq_pos rq))"
    if "sstf_find xs g rq prev nx = Some y" for y
    using _ that
  proof (rule sstf_find.raw_induct [where P = "\<lambda>xs g rq prev nx y.
      \<not> (nx \<in> ?nodes xs \<and> (\<forall>nd \<in> ?nodes xs. node_pos g nd \<le> blk_rq_pos rq))"], goal_cases)
    case (1 f xs g rq prev nx y)
    show ?case
    proof
      assume a: "nx \<in> ?nodes xs \<and> (\<forall>nd \<in> ?nodes xs. node_pos g nd \<le> blk_rq_pos rq)"
      then have "f xs g rq (klist_prev xs prev) (klist_next xs nx) = Some y" using 1(2) by (auto split: if_splits)
      from 1(1) [OF this] klist_next_node [of nx xs] a show False by blast
    qed
  qed
  moreover have "\<forall>nd \<in> ?nodes xs. node_pos g nd \<le> blk_rq_pos rq"
    using assms(1,2) by (auto simp: node_pos_def)
  ultimately show ?thesis using assms(3) by (metis not_None_eq)
qed

text \<open>
  What \<open>sstf_add_request\<close> does to the queue, in closed form.
\<close>

definition sstf_insert :: "64 word \<Rightarrow> request list \<Rightarrow> request \<Rightarrow> request list option" where
  "sstf_insert g xs rq =
     (let k = passed xs rq; n = length xs in
      if xs \<noteq> [] \<and> k = n \<and> g \<le> blk_rq_pos rq then None
      else Some (take (n - k) xs @ rq # drop (n - k) xs))"

lemma sstf_find_insert:
  assumes "distinct xs" and "xs \<noteq> []"
  shows "map_option (\<lambda>nd. klist_add xs nd rq) (sstf_find xs g rq (klist_prev xs None) (klist_next xs None)) =
    sstf_insert g xs rq"
proof (cases "passed xs rq = length xs \<and> g \<le> blk_rq_pos rq")
  case True
  then have all: "\<And>r. r \<in> set xs \<Longrightarrow> blk_rq_pos r \<le> blk_rq_pos rq"
    using passed_before [of _ xs rq] by (metis in_set_conv_nth)
  then have "sstf_find xs g rq (klist_prev xs None) (klist_next xs None) = None"
    using True klist_next_node [of None xs] by (intro sstf_find_hang) auto
  then show ?thesis using True assms(2) by (simp add: sstf_insert_def)
next
  case False
  let ?k = "passed xs rq"
  have "\<not> node_pos g (node_at xs ?k) \<le> blk_rq_pos rq"
    using False passed_at [of xs rq] passed_le [of xs rq] by (auto simp: node_pos_def node_at_def)
  from sstf_find_from [OF assms(1) _ passed_le this, of 0] passed_before
  have "sstf_find xs g rq (klist_prev xs None) (klist_next xs None) = Some (node_at (rev xs) ?k)"
    by (simp add: klist_prev_head klist_next_head)
  then show ?thesis using False assms(1) passed_le [of xs rq]
    by (auto simp: sstf_insert_def klist_add_rev_at Let_def)
qed

lemma sstf_add_request_insert:
  assumes "distinct (queue (elevator_data q))"
  shows "sstf_add_request g q rq =
    (case sstf_insert g (queue (elevator_data q)) rq of
       None \<Rightarrow> Inl Hang
     | Some ys \<Rightarrow> Inr (q\<lparr>elevator_data := (elevator_data q)\<lparr>queue := ys\<rparr>\<rparr>))"
proof (cases "queue (elevator_data q) = []")
  case True
  then show ?thesis by (simp add: sstf_add_request_def klist_add_def sstf_insert_def passed_def Let_def)
next
  case False
  from sstf_find_insert [OF assms this, of rq g] show ?thesis using False
    by (cases "sstf_insert g (queue (elevator_data q)) rq") (auto simp: sstf_add_request_def Let_def)
qed

lemma mset_insert_at: "mset (take n xs @ x # drop n xs) = add_mset x (mset xs)"
  by (metis append_take_drop_id mset.simps(2) mset_append union_mset_add_mset_right)

lemma mset_sstf_insert: "sstf_insert g xs rq = Some ys \<Longrightarrow> mset ys = add_mset rq (mset xs)"
  by (auto simp: sstf_insert_def Let_def mset_insert_at simp del: mset_append split: if_splits)

subsection \<open>Dispatching\<close>

lemma sstf_choose_ends: "fst (sstf_choose nd prev nx) \<in> {prev, nx}"
  by (simp add: sstf_choose_def)

lemma sstf_dispatch_empty: "queue (elevator_data q) = [] \<Longrightarrow> sstf_dispatch q = (q, 0)"
  by (simp add: sstf_dispatch_def klist_prev_def klist_next_def Let_def)

lemma sstf_dispatch_nonempty:
  assumes "queue (elevator_data q) \<noteq> []"
    and "(rq, dir) = sstf_choose (elevator_data q) (last (queue (elevator_data q))) (hd (queue (elevator_data q)))"
  shows "sstf_dispatch q =
    (q\<lparr>elevator_data := (elevator_data q)\<lparr>queue := remove1 rq (queue (elevator_data q)), direction := dir,
         sector := ucast (blk_rq_sectors rq) + blk_rq_pos rq\<rparr>, dispatched := dispatched q @ [rq]\<rparr>, 1)"
    and "rq \<in> set (queue (elevator_data q))"
proof -
  let ?xs = "queue (elevator_data q)"
  have "klist_prev ?xs None = Some (last ?xs)" "klist_next ?xs None = Some (hd ?xs)"
    using assms(1) by (auto simp: klist_prev_head klist_next_head node_at_def hd_conv_nth last_conv_nth rev_nth)
  then show "sstf_dispatch q =
    (q\<lparr>elevator_data := (elevator_data q)\<lparr>queue := remove1 rq ?xs, direction := dir,
         sector := ucast (blk_rq_sectors rq) + blk_rq_pos rq\<rparr>, dispatched := dispatched q @ [rq]\<rparr>, 1)"
    using assms(2) [symmetric] by (simp add: sstf_dispatch_def klist_del_def Let_def)
  have "rq \<in> {last ?xs, hd ?xs}" using sstf_choose_ends assms(2) by (metis fst_conv)
  then show "rq \<in> set ?xs" using assms(1) by auto
qed

interpretation sstf_elv: elevator "\<lambda>q. queue (elevator_data q)" dispatched sstf_dispatch
proof
  fix q :: sstf_queue
  assume ne: "queue (elevator_data q) \<noteq> []"
  obtain rq dir where c: "(rq, dir) =
      sstf_choose (elevator_data q) (last (queue (elevator_data q))) (hd (queue (elevator_data q)))"
    by (metis surj_pair)
  note d = sstf_dispatch_nonempty [OF ne c]
  then show "\<exists>r \<in> set (queue (elevator_data q)). snd (sstf_dispatch q) = 1 \<and>
      dispatched (fst (sstf_dispatch q)) = dispatched q @ [r] \<and>
      mset (queue (elevator_data (fst (sstf_dispatch q)))) = mset (queue (elevator_data q)) - {#r#}"
    by (intro bexI [OF _ d(2)]) simp
qed (rule sstf_dispatch_empty)

subsection \<open>The scheduler in use\<close>

text \<open>
  The calls of the block layer, with the requests added so far and those merged into others. A
  request object stands for one use of it.
\<close>

type_synonym sstf_world = "sstf_queue \<times> request list \<times> request list"

inductive sstf_step :: "sstf_world \<Rightarrow> sstf_world \<Rightarrow> bool" where
  add: "rq \<notin> set as \<Longrightarrow> sstf_add_request g q rq = Inr q' \<Longrightarrow> sstf_step (q, as, ms) (q', rq # as, ms)"
| dispatch: "sstf_dispatch q = (q', n) \<Longrightarrow> sstf_step (q, as, ms) (q', as, ms)"
| merge: "rq \<in> set (queue (elevator_data q)) \<Longrightarrow> nx \<in> set (queue (elevator_data q)) \<Longrightarrow> rq \<noteq> nx \<Longrightarrow>
    sstf_step (q, as, ms) (sstf_merged_requests q rq nx, as, nx # ms)"

inductive_cases sstf_stepE: "sstf_step (q, as, ms) w"

definition sstf_start :: "sstf_world \<Rightarrow> bool" where
  "sstf_start w \<longleftrightarrow>
     (\<exists>nd. sstf_init_queue True True = (0, Some nd, 1, 1) \<and> w = (\<lparr>elevator_data = nd, dispatched = []\<rparr>, [], []))"

text \<open>The end of the last request dispatched, where the scheduler takes the disk head to be.\<close>

definition head_pos :: "request list \<Rightarrow> 64 word" where
  "head_pos ds = (if ds = [] then 0 else ucast (blk_rq_sectors (last ds)) + blk_rq_pos (last ds))"

fun sstf_inv :: "sstf_world \<Rightarrow> bool" where
  "sstf_inv (q, as, ms) \<longleftrightarrow>
     distinct as \<and> mset (queue (elevator_data q)) + mset (dispatched q) + mset ms = mset as \<and>
     direction (elevator_data q) \<in> {CHR ''F'', CHR ''B''} \<and> sector (elevator_data q) = head_pos (dispatched q)"

lemma sstf_inv_distinct:
  assumes "sstf_inv (q, as, ms)"
  shows "distinct (queue (elevator_data q) @ dispatched q @ ms)"
proof -
  from assms have "mset (queue (elevator_data q) @ dispatched q @ ms) = mset as" "distinct as"
    by (auto simp: add.assoc)
  then show ?thesis by (metis mset_eq_imp_distinct_iff)
qed

lemma sstf_step_inv:
  assumes "sstf_inv w" and "sstf_step w w'" shows "sstf_inv w'"
  using assms(2,1)
proof cases
  case (add rq as g q q' ms)
  have d: "distinct (queue (elevator_data q))" using sstf_inv_distinct [of q as ms] assms(1) add by simp
  from add(4) obtain ys where ys: "sstf_insert g (queue (elevator_data q)) rq = Some ys"
    "q' = q\<lparr>elevator_data := (elevator_data q)\<lparr>queue := ys\<rparr>\<rparr>"
    unfolding sstf_add_request_insert [OF d] by (auto split: option.splits)
  then show ?thesis using assms(1) add mset_sstf_insert [OF ys(1)] by auto
next
  case (dispatch q q' n as ms)
  show ?thesis
  proof (cases "queue (elevator_data q) = []")
    case True
    then show ?thesis using dispatch assms(1) sstf_dispatch_empty [of q] by simp
  next
    case False
    obtain rq dir where c: "(rq, dir) =
        sstf_choose (elevator_data q) (last (queue (elevator_data q))) (hd (queue (elevator_data q)))"
      by (metis surj_pair)
    note d = sstf_dispatch_nonempty [OF False c]
    have "dir \<in> {CHR ''F'', CHR ''B''}"
      using assms(1) dispatch(1) c by (auto simp: sstf_choose_def split: if_splits)
    then show ?thesis using assms(1) d dispatch by (auto simp: head_pos_def)
  qed
next
  case (merge rq q nx as ms)
  have "mset (queue (elevator_data q)) + mset (dispatched q) + mset ms = mset as" using assms(1) merge(1) by simp
  moreover have "nx \<in># mset (queue (elevator_data q)) + mset (dispatched q) + mset ms" using merge(4) by simp
  ultimately have "nx \<in># mset as" by (simp only:)
  then show ?thesis using assms(1) merge by (simp add: sstf_merged_requests_def klist_del_def Let_def)
qed

lemma sstf_start_inv: "sstf_start w \<Longrightarrow> sstf_inv w"
  by (auto simp: sstf_start_def sstf_init_queue_def head_pos_def)

interpretation sstf_run: invariant_system sstf_start sstf_step sstf_inv
  by unfold_locales (blast intro: sstf_start_inv sstf_step_inv)+

subsection \<open>Properties\<close>

text \<open>An example: requests of 8 sectors.\<close>

definition req :: "nat \<Rightarrow> 64 word \<Rightarrow> request" where
  "req i p = \<lparr>rq_id = i, blk_rq_pos = p, blk_rq_sectors = 8\<rparr>"

definition example_queue :: sstf_queue where
  "example_queue = \<lparr>elevator_data = \<lparr>queue = [req 0 10, req 1 20, req 2 30], direction = CHR ''F'', sector = 25\<rparr>,
     dispatched = []\<rparr>"

text \<open>
  Which request is dispatched. With several requests queued it is the first or the last of the
  queue: going forward the first if the disk head is at or past it, else the last, and the direction turns;
  backward the last if the disk head is at or past it, else the first, and the direction turns.
\<close>

lemma sstf_dispatch_choice:
  assumes "queue nd = x # ys @ [y]" and "x \<noteq> y" and "elevator_data q = nd"
  shows "\<exists>rq q'. sstf_dispatch q = (q', 1) \<and> dispatched q' = dispatched q @ [rq] \<and>
    queue (elevator_data q') = remove1 rq (queue nd) \<and>
    (rq, direction (elevator_data q')) =
      (if direction nd = CHR ''B''
       then (if blk_rq_pos y \<le> sector nd then (y, CHR ''B'') else (x, CHR ''F''))
       else (if blk_rq_pos x \<le> sector nd then (x, direction nd) else (y, CHR ''B'')))"
proof -
  obtain rq dir where c: "(rq, dir) = sstf_choose nd y x" by (metis surj_pair)
  with assms have c': "(rq, dir) = sstf_choose (elevator_data q) (last (queue (elevator_data q))) (hd (queue (elevator_data q)))"
    by simp
  have "queue (elevator_data q) \<noteq> []" using assms by simp
  from sstf_dispatch_nonempty(1) [OF this c'] show ?thesis
    using assms c by (intro exI [of _ rq]) (auto simp: sstf_choose_def)
qed

lemma sstf_dispatch_choice_witness:
  "\<exists>q'. sstf_dispatch example_queue = (q', 1) \<and> dispatched q' = [req 0 10]"
  using sstf_dispatch_choice [of "elevator_data example_queue" "req 0 10" "[req 1 20]" "req 2 30" example_queue]
  by (auto simp: example_queue_def req_def)

text \<open>
  C14: No request is lost or duplicated, and the direction turns when it should. From
  \<open>sstf_init_queue\<close>, in every state reached by adds, dispatches and merges, the queued, dispatched and
  merged requests are together exactly the requests added, each once; the direction is F or B, and
  \<open>sector\<close> is the end of the request dispatched last. The next dispatch sends out the only request and
  keeps the direction, or one of the two ends of the queue: going forward the first if \<open>sector\<close> is at or
  past it, else the last, and the direction becomes B; going backward the last if \<open>sector\<close> is at or past
  it, else the first, and the direction becomes F.
\<close>

theorem sstf_conserves_requests:
  assumes "reach sstf_start sstf_step (q, as, ms)"
  shows "mset (queue (elevator_data q)) + mset (dispatched q) + mset ms = mset as \<and>
    distinct (queue (elevator_data q) @ dispatched q @ ms) \<and>
    direction (elevator_data q) \<in> {CHR ''F'', CHR ''B''} \<and>
    (dispatched q \<noteq> [] \<longrightarrow>
       sector (elevator_data q) = ucast (blk_rq_sectors (last (dispatched q))) + blk_rq_pos (last (dispatched q))) \<and>
    (\<forall>x. queue (elevator_data q) = [x] \<longrightarrow>
       (\<exists>q'. sstf_dispatch q = (q', 1) \<and> dispatched q' = dispatched q @ [x] \<and>
          direction (elevator_data q') = direction (elevator_data q))) \<and>
    (\<forall>x ys y. queue (elevator_data q) = x # ys @ [y] \<longrightarrow>
       (\<exists>rq q'. sstf_dispatch q = (q', 1) \<and> dispatched q' = dispatched q @ [rq] \<and>
          (rq, direction (elevator_data q')) =
            (if direction (elevator_data q) = CHR ''B''
             then (if blk_rq_pos y \<le> sector (elevator_data q) then (y, CHR ''B'') else (x, CHR ''F''))
             else (if blk_rq_pos x \<le> sector (elevator_data q) then (x, CHR ''F'') else (y, CHR ''B'')))))"
proof -
  note inv = sstf_run.reach_inv [OF assms] and dist = sstf_inv_distinct [OF sstf_run.reach_inv [OF assms]]
  have "\<exists>rq q'. sstf_dispatch q = (q', 1) \<and> dispatched q' = dispatched q @ [rq] \<and>
      (rq, direction (elevator_data q')) =
        (if direction (elevator_data q) = CHR ''B''
         then (if blk_rq_pos y \<le> sector (elevator_data q) then (y, CHR ''B'') else (x, CHR ''F''))
         else (if blk_rq_pos x \<le> sector (elevator_data q) then (x, CHR ''F'') else (y, CHR ''B'')))"
    if xy: "queue (elevator_data q) = x # ys @ [y]" for x ys y
  proof -
    have "x \<noteq> y" using dist xy by auto
    from sstf_dispatch_choice [OF xy this refl] inv show ?thesis by auto
  qed
  moreover have "\<exists>q'. sstf_dispatch q = (q', 1) \<and> dispatched q' = dispatched q @ [x] \<and>
      direction (elevator_data q') = direction (elevator_data q)" if "queue (elevator_data q) = [x]" for x
    using sstf_dispatch_nonempty(1) [of q x "direction (elevator_data q)"] that by (simp add: sstf_choose_def)
  ultimately show ?thesis using inv dist by (simp add: head_pos_def)
qed

text \<open>Two requests are added; the disk head is before both, so that the first dispatch turns.\<close>

theorem sstf_conserves_requests_witness:
  "\<exists>q q'. reach sstf_start sstf_step (q, [req 1 20, req 0 10], []) \<and> sstf_dispatch q = (q', 1) \<and>
     dispatched q' = [req 0 10] \<and> direction (elevator_data q') = CHR ''B'' \<and>
     distinct (queue (elevator_data q))"
proof -
  let ?q = "\<lambda>xs. \<lparr>elevator_data = \<lparr>queue = xs, direction = CHR ''F'', sector = 0\<rparr>, dispatched = []\<rparr>"
  let ?R = "reach sstf_start sstf_step" and ?q2 = "?q [req 1 20, req 0 10]"
  have "?R (?q [], [], [])" by (rule reach_init) (simp add: sstf_start_def sstf_init_queue_def)
  moreover have "sstf_step (?q [], [], []) (?q [req 0 10], [req 0 10], [])"
    by (rule sstf_step.add [where g = 50]) (simp_all add: sstf_add_request_def klist_add_def)
  ultimately have "?R (?q [req 0 10], [req 0 10], [])" by (rule reach_step)
  moreover have "sstf_add_request 50 (?q [req 0 10]) (req 1 20) = Inr ?q2"
    by (subst sstf_add_request_insert) (simp_all add: sstf_insert_def passed_def req_def)
  then have "sstf_step (?q [req 0 10], [req 0 10], []) (?q2, [req 1 20, req 0 10], [])"
    by (intro sstf_step.add) (simp_all add: req_def)
  ultimately have r: "?R (?q2, [req 1 20, req 0 10], [])" by (rule reach_step)
  have "queue (elevator_data ?q2) = req 1 20 # [] @ [req 0 10]" by simp
  with sstf_conserves_requests [OF r] have "distinct (queue (elevator_data ?q2))" and
    "\<exists>rq q'. sstf_dispatch ?q2 = (q', 1) \<and> dispatched q' = dispatched ?q2 @ [rq] \<and>
      (rq, direction (elevator_data q')) = (req 0 10, CHR ''B'')" by (auto simp: req_def)
  then obtain q' where "sstf_dispatch ?q2 = (q', 1)" "dispatched q' = [req 0 10]" "direction (elevator_data q') = CHR ''B''"
    "distinct (queue (elevator_data ?q2))" by auto
  with r show ?thesis by blast
qed

text \<open>
  C32: Draining. Dispatching as often as there are queued requests empties the queue and sends every
  queued request to the device exactly once, after those already sent; the next dispatch returns 0.
\<close>

theorem sstf_drains:
  "queue (elevator_data (((fst \<circ> sstf_dispatch) ^^ length (queue (elevator_data q))) q)) = [] \<and>
   (\<exists>rs. dispatched (((fst \<circ> sstf_dispatch) ^^ length (queue (elevator_data q))) q) = dispatched q @ rs \<and>
      mset rs = mset (queue (elevator_data q))) \<and>
   snd (sstf_dispatch (((fst \<circ> sstf_dispatch) ^^ length (queue (elevator_data q))) q)) = 0"
  using sstf_elv.drain [of q] sstf_elv.drain_done [of q] by blast

text \<open>
  C31: What \<open>sstf_add_request\<close> does to a queue of \<open>n\<close> requests. With \<open>k\<close> requests at its front not beyond
  the new one, the loop ends after \<open>k\<close> rounds and the new request gets the index \<open>n - k\<close>; when all
  of them are not beyond it, the loop reads the list head as a request, and it ends only if the value
  found there is beyond the new request; otherwise it never ends.
\<close>

theorem sstf_add_request_exact:
  assumes "distinct (queue (elevator_data q))" and "queue (elevator_data q) = p @ r"
    and "\<forall>x \<in> set p. blk_rq_pos x \<le> blk_rq_pos rq" and "r \<noteq> [] \<longrightarrow> blk_rq_pos rq < blk_rq_pos (hd r)"
  shows "sstf_add_request g q rq =
    (if p \<noteq> [] \<and> r = [] \<and> g \<le> blk_rq_pos rq then Inl Hang
     else Inr (q\<lparr>elevator_data := (elevator_data q)\<lparr>queue :=
       take (length r) (p @ r) @ rq # drop (length r) (p @ r)\<rparr>\<rparr>))"
proof -
  have "takeWhile (\<lambda>x. blk_rq_pos x \<le> blk_rq_pos rq) r = []" using assms(4) by (cases r) auto
  then have "takeWhile (\<lambda>x. blk_rq_pos x \<le> blk_rq_pos rq) (p @ r) = p"
    using assms(3) by (subst takeWhile_append2) auto
  then have "passed (p @ r) rq = length p" by (simp add: passed_def)
  then show ?thesis
    unfolding sstf_add_request_insert [OF assms(1)] assms(2) by (auto simp: sstf_insert_def Let_def)
qed

theorem sstf_add_request_exact_witness:
  "sstf_add_request 0 example_queue (req 3 40) = Inl Hang \<and>
   sstf_add_request 50 example_queue (req 3 40) =
     Inr (example_queue\<lparr>elevator_data := (elevator_data example_queue)\<lparr>queue :=
       [req 3 40, req 0 10, req 1 20, req 2 30]\<rparr>\<rparr>)"
  using sstf_add_request_exact [of example_queue "[req 0 10, req 1 20, req 2 30]" "[]" "req 3 40" 0]
    sstf_add_request_exact [of example_queue "[req 0 10, req 1 20, req 2 30]" "[]" "req 3 40" 50]
  by (simp add: example_queue_def req_def)

text \<open>
  The queue is not kept sorted. A request before everything queued is put last, so adding it to a
  sorted queue always gives an unsorted one: the loop moves \<open>prev\<close> backward from the end while
  \<open>next\<close> moves forward from the front.
\<close>

lemma sstf_add_request_unsorts:
  assumes "sorted (map blk_rq_pos (queue (elevator_data q)))" and "distinct (queue (elevator_data q))"
    and "queue (elevator_data q) \<noteq> []" and "blk_rq_pos rq < blk_rq_pos (hd (queue (elevator_data q)))"
  shows "\<exists>q'. sstf_add_request g q rq = Inr q' \<and>
    queue (elevator_data q') = queue (elevator_data q) @ [rq] \<and>
    \<not> sorted (map blk_rq_pos (queue (elevator_data q')))"
proof -
  have "passed (queue (elevator_data q)) rq = 0" using assms(3,4)
    by (cases "queue (elevator_data q)") (auto simp: passed_def)
  then have "sstf_insert g (queue (elevator_data q)) rq = Some (queue (elevator_data q) @ [rq])"
    using assms(3) by (simp add: sstf_insert_def)
  moreover have "\<not> sorted (map blk_rq_pos (queue (elevator_data q)) @ [blk_rq_pos rq])"
    using assms(3,4) by (cases "queue (elevator_data q)") (auto simp: sorted_append)
  ultimately show ?thesis unfolding sstf_add_request_insert [OF assms(2)] by simp
qed

lemma sstf_add_request_unsorts_witness:
  "\<exists>q'. sstf_add_request 0 example_queue (req 3 5) = Inr q' \<and>
     queue (elevator_data q') = [req 0 10, req 1 20, req 2 30, req 3 5]"
  using sstf_add_request_unsorts [of example_queue "req 3 5" 0] by (auto simp: example_queue_def req_def)

text \<open>
  Neighbours. \<open>sstf_latter_request\<close> and \<open>sstf_former_request\<close> give the neighbours of a queued
  request, NULL at the ends of the queue, and are inverse to each other.
\<close>

lemma sstf_neighbours:
  assumes "distinct (queue (elevator_data q))" and "queue (elevator_data q) = p @ [x, y] @ r"
  shows "sstf_latter_request q x = Some y \<and> sstf_former_request q y = Some x \<and>
    sstf_former_request q (hd (queue (elevator_data q))) = None \<and>
    sstf_latter_request q (last (queue (elevator_data q))) = None"
proof -
  let ?xs = "queue (elevator_data q)" and ?n = "length p"
  have at: "Some x = node_at ?xs ?n" "Some y = node_at ?xs (Suc ?n)" "Some (last ?xs) = node_at ?xs (length ?xs - 1)"
    by (auto simp: node_at_def assms(2) nth_append last_conv_nth)
  have rat: "Some y = node_at (rev ?xs) (length r)" "Some x = node_at (rev ?xs) (Suc (length r))"
    "Some (hd ?xs) = node_at (rev ?xs) (length ?xs - 1)"
    by (auto simp: node_at_def assms(2) nth_append last_conv_nth rev_nth hd_conv_nth)
  show ?thesis
    unfolding sstf_latter_request_def sstf_former_request_def
    using klist_next_at [OF assms(1), of ?n] klist_prev_at [OF assms(1), of "length r"]
      klist_next_at [OF assms(1), of "length ?xs - 1"] klist_prev_at [OF assms(1), of "length ?xs - 1"]
    unfolding at [symmetric] rat [symmetric] by (simp add: assms(2) node_at_def)
qed

lemma sstf_neighbours_witness:
  "sstf_latter_request example_queue (req 0 10) = Some (req 1 20) \<and>
   sstf_former_request example_queue (req 0 10) = None"
  using sstf_neighbours [of example_queue "[]" "req 0 10" "req 1 20" "[req 2 30]"]
  by (simp add: example_queue_def req_def)

text \<open>
  Life cycle. \<open>sstf_init_queue\<close> returns 0 and an empty forward queue, holding one elevator and one
  \<open>sstf_data\<close>, exactly when both allocations succeed, and on failure it holds nothing; after a
  drain \<open>sstf_exit_queue\<close> does not hit its \<open>BUG_ON\<close> and frees the \<open>sstf_data\<close>.
\<close>

lemma sstf_life_cycle:
  "(fst (sstf_init_queue a b) = 0 \<longleftrightarrow> a \<and> b) \<and> (\<not> (a \<and> b) \<longrightarrow> sstf_init_queue a b = (- ENOMEM, None, 0, 0)) \<and>
   (a \<and> b \<longrightarrow> (\<exists>nd. sstf_init_queue a b = (0, Some nd, 1, 1) \<and> queue nd = [] \<and> direction nd = CHR ''F'' \<and> sector nd = 0)) \<and>
   sstf_exit_queue (elevator_data (((fst \<circ> sstf_dispatch) ^^ length (queue (elevator_data q))) q)) = Inr 1"
  using sstf_elv.drain [of q] by (simp add: sstf_init_queue_def sstf_exit_queue_def ENOMEM_def)

lemma sstf_life_cycle_witness:
  "sstf_init_queue True False = (- 12, None, 0, 0) \<and>
   sstf_exit_queue (elevator_data ((fst \<circ> sstf_dispatch) ((fst \<circ> sstf_dispatch) ((fst \<circ> sstf_dispatch) example_queue)))) = Inr 1"
  using sstf_life_cycle [of True False example_queue]
  by (simp add: example_queue_def ENOMEM_def numeral_3_eq_3)

end
