(* ===== verification/Mersenne.thy ===== *)
theory Mersenne
  imports Prelude
begin

text \<open>
  The pseudorandom generator of the producer program, \<open>assignments/a1/mt19937ar.c\<close>. \<open>unsigned long\<close>
  has 64 bits (the program is built with \<open>gcc\<close> on 64-bit Linux), so the masks with \<open>0xffffffff\<close> in the
  source matter. The array \<open>mt\<close> is a list of length \<open>N\<close>. The functions that return a \<open>double\<close> are in \<open>Mersenne_Real\<close>.
\<close>

unbundle bit_operations_syntax

subsection \<open>State\<close>

definition N :: nat where "N = 624"

definition M :: nat where "M = 397"

definition MATRIX_A :: "64 word" where "MATRIX_A = 0x9908b0df"

definition UPPER_MASK :: "64 word" where "UPPER_MASK = 0x80000000"

definition LOWER_MASK :: "64 word" where "LOWER_MASK = 0x7fffffff"

record mt_state =
  mt :: "64 word list"
  mti :: nat

text \<open>The state when the program starts: a zero array, not seeded.\<close>

definition mt_start :: mt_state where
  "mt_start = \<lparr>mt = replicate N 0, mti = N + 1\<rparr>"

subsection \<open>Seeding\<close>

definition init_step :: "64 word list \<Rightarrow> nat \<Rightarrow> 64 word list" where
  "init_step m i =
     m[i := (1812433253 * (m ! (i - 1) XOR drop_bit 30 (m ! (i - 1))) + of_nat i) AND 0xffffffff]"

definition init_genrand :: "64 word \<Rightarrow> mt_state \<Rightarrow> mt_state" where
  "init_genrand s st =
     \<lparr>mt = foldl init_step ((mt st)[0 := s AND 0xffffffff]) [1 ..< N], mti = N\<rparr>"

text \<open>
  The two loops of \<open>init_by_array\<close>, on the array and the indices \<open>i\<close> and \<open>j\<close>; \<open>k\<close> is the number of
  rounds left.
\<close>

definition wrap_i :: "64 word list \<times> nat \<Rightarrow> 64 word list \<times> nat" where
  "wrap_i x = (if snd x \<ge> N then ((fst x)[0 := fst x ! (N - 1)], 1) else x)"

fun key_loop :: "nat \<Rightarrow> 64 word list \<Rightarrow> 64 word list \<Rightarrow> nat \<Rightarrow> nat \<Rightarrow> 64 word list \<times> nat" where
  "key_loop 0 key m i j = (m, i)"
| "key_loop (Suc k) key m i j =
     (let m1 = m[i := ((m ! i XOR ((m ! (i - 1) XOR drop_bit 30 (m ! (i - 1))) * 1664525))
                   + key ! j + of_nat j) AND 0xffffffff];
          (m2, i2) = wrap_i (m1, i + 1)
      in key_loop k key m2 i2 (if j + 1 \<ge> length key then 0 else j + 1))"

fun mix_loop :: "nat \<Rightarrow> 64 word list \<Rightarrow> nat \<Rightarrow> 64 word list" where
  "mix_loop 0 m i = m"
| "mix_loop (Suc k) m i =
     (let m1 = m[i := ((m ! i XOR ((m ! (i - 1) XOR drop_bit 30 (m ! (i - 1))) * 1566083941))
                   - of_nat i) AND 0xffffffff];
          (m2, i2) = wrap_i (m1, i + 1)
      in mix_loop k m2 i2)"

text \<open>With an empty key, \<open>init_key[0]\<close> is outside the array.\<close>

definition init_by_array :: "64 word list \<Rightarrow> mt_state \<Rightarrow> mt_state result" where
  "init_by_array key st =
     (if key = [] then Inl Wild
      else
        (let st1 = init_genrand 19650218 st;
             (m, i) = key_loop (max N (length key)) key (mt st1) 1 0;
             m' = mix_loop (N - 1) m i
         in Inr (st1\<lparr>mt := m'[0 := 0x80000000]\<rparr>)))"

subsection \<open>Generation\<close>

definition mag01 :: "64 word \<Rightarrow> 64 word" where
  "mag01 y = [0, MATRIX_A] ! unat (y AND 1)"

text \<open>The body of the loops: \<open>mt[kk]\<close> from its old value, its successor and the word \<open>M\<close> further on.\<close>

definition twist :: "64 word \<Rightarrow> 64 word \<Rightarrow> 64 word \<Rightarrow> 64 word" where
  "twist u v w =
     (let y = (u AND UPPER_MASK) OR (v AND LOWER_MASK) in w XOR drop_bit 1 y XOR mag01 y)"

definition regenerate :: "64 word list \<Rightarrow> 64 word list" where
  "regenerate m =
     (let m1 = foldl (\<lambda>m k. m[k := twist (m ! k) (m ! (k + 1)) (m ! (k + M))]) m [0 ..< N - M];
          m2 = foldl (\<lambda>m k. m[k := twist (m ! k) (m ! (k + 1)) (m ! (k + M - N))]) m1 [N - M ..< N - 1]
      in m2[N - 1 := twist (m2 ! (N - 1)) (m2 ! 0) (m2 ! (M - 1))])"

definition temper :: "64 word \<Rightarrow> 64 word" where
  "temper y0 =
     (let y1 = y0 XOR drop_bit 11 y0;
          y2 = y1 XOR (push_bit 7 y1 AND 0x9d2c5680);
          y3 = y2 XOR (push_bit 15 y2 AND 0xefc60000)
      in y3 XOR drop_bit 18 y3)"

definition genrand_int32 :: "mt_state \<Rightarrow> 64 word \<times> mt_state" where
  "genrand_int32 st =
     (let st1 = (if mti st \<ge> N then
                   (let st0 = (if mti st = N + 1 then init_genrand 5489 st else st)
                    in st0\<lparr>mt := regenerate (mt st0), mti := 0\<rparr>)
                 else st)
      in (temper (mt st1 ! mti st1), st1\<lparr>mti := mti st1 + 1\<rparr>))"

definition genrand_int31 :: "mt_state \<Rightarrow> 64 word \<times> mt_state" where
  "genrand_int31 st = (let (y, st') = genrand_int32 st in (drop_bit 1 y, st'))"

subsection \<open>Words of 32 bits\<close>

definition small :: "64 word \<Rightarrow> bool" where
  "small w \<longleftrightarrow> take_bit 32 w = w"

lemma small_bit: "small w \<longleftrightarrow> (\<forall>n. bit w n \<longrightarrow> n < 32)"
  using bit_imp_le_length [of w] by (force simp: small_def bit_eq_iff bit_simps)

lemma mask32: "(0xffffffff :: 64 word) = mask 32"
  by (simp add: mask_eq_exp_minus_1)

lemma small_and: "small (w AND 0xffffffff)"
  by (simp add: mask32 small_def take_bit_and flip: take_bit_eq_mask)

lemma small_unat: "small w \<longleftrightarrow> unat w < 2 ^ 32"
proof -
  have "small w \<longleftrightarrow> unat (take_bit 32 w) = unat w" by (simp add: small_def word_unat_eq_iff)
  also have "unat (take_bit 32 w) = take_bit 32 (unat w)"
    by (simp add: take_bit_eq_mod unat_mod_distrib)
  also have "take_bit 32 (unat w) = unat w \<longleftrightarrow> unat w < 2 ^ 32" by (rule take_bit_nat_eq_self_iff)
  finally show ?thesis .
qed

lemma small_consts: "small MATRIX_A" "small UPPER_MASK" "small LOWER_MASK" "small 0"
  by (simp_all add: small_unat MATRIX_A_def UPPER_MASK_def LOWER_MASK_def)

lemma small_ops:
  "small v \<Longrightarrow> small w \<Longrightarrow> small (v XOR w)" "small v \<Longrightarrow> small w \<Longrightarrow> small (v OR w)"
  "small w \<Longrightarrow> small (v AND w)" "small w \<Longrightarrow> small (drop_bit k w)"
  by (auto simp: small_bit bit_simps)

lemma small_mag01: "small (mag01 y)"
proof -
  have "unat (y AND 1) \<in> {0, 1}" by (simp add: and_one_eq unat_mod mod_2_eq_odd)
  then show ?thesis unfolding mag01_def using small_consts by auto
qed

lemma small_twist: "small u \<Longrightarrow> small v \<Longrightarrow> small w \<Longrightarrow> small (twist u v w)"
  unfolding twist_def Let_def by (intro small_ops small_mag01 small_consts)

lemma small_temper:
  assumes "small y" shows "small (temper y)"
proof -
  have "small 0x9d2c5680" "small 0xefc60000" by (simp_all add: small_unat)
  with assms show ?thesis unfolding temper_def Let_def by (intro small_ops)
qed

subsection \<open>Well-formed states\<close>

definition mt_ok :: "64 word list \<Rightarrow> bool" where
  "mt_ok m \<longleftrightarrow> length m = N \<and> (\<forall>w \<in> set m. small w)"

definition mt_wf :: "mt_state \<Rightarrow> bool" where
  "mt_wf st \<longleftrightarrow> mt_ok (mt st) \<and> mti st \<le> N + 1"

lemma mt_ok_update: "mt_ok m \<Longrightarrow> small w \<Longrightarrow> mt_ok (m[i := w])"
  unfolding mt_ok_def using set_update_subset_insert by fastforce

lemma mt_ok_nth: "mt_ok m \<Longrightarrow> i < N \<Longrightarrow> small (m ! i)"
  by (simp add: mt_ok_def)

lemma mt_ok_foldl:
  "(\<And>m k. mt_ok m \<Longrightarrow> k \<in> set ks \<Longrightarrow> mt_ok (f m k)) \<Longrightarrow> mt_ok m \<Longrightarrow> mt_ok (foldl f m ks)"
  by (induction ks arbitrary: m) auto

lemma mt_ok_init_step: "mt_ok m \<Longrightarrow> mt_ok (init_step m i)"
  unfolding init_step_def by (intro mt_ok_update small_and)

lemma length_init: "length (foldl init_step m is) = length m"
  by (induction "is" arbitrary: m) (auto simp: init_step_def)

text \<open>Seeding makes the array well formed, whatever it held before.\<close>

lemma foldl_init_small:
  assumes "length m = N" and "n \<le> N" and "1 \<le> n" and "small (m ! 0)"
  shows "\<forall>j < n. small (foldl init_step m [1 ..< n] ! j)"
  using assms(3,2)
proof (induction n rule: dec_induct)
  case base
  then show ?case using assms(4) by simp
next
  case (step n)
  let ?m = "foldl init_step m [1 ..< n]"
  have len: "length ?m = N" using assms(1) by (simp add: length_init)
  have eq: "foldl init_step m [1 ..< Suc n] = init_step ?m n" using step by simp
  have "small (init_step ?m n ! j)" if "j < Suc n" for j
    using that step len small_and unfolding init_step_def [of ?m]
    by (cases "j = n") (simp_all add: nth_list_update del: One_nat_def)
  then show ?case unfolding eq by blast
qed

lemma init_genrand_wf:
  assumes "length (mt st) = N" shows "mt_wf (init_genrand s st)" and "mti (init_genrand s st) = N"
proof -
  let ?m = "(mt st)[0 := s AND 0xffffffff]"
  have "length ?m = N" "small (?m ! 0)" using assms small_and by (auto simp: N_def)
  then have "mt_ok (foldl init_step ?m [1 ..< N])"
    using foldl_init_small [of ?m N] by (auto simp: mt_ok_def length_init in_set_conv_nth N_def)
  then show "mt_wf (init_genrand s st)" by (simp add: mt_wf_def init_genrand_def)
qed (simp add: init_genrand_def)

lemma wrap_i_ok:
  assumes "mt_ok m" and "1 \<le> i" and "i \<le> N" and "(m', i') = wrap_i (m, i)"
  shows "mt_ok m'" and "1 \<le> i'" and "i' < N"
  using assms mt_ok_nth [of m "N - 1"]
  by (auto simp: wrap_i_def mt_ok_update N_def split: if_splits)

lemma key_loop_ok:
  "mt_ok m \<Longrightarrow> 1 \<le> i \<Longrightarrow> i < N \<Longrightarrow> j < length key \<Longrightarrow> (m', i') = key_loop k key m i j \<Longrightarrow>
     mt_ok m' \<and> 1 \<le> i' \<and> i' < N"
proof (induction k key m i j arbitrary: m' i' rule: key_loop.induct)
  case (2 k key m i j)
  let ?m1 = "m[i := ((m ! i XOR ((m ! (i - 1) XOR drop_bit 30 (m ! (i - 1))) * 1664525))
     + key ! j + of_nat j) AND 0xffffffff]"
  obtain m2 i2 where w: "(m2, i2) = wrap_i (?m1, i + 1)" by (metis surj_pair)
  have "mt_ok ?m1" using "2.prems"(1) by (rule mt_ok_update) (rule small_and)
  from wrap_i_ok [OF this _ _ w] have ok: "mt_ok m2" "1 \<le> i2" "i2 < N" using "2.prems"(3) by simp_all
  have j: "(if j + 1 \<ge> length key then 0 else j + 1) < length key" using "2.prems"(4) by auto
  have "key_loop (Suc k) key m i j = key_loop k key m2 i2 (if j + 1 \<ge> length key then 0 else j + 1)"
    by (simp only: key_loop.simps Let_def w [symmetric] prod.case)
  with "2.IH" [OF refl w refl ok j, of m' i'] "2.prems"(5) show ?case by simp
qed simp

lemma mix_loop_ok: "mt_ok m \<Longrightarrow> 1 \<le> i \<Longrightarrow> i < N \<Longrightarrow> mt_ok (mix_loop k m i)"
proof (induction k m i rule: mix_loop.induct)
  case (2 k m i)
  let ?m1 = "m[i := ((m ! i XOR ((m ! (i - 1) XOR drop_bit 30 (m ! (i - 1))) * 1566083941))
     - of_nat i) AND 0xffffffff]"
  obtain m2 i2 where w: "(m2, i2) = wrap_i (?m1, i + 1)" by (metis surj_pair)
  have "mt_ok ?m1" using "2.prems"(1) by (rule mt_ok_update) (rule small_and)
  from wrap_i_ok [OF this _ _ w] have "mt_ok m2" "1 \<le> i2" "i2 < N" using "2.prems"(3) by simp_all
  from "2.IH" [OF refl w refl this] show ?case by (simp only: mix_loop.simps Let_def w [symmetric] prod.case)
qed simp

lemma init_by_array_wf:
  assumes "length (mt st) = N" and "key \<noteq> []"
  shows "\<exists>st'. init_by_array key st = Inr st' \<and> mt_wf st' \<and> mti st' = N \<and> mt st' ! 0 = 0x80000000"
proof -
  define st1 where "st1 = init_genrand 19650218 st"
  from init_genrand_wf [OF assms(1), of 19650218] have st1: "mt_ok (mt st1)" "mti st1 = N"
    by (auto simp: st1_def mt_wf_def)
  obtain m i where k: "(m, i) = key_loop (max N (length key)) key (mt st1) 1 0" by (metis surj_pair)
  have "mt_ok m" "1 \<le> i" "i < N"
    using key_loop_ok [OF st1(1) _ _ _ k] assms(2) by (auto simp: N_def)
  then have "mt_ok (mix_loop (N - 1) m i)" by (rule mix_loop_ok)
  then have ok: "mt_ok ((mix_loop (N - 1) m i)[0 := 0x80000000])"
    by (rule mt_ok_update) (simp add: small_unat)
  then have "length (mix_loop (N - 1) m i) = N" by (simp add: mt_ok_def)
  then show ?thesis using assms(2) k [symmetric] st1 ok
    by (simp add: init_by_array_def st1_def [symmetric] mt_wf_def Let_def N_def)
qed

subsection \<open>The recurrence\<close>

text \<open>
  The sequence the generator computes, block by block in place: its first \<open>N\<close> words are the array,
  and every later word is a twist of three earlier ones.
\<close>

function mt_seq :: "64 word list \<Rightarrow> nat \<Rightarrow> 64 word" where
  "mt_seq m k =
     (if k < N then m ! k
      else twist (mt_seq m (k - N)) (mt_seq m (k - N + 1)) (mt_seq m (k - N + M)))"
  by auto
termination by (relation "measure snd") (auto simp: N_def M_def)

declare mt_seq.simps [simp del]

lemma mt_seq_low: "k < N \<Longrightarrow> mt_seq m k = m ! k"
  by (simp add: mt_seq.simps [of m k])

lemma mt_seq_high: "mt_seq m (N + k) = twist (mt_seq m k) (mt_seq m (k + 1)) (mt_seq m (k + M))"
  by (simp add: mt_seq.simps [of m "N + k"])

text \<open>The array when the words below \<open>k\<close> have been replaced.\<close>

definition regen_upto :: "64 word list \<Rightarrow> nat \<Rightarrow> 64 word list \<Rightarrow> bool" where
  "regen_upto m0 k m \<longleftrightarrow> length m = N \<and> (\<forall>j < N. m ! j = mt_seq m0 (if j < k then N + j else j))"

lemma regen_upto_step:
  "regen_upto m0 k m \<Longrightarrow> w = mt_seq m0 (N + k) \<Longrightarrow> regen_upto m0 (Suc k) (m[k := w])"
  by (auto simp: regen_upto_def nth_list_update less_Suc_eq)

lemma regen_upto_foldl:
  assumes "\<And>m j. a \<le> j \<Longrightarrow> j < b \<Longrightarrow> regen_upto m0 j m \<Longrightarrow> f m j = mt_seq m0 (N + j)"
    and "regen_upto m0 a m" and "a \<le> b"
  shows "regen_upto m0 b (foldl (\<lambda>m k. m[k := f m k]) m [a ..< b])"
  using assms(3,1)
proof (induction rule: dec_induct)
  case base
  then show ?case using assms(2) by simp
next
  case (step n)
  let ?m = "foldl (\<lambda>m k. m[k := f m k]) m [a ..< n]"
  have ih: "regen_upto m0 n ?m" using step by (intro step.IH) auto
  have "f ?m n = mt_seq m0 (N + n)" using ih step by (intro step.prems) auto
  from regen_upto_step [OF ih this] show ?case using step(1) by simp
qed

lemma regenerate_seq:
  assumes "length m = N"
  shows "length (regenerate m) = N \<and> (\<forall>j < N. regenerate m ! j = mt_seq m (N + j))"
proof -
  let ?f = "\<lambda>m k. twist (m ! k) (m ! (k + 1)) (m ! (k + M))"
  let ?g = "\<lambda>m k. twist (m ! k) (m ! (k + 1)) (m ! (k + M - N))"
  define m1 where "m1 = foldl (\<lambda>m k. m[k := ?f m k]) m [0 ..< N - M]"
  define m2 where "m2 = foldl (\<lambda>m k. m[k := ?g m k]) m1 [N - M ..< N - 1]"
  have "regen_upto m 0 m" using assms by (simp add: regen_upto_def mt_seq_low)
  then have 1: "regen_upto m (N - M) m1"
    unfolding m1_def
  proof (rule regen_upto_foldl [rotated])
    fix m' j assume j: "j < N - M" and r: "regen_upto m j m'"
    have "j < N" "j + 1 < N" "j + M < N" using j by (auto simp: N_def M_def)
    with r show "?f m' j = mt_seq m (N + j)" by (simp add: regen_upto_def mt_seq_high)
  qed simp
  then have 2: "regen_upto m (N - 1) m2"
    unfolding m2_def
  proof (rule regen_upto_foldl [rotated])
    fix m' j assume j: "N - M \<le> j" "j < N - 1" and r: "regen_upto m j m'"
    have "j < N" "j + 1 < N" "j + M - N < j" "N + (j + M - N) = j + M" using j by (auto simp: N_def M_def)
    with r show "?g m' j = mt_seq m (N + j)" by (simp add: regen_upto_def mt_seq_high)
  qed (simp add: N_def M_def)
  have N: "0 < N" "0 < N - 1" "M - 1 < N - 1" "M - 1 < N" "N - 1 < N" "N + (M - 1) = N - 1 + M" "N + 0 = N - 1 + 1"
    by (auto simp: N_def M_def)
  from 2 have at: "\<And>j. j < N \<Longrightarrow> m2 ! j = mt_seq m (if j < N - 1 then N + j else j)"
    by (simp add: regen_upto_def)
  have "twist (m2 ! (N - 1)) (m2 ! 0) (m2 ! (M - 1)) = mt_seq m (N + (N - 1))"
    unfolding mt_seq_high at [OF N(1)] at [OF N(4)] at [OF N(5)] if_P [OF N(2)] if_P [OF N(3)] N(6,7) by simp
  from regen_upto_step [OF 2 this] have "regen_upto m (Suc (N - 1)) (regenerate m)"
    by (simp add: regenerate_def Let_def m2_def m1_def)
  then show ?thesis using N(1) by (simp add: regen_upto_def)
qed

lemma mt_seq_shift:
  assumes "\<And>j. j < N \<Longrightarrow> m' ! j = mt_seq m (b + j)"
  shows "mt_seq m' k = mt_seq m (b + k)"
proof (induction k rule: less_induct)
  case (less k)
  show ?case
  proof (cases "k < N")
    case True
    then show ?thesis using assms by (simp add: mt_seq_low)
  next
    case False
    define i where "i = k - N"
    have k: "k = N + i" "b + k = N + (b + i)" using False by (auto simp: i_def)
    have "i < k" "i + 1 < k" "i + M < k" using k(1) by (auto simp: N_def M_def)
    with less [of i] less [of "i + 1"] less [of "i + M"]
    have "mt_seq m' i = mt_seq m (b + i)" "mt_seq m' (i + 1) = mt_seq m (b + i + 1)"
      "mt_seq m' (i + M) = mt_seq m (b + i + M)" by (simp_all add: add.assoc)
    then show ?thesis unfolding k(2) unfolding k(1) mt_seq_high by (simp only:)
  qed
qed

subsection \<open>The output stream\<close>

text \<open>The results of \<open>n\<close> calls of \<open>genrand_int32\<close>.\<close>

fun genrand_list :: "nat \<Rightarrow> mt_state \<Rightarrow> 64 word list" where
  "genrand_list 0 st = []"
| "genrand_list (Suc n) st = (let (y, st') = genrand_int32 st in y # genrand_list n st')"

text \<open>After \<open>n\<close> calls the array is one block of the sequence and \<open>mti\<close> points at word \<open>N + n\<close> of it.\<close>

definition mt_at :: "64 word list \<Rightarrow> nat \<Rightarrow> mt_state \<Rightarrow> bool" where
  "mt_at m n st \<longleftrightarrow> length (mt st) = N \<and> mti st \<le> N \<and>
     (\<exists>b. (\<forall>j < N. mt st ! j = mt_seq m (b + j)) \<and> b + mti st = N + n)"

lemma genrand_at:
  assumes "mt_at m n st"
  shows "fst (genrand_int32 st) = temper (mt_seq m (N + n))" and "mt_at m (Suc n) (snd (genrand_int32 st))"
proof -
  from assms obtain b where len: "length (mt st) = N" "mti st \<le> N" and b: "b + mti st = N + n"
    and blk: "\<And>j. j < N \<Longrightarrow> mt st ! j = mt_seq m (b + j)" by (auto simp: mt_at_def)
  have "fst (genrand_int32 st) = temper (mt_seq m (N + n)) \<and> mt_at m (Suc n) (snd (genrand_int32 st))"
  proof (cases "mti st = N")
    case True
    note r = regenerate_seq [OF len(1)]
    have "mt_seq (mt st) (N + j) = mt_seq m (N + n + j)" for j
      using mt_seq_shift [of "mt st" m b, OF blk] b True by (simp add: ac_simps)
    with r have new: "\<forall>j < N. regenerate (mt st) ! j = mt_seq m (N + n + j)" by simp
    have code: "genrand_int32 st =
        (temper (regenerate (mt st) ! 0), st\<lparr>mt := regenerate (mt st), mti := 1\<rparr>)"
      using True by (simp add: genrand_int32_def Let_def)
    show ?thesis unfolding code mt_at_def using new r
      by (auto simp: N_def intro!: exI [of _ "N + n"])
  next
    case False
    then have "mti st < N" using len(2) by simp
    then show ?thesis using blk len b
      by (auto simp: genrand_int32_def Let_def mt_at_def intro!: exI [of _ b])
  qed
  then show "fst (genrand_int32 st) = temper (mt_seq m (N + n))" "mt_at m (Suc n) (snd (genrand_int32 st))"
    by auto
qed

lemma genrand_list_at:
  "mt_at m n st \<Longrightarrow> genrand_list k st = map (\<lambda>i. temper (mt_seq m (N + n + i))) [0 ..< k]"
proof (induction k arbitrary: n st)
  case (Suc k)
  note g = genrand_at [OF Suc.prems]
  have "[0 ..< Suc k] = 0 # map Suc [0 ..< k]" by (simp only: map_Suc_upt upt_conv_Cons zero_less_Suc)
  then show ?case using g Suc.IH [OF g(2)]
    by (cases "genrand_int32 st") (simp add: comp_def del: upt_Suc)
qed simp

lemma mt_at_seeded:
  assumes "length (mt st) = N" and "mti st = N" shows "mt_at (mt st) 0 st"
  using assms by (auto simp: mt_at_def mt_seq_low intro!: exI [of _ 0])

subsection \<open>Tempering\<close>

lemma inj_xor_shift_left:
  fixes c :: "64 word"
  assumes "0 < k" shows "inj (\<lambda>y. y XOR (push_bit k y AND c))"
proof (rule injI, rule bit_word_eqI)
  fix x y :: "64 word" and n
  assume eq: "x XOR (push_bit k x AND c) = y XOR (push_bit k y AND c)" and "n < LENGTH(64)"
  then show "bit x n = bit y n"
  proof (induction n rule: less_induct)
    case (less n)
    have "bit (x XOR (push_bit k x AND c)) n = bit (y XOR (push_bit k y AND c)) n" using eq by simp
    moreover have "k \<le> n \<Longrightarrow> bit x (n - k) = bit y (n - k)" using less assms by simp
    ultimately show ?case using less.prems(2) by (auto simp: bit_simps)
  qed
qed

lemma inj_xor_shift_right:
  assumes "0 < k" shows "inj (\<lambda>y :: 64 word. y XOR drop_bit k y)"
proof (rule injI, rule bit_word_eqI)
  fix x y :: "64 word" and n
  assume eq: "x XOR drop_bit k x = y XOR drop_bit k y" and n: "n < LENGTH(64)"
  have "n < 64 \<longrightarrow> bit x n = bit y n" for n
  proof (induction "64 - n" arbitrary: n rule: less_induct)
    case less
    have "bit (x XOR drop_bit k x) n = bit (y XOR drop_bit k y) n" using eq by simp
    moreover have "n < 64 \<Longrightarrow> bit x (k + n) = bit y (k + n)"
      using less [of "k + n"] assms bit_imp_le_length [of x "k + n"] bit_imp_le_length [of y "k + n"]
      by (cases "k + n < 64") auto
    ultimately show ?case by (auto simp: bit_simps)
  qed
  with n show "bit x n = bit y n" by simp
qed

lemma inj_temper: "inj temper"
proof -
  have eq: "temper = (\<lambda>y. y XOR drop_bit 18 y) \<circ> (\<lambda>y. y XOR (push_bit 15 y AND 0xefc60000)) \<circ>
      (\<lambda>y. y XOR (push_bit 7 y AND 0x9d2c5680)) \<circ> (\<lambda>y. y XOR drop_bit 11 y)"
    by (simp add: fun_eq_iff temper_def Let_def)
  show ?thesis
    unfolding eq by (intro inj_compose inj_xor_shift_left inj_xor_shift_right) simp_all
qed

subsection \<open>Every call keeps the state well formed\<close>

lemma regenerate_ok:
  assumes "mt_ok m" shows "mt_ok (regenerate m)"
proof -
  have seq: "small (mt_seq m k)" for k
  proof (induction k rule: less_induct)
    case (less k)
    have "\<not> k < N \<Longrightarrow> k - N < k \<and> k - N + 1 < k \<and> k - N + M < k" by (auto simp: N_def M_def)
    then show ?case using less assms by (subst mt_seq.simps) (auto intro: small_twist mt_ok_nth)
  qed
  have "length m = N" using assms by (simp add: mt_ok_def)
  from regenerate_seq [OF this] seq show ?thesis by (auto simp: mt_ok_def in_set_conv_nth)
qed

lemma genrand_int32_wf:
  assumes "mt_wf st"
  shows "small (fst (genrand_int32 st))" and "mt_wf (snd (genrand_int32 st))"
proof -
  define st0 where "st0 = (if mti st = N + 1 then init_genrand 5489 st else st)"
  define st1 where "st1 = (if mti st \<ge> N then st0\<lparr>mt := regenerate (mt st0), mti := 0\<rparr> else st)"
  have code: "genrand_int32 st = (temper (mt st1 ! mti st1), st1\<lparr>mti := mti st1 + 1\<rparr>)"
    by (simp add: genrand_int32_def st1_def st0_def Let_def)
  have "mt_ok (mt st0)" using assms init_genrand_wf(1) [of st 5489] by (auto simp: st0_def mt_wf_def mt_ok_def)
  then have ok: "mt_ok (mt st1)" "mti st1 < N"
    using assms regenerate_ok by (auto simp: st1_def mt_wf_def N_def)
  then show "mt_wf (snd (genrand_int32 st))" by (simp add: code mt_wf_def)
  show "small (fst (genrand_int32 st))" using ok mt_ok_nth small_temper by (simp add: code)
qed

lemma mt_start_wf: "mt_wf mt_start"
  by (simp add: mt_start_def mt_wf_def mt_ok_def small_consts)

text \<open>The values below \<open>n\<close> follow the seeding recurrence.\<close>

definition seeded :: "64 word list \<Rightarrow> nat \<Rightarrow> bool" where
  "seeded m n \<longleftrightarrow> (\<forall>i. 1 \<le> i \<and> i < n \<longrightarrow>
     m ! i = (1812433253 * (m ! (i - 1) XOR drop_bit 30 (m ! (i - 1))) + of_nat i) AND 0xffffffff)"

lemma seeded_step:
  assumes "seeded m n" and "1 \<le> n" and "n < length m"
  shows "seeded (init_step m n) (Suc n) \<and> init_step m n ! 0 = m ! 0"
proof -
  have at: "init_step m n ! j = (if j = n
      then (1812433253 * (m ! (n - 1) XOR drop_bit 30 (m ! (n - 1))) + of_nat n) AND 0xffffffff
      else m ! j)" if "j \<le> n" for j
    using that assms(3) by (simp add: init_step_def)
  have "init_step m n ! i = (1812433253 * (init_step m n ! (i - 1) XOR drop_bit 30 (init_step m n ! (i - 1)))
      + of_nat i) AND 0xffffffff" if "1 \<le> i" "i < Suc n" for i
  proof (cases "i = n")
    case True
    have "n - 1 \<noteq> n" using assms(2) by simp
    then show ?thesis using True at [of n] at [of "n - 1"] by simp
  next
    case False
    then have "m ! i = (1812433253 * (m ! (i - 1) XOR drop_bit 30 (m ! (i - 1))) + of_nat i) AND 0xffffffff"
      using assms(1) that unfolding seeded_def by auto
    moreover have "i - 1 \<noteq> n" using that False by simp
    ultimately show ?thesis using False that at [of i] at [of "i - 1"] by simp
  qed
  then show ?thesis unfolding seeded_def using at [of 0] assms(2) by simp
qed

lemma foldl_init_seeded:
  assumes "length m = N" and "1 \<le> n" and "n \<le> N"
  shows "seeded (foldl init_step m [1 ..< n]) n \<and> foldl init_step m [1 ..< n] ! 0 = m ! 0"
  using assms(2,3)
proof (induction n rule: dec_induct)
  case base
  then show ?case by (simp add: seeded_def)
next
  case (step n)
  have "n < length (foldl init_step m [1 ..< n])" using assms(1) step by (simp add: length_init)
  moreover have "seeded (foldl init_step m [1 ..< n]) n" "foldl init_step m [1 ..< n] ! 0 = m ! 0"
    using step by auto
  moreover have "foldl init_step m [1 ..< Suc n] = init_step (foldl init_step m [1 ..< n]) n"
    using step by simp
  ultimately show ?case using seeded_step [OF _ step(1)] by metis
qed

subsection \<open>Properties\<close>

text \<open>
  C13: The output stream. After seeding with \<open>init_genrand\<close> the results of the calls of \<open>genrand_int32\<close>
  are, in order and without end, the tempered words \<open>N\<close>, \<open>N + 1\<close>, ... of the recurrence that starts
  with the seeded array: the in-place regeneration in three loops, every \<open>N\<close> calls, computes
  exactly the next block.
\<close>

theorem genrand_stream:
  assumes "length (mt st) = N"
  shows "genrand_list n (init_genrand s st) =
    map (\<lambda>i. temper (mt_seq (mt (init_genrand s st)) (N + i))) [0 ..< n]"
proof -
  have "length (mt (init_genrand s st)) = N" using init_genrand_wf(1) [OF assms] by (simp add: mt_wf_def mt_ok_def)
  from genrand_list_at [OF mt_at_seeded [OF this init_genrand_wf(2) [OF assms]]] show ?thesis by simp
qed

theorem genrand_stream_witness:
  "genrand_list 700 (init_genrand 5489 mt_start) =
     map (\<lambda>i. temper (mt_seq (mt (init_genrand 5489 mt_start)) (N + i))) [0 ..< 700]"
  by (rule genrand_stream) (simp add: mt_start_def)

text \<open>
  Seeding. \<open>init_genrand\<close> fills the whole array with the recurrence of its comment, reduced to 32
  bits, whatever the array held before; and a generator that was never seeded behaves as if it
  had been seeded with 5489.
\<close>

lemma init_genrand_recurrence:
  assumes "length (mt st) = N" and "x = (\<lambda>i. mt (init_genrand s st) ! i)"
  shows "x 0 = s AND 0xffffffff \<and>
    (\<forall>i. 1 \<le> i \<and> i < N \<longrightarrow>
       x i = (1812433253 * (x (i - 1) XOR drop_bit 30 (x (i - 1))) + of_nat i) AND 0xffffffff) \<and>
    (mti st = N + 1 \<longrightarrow> genrand_int32 st = genrand_int32 (init_genrand 5489 st))"
proof -
  have "length ((mt st)[0 := s AND 0xffffffff]) = N" "1 \<le> N" "0 < length (mt st)"
    using assms(1) by (auto simp: N_def)
  from foldl_init_seeded [OF this(1,2) le_refl] this(3)
  have "x 0 = s AND 0xffffffff \<and> (\<forall>i. 1 \<le> i \<and> i < N \<longrightarrow>
       x i = (1812433253 * (x (i - 1) XOR drop_bit 30 (x (i - 1))) + of_nat i) AND 0xffffffff)"
    by (simp add: assms(2) init_genrand_def seeded_def)
  moreover have "mti st = N + 1 \<Longrightarrow> genrand_int32 st = genrand_int32 (init_genrand 5489 st)"
    using init_genrand_wf(2) [OF assms(1), of 5489] by (simp add: genrand_int32_def Let_def)
  ultimately show ?thesis by blast
qed

lemma init_genrand_recurrence_witness:
  "mt (init_genrand 7 mt_start) ! 0 = 7 \<and> genrand_int32 mt_start = genrand_int32 (init_genrand 5489 mt_start)"
  using init_genrand_recurrence [of mt_start "\<lambda>i. mt (init_genrand 7 mt_start) ! i" 7]
  by (auto simp: mt_start_def)

text \<open>
  Seeding by array. With a nonempty key \<open>init_by_array\<close> stays inside the array and the key, and
  leaves a well-formed array that is not zero: its first word is \<open>0x80000000\<close>.
\<close>

lemma init_by_array_correct:
  assumes "length (mt st) = N" and "key \<noteq> []"
  shows "\<exists>st'. init_by_array key st = Inr st' \<and> mt_wf st' \<and> mt st' ! 0 = 0x80000000 \<and>
    genrand_list n st' = map (\<lambda>i. temper (mt_seq (mt st') (N + i))) [0 ..< n]"
proof -
  from init_by_array_wf [OF assms] obtain st' where st': "init_by_array key st = Inr st'" "mt_wf st'"
    "mti st' = N" "mt st' ! 0 = 0x80000000" by blast
  then have "length (mt st') = N" by (simp add: mt_wf_def mt_ok_def)
  from genrand_list_at [OF mt_at_seeded [OF this st'(3)]] st' show ?thesis by simp
qed

lemma init_by_array_correct_witness:
  "\<exists>st'. init_by_array [0x123, 0x234, 0x345, 0x456] mt_start = Inr st' \<and> mt_wf st'"
  using init_by_array_correct [of mt_start "[0x123, 0x234, 0x345, 0x456]"] by (auto simp: mt_start_def)

text \<open>
  Tempering is a permutation of the 32-bit words: it loses nothing of the state word, and every
  output is possible.
\<close>

lemma temper_bij: "bij_betw temper {w. unat w < 2 ^ 32} {w. unat w < 2 ^ 32}"
proof -
  let ?S = "{w :: 64 word. unat w < 2 ^ 32}"
  have "inj_on temper ?S" using inj_temper by (rule inj_on_subset) simp
  moreover have "temper ` ?S \<subseteq> ?S" using small_temper by (auto simp: small_unat)
  ultimately show ?thesis by (simp add: bij_betw_def endo_inj_surj)
qed

end
