(* ===== verification/Doubles.thy ===== *)
theory Doubles
  imports Prelude Complex_Main
begin

text \<open>
  The \<open>double\<close> arithmetic that \<open>assignments/a1/mt19937ar.c\<close> uses: every conversion and every operation is
  the real result rounded to 53 significant bits, to the nearest and to the even one in a tie (IEEE
  754 binary64, the default of the compiler and of the machine). The generator stays between
  \<open>2 ^ -64\<close> and \<open>2 ^ 64\<close>, so there is no overflow, and zero is the only number below the normal range.
\<close>

subsection \<open>Rounding\<close>

definition round_even :: "real \<Rightarrow> int" where
  "round_even x =
     (let n = \<lfloor>x\<rfloor>; d = x - of_int n in
      if d < 1 / 2 then n else if d > 1 / 2 then n + 1 else if even n then n else n + 1)"

text \<open>The exponent of a number: \<open>2 ^ binade x \<le> \<bar>x\<bar> < 2 ^ (binade x + 1)\<close>.\<close>

definition binade :: "real \<Rightarrow> int" where
  "binade x = \<lfloor>log 2 \<bar>x\<bar>\<rfloor>"

definition dbl :: "real \<Rightarrow> real" where
  "dbl x =
     (if x = 0 then 0
      else let u = 2 powr of_int (binade x - 52) in of_int (round_even (x / u)) * u)"

subsection \<open>Rounding to an integer\<close>

lemma round_even_of_int [simp]: "round_even (of_int n) = n"
  by (simp add: round_even_def)

lemma round_even_err: "\<bar>of_int (round_even x) - x\<bar> \<le> 1 / 2"
  unfolding round_even_def Let_def by (auto simp: abs_le_iff; linarith)

lemma round_even_down: "of_int n \<le> x \<Longrightarrow> x < of_int n + 1 / 2 \<Longrightarrow> round_even x = n"
proof -
  assume "of_int n \<le> x" "x < of_int n + 1 / 2"
  moreover from this have "\<lfloor>x\<rfloor> = n" by linarith
  ultimately show ?thesis by (simp add: round_even_def)
qed

subsection \<open>Rounding to 53 bits\<close>

lemma binade_eqI:
  assumes "2 powr of_int k \<le> \<bar>x\<bar>" "\<bar>x\<bar> < 2 powr (of_int k + 1)"
  shows "binade x = k"
proof -
  have "0 < \<bar>x\<bar>" using assms(1) powr_gt_zero [of 2 "of_int k"] by linarith
  with assms show ?thesis unfolding binade_def
    by (intro floor_unique) (simp_all add: le_log_iff log_less_iff)
qed

lemma binade_bounds:
  assumes "x \<noteq> 0"
  shows "2 powr of_int (binade x) \<le> \<bar>x\<bar>" and "\<bar>x\<bar> < 2 powr (of_int (binade x) + 1)"
  using assms floor_correct [of "log 2 \<bar>x\<bar>"] by (simp_all add: binade_def le_log_iff [symmetric] log_less_iff [symmetric])

lemma binade_lt: "x \<noteq> 0 \<Longrightarrow> \<bar>x\<bar> < 2 powr of_int k \<Longrightarrow> binade x < k"
proof -
  assume "x \<noteq> 0" "\<bar>x\<bar> < 2 powr of_int k"
  with binade_bounds(1) [of x] have "(2 :: real) powr of_int (binade x) < 2 powr of_int k" by linarith
  then show ?thesis by simp
qed

text \<open>A number of 53 bits, scaled by a power of two, is a double.\<close>

lemma dbl_exact:
  assumes "\<bar>m\<bar> < 2 ^ 53"
  shows "dbl (of_int m * 2 powr of_int e) = of_int m * 2 powr of_int e"
proof (cases "m = 0")
  case False
  let ?x = "of_int m * 2 powr of_int e :: real"
  define u :: real where "u = 2 powr of_int (binade ?x - 52)"
  have "\<bar>of_int m :: real\<bar> < 2 ^ 53" using assms by (metis of_int_abs of_int_less_iff of_int_numeral of_int_power)
  then have "\<bar>?x\<bar> < 2 powr 53 * 2 powr of_int e" by (simp add: abs_mult powr_numeral)
  also have "\<dots> = 2 powr of_int (53 + e)" by (simp add: powr_add)
  finally have "binade ?x < 53 + e" using False by (intro binade_lt) simp_all
  then obtain n where n: "e = (binade ?x - 52) + int n" using zle_iff_zadd [of "binade ?x - 52" e] by auto
  have "2 powr of_int e = u * 2 powr real n"
    unfolding u_def by (subst n) (simp only: of_int_add of_int_of_nat_eq powr_add)
  then have "?x = of_int (m * 2 ^ n) * u" by (simp add: powr_realpow)
  moreover have "u \<noteq> 0" by (simp add: u_def)
  ultimately have "?x / u = of_int (m * 2 ^ n)" by (simp add: nonzero_divide_eq_eq)
  then have "round_even (?x / u) = m * 2 ^ n" by (simp only: round_even_of_int)
  moreover have "dbl ?x = of_int (round_even (?x / u)) * u"
    using False by (simp only: dbl_def Let_def u_def) simp
  ultimately show ?thesis using \<open>?x = _\<close> by (simp only:)
qed (simp add: dbl_def)

lemma dbl_err:
  assumes "x \<noteq> 0" "\<bar>x\<bar> < 2 powr of_int k"
  shows "\<bar>dbl x - x\<bar> \<le> 2 powr of_int (k - 54)"
proof -
  let ?u = "2 powr of_int (binade x - 52) :: real"
  have "dbl x - x = (of_int (round_even (x / ?u)) - x / ?u) * ?u"
    using assms(1) by (simp add: dbl_def Let_def algebra_simps)
  then have "\<bar>dbl x - x\<bar> = \<bar>of_int (round_even (x / ?u)) - x / ?u\<bar> * ?u" by (simp add: abs_mult)
  also have "\<dots> \<le> 1 / 2 * ?u" by (intro mult_right_mono round_even_err) simp
  also have "\<dots> = 2 powr of_int (binade x - 53)" by (simp add: powr_diff field_simps flip: powr_numeral)
  also have "\<dots> \<le> 2 powr of_int (k - 54)" using binade_lt [OF assms] by (intro powr_mono) auto
  finally show ?thesis .
qed

lemma dbl_pos:
  assumes "0 < x" shows "0 < dbl x"
proof -
  let ?u = "2 powr of_int (binade x - 52) :: real"
  have "1 * ?u \<le> 2 powr of_int (binade x)" by (simp add: powr_diff)
  also have "\<dots> \<le> x" using binade_bounds(1) [of x] assms by simp
  finally have "1 \<le> x / ?u" by (simp add: le_divide_eq)
  with round_even_err [of "x / ?u"] have "0 < (of_int (round_even (x / ?u)) :: real)" by linarith
  with assms show ?thesis by (simp add: dbl_def Let_def)
qed

lemma dbl_0 [simp]: "dbl 0 = 0"
  by (simp add: dbl_def)

end
