(* ===== verification/Mersenne_Real.thy ===== *)
theory Mersenne_Real
  imports Mersenne Doubles
begin

text \<open>
  The real versions of the generator, \<open>assignments/a1/mt19937ar.c\<close>, lines 139 to 172, with every
  conversion to \<open>double\<close> and every operation rounded. The constants written with a decimal point are
  integers below \<open>2 ^ 53\<close> or \<open>0.5\<close>, and so exact. Three of the functions never round; \<open>genrand_real1\<close>
  does, in the constant and in the product, and reaches both ends of its interval.
\<close>

unbundle bit_operations_syntax

subsection \<open>The functions\<close>

definition genrand_real1 :: "mt_state \<Rightarrow> real \<times> mt_state" where
  "genrand_real1 st =
     (let (y, st') = genrand_int32 st in (dbl (dbl (real (unat y)) * dbl (1 / 4294967295)), st'))"

definition genrand_real2 :: "mt_state \<Rightarrow> real \<times> mt_state" where
  "genrand_real2 st =
     (let (y, st') = genrand_int32 st in (dbl (dbl (real (unat y)) * dbl (1 / 4294967296)), st'))"

definition genrand_real3 :: "mt_state \<Rightarrow> real \<times> mt_state" where
  "genrand_real3 st =
     (let (y, st') = genrand_int32 st
      in (dbl (dbl (dbl (real (unat y)) + 1 / 2) * dbl (1 / 4294967296)), st'))"

definition genrand_res53 :: "mt_state \<Rightarrow> real \<times> mt_state" where
  "genrand_res53 st =
     (let (y, st1) = genrand_int32 st; (z, st2) = genrand_int32 st1;
          a = drop_bit 5 y; b = drop_bit 6 z
      in (dbl (dbl (dbl (dbl (real (unat a)) * 67108864) + dbl (real (unat b))) * dbl (1 / 9007199254740992)), st2))"

subsection \<open>Which values are exact\<close>

text \<open>A fraction \<open>n / 2 ^ k\<close> with \<open>n < 2 ^ 53\<close> is a double.\<close>

lemma dbl_dyadic: "n < 2 ^ 53 \<Longrightarrow> dbl (real n / 2 ^ k) = real n / 2 ^ k"
  using dbl_exact [of "int n" "- int k"] by (simp add: powr_minus powr_realpow divide_inverse)

lemma dbl_nat: "n < 2 ^ 53 \<Longrightarrow> dbl (real n) = real n"
  using dbl_dyadic [of n 0] by simp

lemma dbl_half: "n < 2 ^ 52 \<Longrightarrow> dbl (real n + 1 / 2) = real (2 * n + 1) / 2"
  using dbl_dyadic [of "2 * n + 1" 1] by (simp add: add_divide_distrib add.commute)

lemma dbl_scales:
  "dbl (1 / 4294967296) = 1 / 2 ^ 32" "dbl (1 / 9007199254740992) = 1 / 2 ^ 53"
  using dbl_dyadic [of 1 32] dbl_dyadic [of 1 53] by simp_all

text \<open>The constant of \<open>genrand_real1\<close> is not exact: it rounds to \<open>2 ^ -32 + 2 ^ -64\<close>.\<close>

lemma powr_neg_numeral: "(2 :: real) powr (- numeral k) = 1 / 2 ^ numeral k"
  by (simp add: powr_minus_divide)

lemma dbl_real1: "dbl (1 / 4294967295) = (2 ^ 32 + 1) / 2 ^ 64"
proof -
  have "binade (1 / 4294967295) = -32"
    by (rule binade_eqI) (simp_all add: powr_neg_numeral)
  moreover have "round_even (1 / 4294967295 * 2 ^ 84) = 2 ^ 52 + 2 ^ 20"
    by (rule round_even_down) simp_all
  ultimately show ?thesis by (simp add: dbl_def powr_neg_numeral)
qed

lemma real2_exact: "n < 2 ^ 32 \<Longrightarrow> dbl (dbl (real n) * dbl (1 / 4294967296)) = real n / 2 ^ 32"
  using dbl_dyadic [of n 32] by (simp add: dbl_nat dbl_scales)

lemma real3_exact:
  assumes "n < 2 ^ 32"
  shows "dbl (dbl (dbl (real n) + 1 / 2) * dbl (1 / 4294967296)) = (real n + 1 / 2) / 2 ^ 32"
proof -
  have "dbl (real (2 * n + 1) / 2 ^ 33) = real (2 * n + 1) / 2 ^ 33" using assms by (intro dbl_dyadic) simp
  with assms show ?thesis by (simp add: dbl_nat dbl_half dbl_scales add_divide_distrib)
qed

lemma res53_exact:
  assumes "a < 2 ^ 27" "b < 2 ^ 26"
  shows "dbl (dbl (dbl (dbl (real a) * 67108864) + dbl (real b)) * dbl (1 / 9007199254740992)) =
    real (a * 2 ^ 26 + b) / 2 ^ 53"
proof -
  have "dbl (real (a * 2 ^ 26)) = real (a * 2 ^ 26)" "dbl (real (a * 2 ^ 26 + b)) = real (a * 2 ^ 26 + b)"
    "dbl (real (a * 2 ^ 26 + b) / 2 ^ 53) = real (a * 2 ^ 26 + b) / 2 ^ 53"
    using assms by (intro dbl_nat dbl_dyadic; simp)+
  with assms show ?thesis by (simp add: dbl_nat dbl_scales)
qed

subsection \<open>Ranges\<close>

lemma real1_range:
  assumes "n < 2 ^ 32"
  defines "r \<equiv> dbl (dbl (real n) * dbl (1 / 4294967295))"
  shows "0 \<le> r \<and> r \<le> 1 \<and> (r = 0 \<longleftrightarrow> n = 0) \<and> (r = 1 \<longleftrightarrow> n = 2 ^ 32 - 1)"
proof -
  define x where "x = real n * ((2 ^ 32 + 1) / 2 ^ 64)"
  have r: "r = dbl x" using assms(1) by (simp add: r_def x_def dbl_nat dbl_real1)
  consider "n = 0" | "n = 2 ^ 32 - 1" | "0 < n" "n \<le> 2 ^ 32 - 2" using assms(1) by force
  then show ?thesis
  proof cases
    case 1 then show ?thesis by (simp add: r x_def)
  next
    case 2
    then have x: "x = 1 - 1 / 2 ^ 64" by (simp add: x_def)
    have "binade x = -1" by (rule binade_eqI) (simp_all add: x powr_minus)
    moreover have "round_even (x * 2 ^ 53) = 2 ^ 53" by (simp add: x round_even_def)
    ultimately have "dbl x = 1" by (simp add: dbl_def powr_neg_numeral x)
    then show ?thesis using 2 by (simp add: r)
  next
    case 3
    then have "real n \<le> 2 ^ 32 - 2" by simp
    then have "x \<le> (2 ^ 32 - 2) * ((2 ^ 32 + 1) / 2 ^ 64)" unfolding x_def by (rule mult_right_mono) simp
    moreover have "0 < x" using 3 by (simp add: x_def)
    moreover from calculation have "\<bar>dbl x - x\<bar> \<le> 1 / 2 ^ 54"
      using dbl_err [of x 0] by (simp add: powr_neg_numeral)
    ultimately have "dbl x < 1" unfolding abs_le_iff by simp
    with dbl_pos [OF \<open>0 < x\<close>] have "0 < dbl x" "dbl x < 1" .
    then show ?thesis using 3 by (simp add: r)
  qed
qed

text \<open>
  C38: Well-formedness and ranges. Every call keeps the array at \<open>N\<close> words of 32 bits and the index in
  range, although the words have 64 bits; \<open>genrand_int32\<close> returns less than \<open>2 ^ 32\<close> and
  \<open>genrand_int31\<close> less than \<open>2 ^ 31\<close>. In double arithmetic \<open>genrand_real1\<close> lies in [0, 1] and reaches 0
  and 1 exactly for the least and the greatest word, although both its factor and its product are
  rounded; \<open>genrand_real2\<close> lies in [0, 1), \<open>genrand_real3\<close> in (0, 1) and \<open>genrand_res53\<close> in [0, 1), all
  three without any rounding.
\<close>

theorem genrand_ranges:
  assumes "mt_wf st" and "genrand_int32 st = (y, st1)" and "genrand_int32 st1 = (z, st2)"
  shows "mt_wf st1 \<and> unat y < 2 ^ 32 \<and>
    (let (w, st') = genrand_int31 st in st' = st1 \<and> unat w < 2 ^ 31) \<and>
    (let (r, st') = genrand_real1 st
     in st' = st1 \<and> 0 \<le> r \<and> r \<le> 1 \<and> (r = 0 \<longleftrightarrow> y = 0) \<and> (r = 1 \<longleftrightarrow> y = 0xffffffff)) \<and>
    genrand_real2 st = (real (unat y) / 2 ^ 32, st1) \<and>
    genrand_real3 st = ((real (unat y) + 1 / 2) / 2 ^ 32, st1) \<and>
    (\<exists>n < 2 ^ 53. genrand_res53 st = (real n / 2 ^ 53, st2))"
proof -
  from genrand_int32_wf [OF assms(1)] assms(2) have y: "small y" "mt_wf st1" by auto
  with genrand_int32_wf [of st1] assms(3) have s: "unat y < 2 ^ 32" "unat z < 2 ^ 32" by (auto simp: small_unat)
  have ab: "unat (drop_bit 5 y) < 2 ^ 27" "unat (drop_bit 6 z) < 2 ^ 26" "unat (drop_bit 1 y) < 2 ^ 31"
    using s by (auto simp: drop_bit_eq_div unat_div_distrib)
  have "y = 0xffffffff \<longleftrightarrow> unat y = 2 ^ 32 - 1" by (simp add: word_unat_eq_iff)
  with real1_range [OF s(1)] have r1: "let (r, st') = genrand_real1 st
     in st' = st1 \<and> 0 \<le> r \<and> r \<le> 1 \<and> (r = 0 \<longleftrightarrow> y = 0) \<and> (r = 1 \<longleftrightarrow> y = 0xffffffff)"
    by (simp add: genrand_real1_def assms(2) unat_eq_0)
  have r2: "genrand_real2 st = (real (unat y) / 2 ^ 32, st1)"
    by (simp only: genrand_real2_def assms(2) Let_def prod.case real2_exact [OF s(1)])
  have r3: "genrand_real3 st = ((real (unat y) + 1 / 2) / 2 ^ 32, st1)"
    by (simp only: genrand_real3_def assms(2) Let_def prod.case real3_exact [OF s(1)])
  have r53: "genrand_res53 st = (real (unat (drop_bit 5 y) * 2 ^ 26 + unat (drop_bit 6 z)) / 2 ^ 53, st2)"
    by (simp only: genrand_res53_def assms(2,3) Let_def prod.case res53_exact [OF ab(1,2)])
  have "unat (drop_bit 5 y) * 2 ^ 26 + unat (drop_bit 6 z) < 2 ^ 53" using ab by simp
  with r53 have "\<exists>n < 2 ^ 53. genrand_res53 st = (real n / 2 ^ 53, st2)" by blast
  with y s ab r1 r2 r3 show ?thesis by (simp add: genrand_int31_def assms(2))
qed

theorem genrand_ranges_witness:
  "unat (fst (genrand_int32 mt_start)) < 2 ^ 32 \<and> fst (genrand_real1 mt_start) \<le> 1 \<and>
    genrand_real2 mt_start = (real (unat (fst (genrand_int32 mt_start))) / 2 ^ 32, snd (genrand_int32 mt_start))"
  using genrand_ranges [OF mt_start_wf prod.collapse [symmetric] prod.collapse [symmetric]]
  by (simp add: case_prod_beta Let_def)

end
