(* ===== verification/Disk.thy ===== *)
theory Disk
  imports Prelude
begin

text \<open>
  Bytes on a block device: copying with its out-of-range accesses, blockwise transformation of
  byte strings, and the contract of a block device (a locale) with what follows for its clients.
\<close>

subsection \<open>Copying\<close>

type_synonym bytes = "8 word list"

definition patch :: "'a list \<Rightarrow> nat \<Rightarrow> 'a list \<Rightarrow> 'a list" where
  "patch xs i ys = take i xs @ ys @ drop (i + length ys) xs"

text \<open>Reading and writing memory at a byte offset; outside the object it is a wild access.\<close>

definition copy_at :: "bytes \<Rightarrow> int \<Rightarrow> bytes \<Rightarrow> bytes result" where
  "copy_at xs off ys =
     (if 0 \<le> off \<and> off + int (length ys) \<le> int (length xs) then Inr (patch xs (nat off) ys) else Inl Wild)"

definition read_at :: "bytes \<Rightarrow> int \<Rightarrow> nat \<Rightarrow> bytes result" where
  "read_at xs off n =
     (if 0 \<le> off \<and> off + int n \<le> int (length xs) then Inr (take n (drop (nat off) xs)) else Inl Wild)"

lemma length_patch [simp]: "i + length ys \<le> length xs \<Longrightarrow> length (patch xs i ys) = length xs"
  by (simp add: patch_def)

lemma patch_Nil [simp]: "patch xs i [] = xs"
  by (simp add: patch_def)

lemma patch_read: "i + length ys \<le> length xs \<Longrightarrow> take (length ys) (drop i (patch xs i ys)) = ys"
  by (simp add: patch_def)

lemma patch_append:
  "i + length ys + length zs \<le> length xs \<Longrightarrow> patch (patch xs i ys) (i + length ys) zs = patch xs i (ys @ zs)"
  by (simp add: patch_def ac_simps)

lemma nth_patch:
  "i + length ys \<le> length xs \<Longrightarrow> k < length xs \<Longrightarrow>
   patch xs i ys ! k = (if i \<le> k \<and> k < i + length ys then ys ! (k - i) else xs ! k)"
  by (auto simp: patch_def nth_append)

lemma patch_other:
  assumes "i + length ys \<le> length xs" and "j + n \<le> length xs" and "j + n \<le> i \<or> i + length ys \<le> j"
  shows "take n (drop j (patch xs i ys)) = take n (drop j xs)"
  using assms by (intro nth_equalityI) (auto simp: nth_patch)

lemma patch_patch:
  "i + length ys \<le> length xs \<Longrightarrow> length zs = length ys \<Longrightarrow> patch (patch xs i ys) i zs = patch xs i zs"
  by (simp add: patch_def)

subsection \<open>Blocks\<close>

function chunks :: "nat \<Rightarrow> 'a list \<Rightarrow> 'a list list" where
  "chunks bs xs = (if bs = 0 \<or> xs = [] then [] else take bs xs # chunks bs (drop bs xs))"
  by auto
termination by (relation "measure (length \<circ> snd)") auto

declare chunks.simps [simp del]

lemma chunks_Nil [simp]: "chunks bs [] = []" "chunks 0 xs = []"
  by (simp_all add: chunks.simps [of bs "[]"] chunks.simps [of 0 xs])

lemma concat_chunks: "0 < bs \<Longrightarrow> concat (chunks bs xs) = xs"
proof (induction bs xs rule: chunks.induct)
  case (1 bs xs)
  then show ?case by (cases "xs = []") (simp_all add: chunks.simps [of bs xs])
qed

definition blockwise :: "nat \<Rightarrow> ('a list \<Rightarrow> 'a list) \<Rightarrow> 'a list \<Rightarrow> 'a list" where
  "blockwise bs f xs = concat (map f (chunks bs xs))"

lemma blockwise_map: "0 < bs \<Longrightarrow> blockwise bs (map f) xs = map f xs"
  using concat_chunks [of bs xs] by (simp add: blockwise_def flip: map_concat)

lemma blockwise_Nil [simp]: "blockwise bs f [] = []"
  by (simp add: blockwise_def)

lemma blockwise_step:
  "0 < bs \<Longrightarrow> xs \<noteq> [] \<Longrightarrow> blockwise bs f xs = f (take bs xs) @ blockwise bs f (drop bs xs)"
  by (simp add: blockwise_def chunks.simps [of bs xs])

lemma blockwise_one: "0 < bs \<Longrightarrow> length xs = bs \<Longrightarrow> blockwise bs f xs = f xs"
  using blockwise_step [of bs xs f] by fastforce

lemma blockwise_append:
  assumes "bs dvd length xs" shows "blockwise bs f (xs @ ys) = blockwise bs f xs @ blockwise bs f ys"
  using assms
proof (induction bs xs rule: chunks.induct)
  case (1 bs xs)
  show ?case
  proof (cases "bs = 0 \<or> xs = []")
    case True
    then show ?thesis using 1(2) by (auto simp: blockwise_def)
  next
    case False
    with 1(2) have "bs \<le> length xs" by (simp add: dvd_imp_le)
    moreover from this have "bs dvd length (drop bs xs)" using 1(2) by (simp add: dvd_diff_nat)
    ultimately show ?thesis using 1(1) False by (simp add: blockwise_step)
  qed
qed

lemma length_blockwise:
  assumes "bs dvd length xs" and "0 < bs" and "\<And>b. length b = bs \<Longrightarrow> length (f b) = bs"
  shows "length (blockwise bs f xs) = length xs"
  using assms(1)
proof (induction xs rule: length_induct)
  case (1 xs)
  show ?case
  proof (cases "xs = []")
    case False
    with 1(2) have le: "bs \<le> length xs" by (simp add: dvd_imp_le)
    have "bs dvd length (drop bs xs)" using 1(2) le by (simp add: dvd_diff_nat)
    then have "length (blockwise bs f (drop bs xs)) = length xs - bs" using 1(1) le assms(2) False by simp
    moreover have "blockwise bs f xs = f (take bs xs) @ blockwise bs f (drop bs xs)"
      using False assms(2) by (simp add: blockwise_step)
    ultimately show ?thesis using le assms(3) by simp
  qed simp
qed

lemma blockwise_inverse:
  assumes "bs dvd length xs" and "0 < bs" and "\<And>b. length b = bs \<Longrightarrow> length (f b) = bs \<and> g (f b) = b"
  shows "blockwise bs g (blockwise bs f xs) = xs"
  using assms(1)
proof (induction xs rule: length_induct)
  case (1 xs)
  show ?case
  proof (cases "xs = []")
    case False
    with 1(2) have le: "bs \<le> length xs" by (simp add: dvd_imp_le)
    have d: "bs dvd length (drop bs xs)" using 1(2) le by (simp add: dvd_diff_nat)
    then have ih: "blockwise bs g (blockwise bs f (drop bs xs)) = drop bs xs" using 1(1) le assms(2) False by simp
    have b: "length (f (take bs xs)) = bs" "g (f (take bs xs)) = take bs xs" using assms(3) le by auto
    have "blockwise bs f xs = f (take bs xs) @ blockwise bs f (drop bs xs)"
      using False assms(2) by (simp add: blockwise_step)
    then have "blockwise bs g (blockwise bs f xs) =
        blockwise bs g (f (take bs xs)) @ blockwise bs g (blockwise bs f (drop bs xs))"
      by (simp add: blockwise_append b)
    also have "\<dots> = take bs xs @ drop bs xs" using b ih assms(2) by (simp add: blockwise_one)
    finally show ?thesis by simp
  qed simp
qed

lemma blockwise_take_drop:
  assumes "bs dvd length xs" and "bs dvd n" and "n \<le> length xs" and "0 < bs"
    and "\<And>b. length b = bs \<Longrightarrow> length (f b) = bs"
  shows "take n (blockwise bs f xs) = blockwise bs f (take n xs)"
    and "drop n (blockwise bs f xs) = blockwise bs f (drop n xs)"
proof -
  have len: "length (blockwise bs f (take n xs)) = n"
    using length_blockwise [of bs "take n xs" f] assms by simp
  have "blockwise bs f xs = blockwise bs f (take n xs) @ blockwise bs f (drop n xs)"
    using blockwise_append [of bs "take n xs" f "drop n xs"] assms by simp
  then show "take n (blockwise bs f xs) = blockwise bs f (take n xs)"
    "drop n (blockwise bs f xs) = blockwise bs f (drop n xs)" using len by simp_all
qed

lemma blockwise_patch:
  assumes "bs dvd length xs" and "bs dvd i" and "bs dvd length ys" and "i + length ys \<le> length xs"
    and "0 < bs" and "\<And>b. length b = bs \<Longrightarrow> length (f b) = bs"
  shows "blockwise bs f (patch xs i ys) = patch (blockwise bs f xs) i (blockwise bs f ys)"
proof -
  have len: "length (blockwise bs f ys) = length ys" using assms by (intro length_blockwise) auto
  have "blockwise bs f (patch xs i ys) =
      blockwise bs f (take i xs) @ blockwise bs f ys @ blockwise bs f (drop (i + length ys) xs)"
    unfolding patch_def using assms by (simp add: blockwise_append min_absorb2)
  then show ?thesis unfolding patch_def len using assms by (simp add: blockwise_take_drop dvd_add)
qed

subsection \<open>The contract of a block device\<close>

text \<open>
  \<open>plain d\<close> are the bytes the device shows to its user, \<open>valid d s n\<close> says that the \<open>n\<close> sectors from \<open>s\<close> are
  on the device, and \<open>bytes_of\<close> converts sectors to bytes. A transfer works on a caller's buffer.
\<close>

locale block_device =
  fixes ok :: "'d \<Rightarrow> bool" and plain :: "'d \<Rightarrow> bytes" and valid :: "'d \<Rightarrow> int \<Rightarrow> int \<Rightarrow> bool"
    and bytes_of :: "int \<Rightarrow> nat"
    and xfer :: "'d \<Rightarrow> int \<Rightarrow> int \<Rightarrow> bytes \<Rightarrow> bool \<Rightarrow> ('d \<times> bytes) result"
  assumes valid_bytes: "ok d \<Longrightarrow> valid d s n \<Longrightarrow> bytes_of s + bytes_of n \<le> length (plain d)"
    and write_law: "ok d \<Longrightarrow> valid d s n \<Longrightarrow> bytes_of n \<le> length b \<Longrightarrow>
      \<exists>d'. xfer d s n b True = Inr (d', b) \<and> ok d' \<and> valid d' = valid d \<and>
        plain d' = patch (plain d) (bytes_of s) (take (bytes_of n) b)"
    and read_law: "ok d \<Longrightarrow> valid d s n \<Longrightarrow> bytes_of n \<le> length b \<Longrightarrow>
      \<exists>d'. xfer d s n b False = Inr (d', patch b 0 (take (bytes_of n) (drop (bytes_of s) (plain d)))) \<and>
        ok d' \<and> valid d' = valid d \<and> plain d' = plain d"
begin

lemma write_read:
  assumes "ok d" and "valid d s n" and "length b = bytes_of n" and "length c = bytes_of n"
  shows "\<exists>d' d''. xfer d s n b True = Inr (d', b) \<and> xfer d' s n c False = Inr (d'', b) \<and>
    ok d'' \<and> plain d'' = patch (plain d) (bytes_of s) b"
proof -
  note v = valid_bytes [OF assms(1,2)]
  from write_law [OF assms(1,2), of b] assms(3) obtain d' where d': "xfer d s n b True = Inr (d', b)"
    "ok d'" "valid d' = valid d" "plain d' = patch (plain d) (bytes_of s) b" by auto
  from read_law [of d' s n c] d' assms obtain d'' where
    "xfer d' s n c False = Inr (d'', patch c 0 (take (bytes_of n) (drop (bytes_of s) (plain d'))))"
    "ok d''" "plain d'' = plain d'" by auto
  moreover have "take (bytes_of n) (drop (bytes_of s) (plain d')) = b"
    using patch_read [of "bytes_of s" b "plain d"] v assms(3) d'(4) by simp
  moreover have "patch c 0 b = b" using assms(3,4) by (simp add: patch_def)
  ultimately show ?thesis using d' by auto
qed

text \<open>A write leaves what a read of other sectors returns alone.\<close>

lemma write_other:
  assumes "ok d" and "valid d s n" and "valid d s' n'" and "length b = bytes_of n" and "length c = bytes_of n'"
    and "bytes_of s' + bytes_of n' \<le> bytes_of s \<or> bytes_of s + bytes_of n \<le> bytes_of s'"
  shows "\<exists>d1 d2 d3. xfer d s n b True = Inr (d1, b) \<and>
    xfer d1 s' n' c False = Inr (d2, take (bytes_of n') (drop (bytes_of s') (plain d))) \<and>
    xfer d s' n' c False = Inr (d3, take (bytes_of n') (drop (bytes_of s') (plain d)))"
proof -
  note v = valid_bytes [OF assms(1,2)] valid_bytes [OF assms(1,3)]
  from write_law [OF assms(1,2), of b] assms(4) obtain d1 where d1: "xfer d s n b True = Inr (d1, b)"
    "ok d1" "valid d1 = valid d" "plain d1 = patch (plain d) (bytes_of s) b" by auto
  have same: "take (bytes_of n') (drop (bytes_of s') (plain d1)) = take (bytes_of n') (drop (bytes_of s') (plain d))"
    using patch_other [of "bytes_of s" b "plain d" "bytes_of s'" "bytes_of n'"] v assms(4,6) d1(4) by auto
  have fill: "patch c 0 x = x" if "length x = bytes_of n'" for x using that assms(5) by (simp add: patch_def)
  have "length (take (bytes_of n') (drop (bytes_of s') (plain d))) = bytes_of n'" using v by simp
  note f = fill [OF this]
  from read_law [of d1 s' n' c] d1 assms obtain d2 where "xfer d1 s' n' c False =
      Inr (d2, patch c 0 (take (bytes_of n') (drop (bytes_of s') (plain d1))))" by auto
  moreover from read_law [OF assms(1,3), of c] assms(5) obtain d3 where "xfer d s' n' c False =
      Inr (d3, patch c 0 (take (bytes_of n') (drop (bytes_of s') (plain d))))" by auto
  ultimately show ?thesis using d1(1) same f by simp
qed

end

subsection \<open>Requests\<close>

text \<open>
  A request of the block layer is a list of segments, each with its own buffer; the driver works on
  the current one and reports it done.
\<close>

record seg =
  sg_sector :: int
  sg_nsect :: int
  sg_buffer :: bytes
  sg_write :: bool

record blkreq =
  br_fs :: bool
  br_segs :: "seg list"

text \<open>The segments of a list of requests, served on the bytes a device shows: the reference.\<close>

fun serve :: "(int \<Rightarrow> nat) \<Rightarrow> bytes \<Rightarrow> seg list \<Rightarrow> bytes \<times> bytes list" where
  "serve bo p [] = (p, [])"
| "serve bo p (g # gs) =
     (if sg_write g
      then (let (p', bs) = serve bo (patch p (bo (sg_sector g)) (take (bo (sg_nsect g)) (sg_buffer g))) gs
            in (p', sg_buffer g # bs))
      else (let (p', bs) = serve bo p gs
            in (p', patch (sg_buffer g) 0 (take (bo (sg_nsect g)) (drop (bo (sg_sector g)) p)) # bs)))"

primrec xfer_all ::
  "('d \<Rightarrow> int \<Rightarrow> int \<Rightarrow> bytes \<Rightarrow> bool \<Rightarrow> ('d \<times> bytes) result) \<Rightarrow> 'd \<Rightarrow> seg list \<Rightarrow> ('d \<times> bytes list) result" where
  "xfer_all xfer d [] = Inr (d, [])"
| "xfer_all xfer d (g # gs) =
     (case xfer d (sg_sector g) (sg_nsect g) (sg_buffer g) (sg_write g) of
        Inl f \<Rightarrow> Inl f
      | Inr (d', b) \<Rightarrow>
          (case xfer_all xfer d' gs of Inl f \<Rightarrow> Inl f | Inr (d'', bs) \<Rightarrow> Inr (d'', b # bs)))"

context block_device
begin

definition seg_ok :: "'d \<Rightarrow> seg \<Rightarrow> bool" where
  "seg_ok d g \<longleftrightarrow> valid d (sg_sector g) (sg_nsect g) \<and> bytes_of (sg_nsect g) \<le> length (sg_buffer g)"

lemma xfer_one:
  assumes "ok d" and "seg_ok d g"
  shows "\<exists>d' b. xfer d (sg_sector g) (sg_nsect g) (sg_buffer g) (sg_write g) = Inr (d', b) \<and> ok d' \<and>
    valid d' = valid d \<and> (plain d', [b]) = serve bytes_of (plain d) [g]"
  using write_law [OF assms(1)] read_law [OF assms(1)] assms(2)
  by (cases "sg_write g") (fastforce simp: seg_ok_def)+

lemma xfer_all_serves:
  assumes "ok d" and "\<forall>g \<in> set gs. seg_ok d g"
  shows "\<exists>d' bs. xfer_all xfer d gs = Inr (d', bs) \<and> ok d' \<and> valid d' = valid d \<and>
    serve bytes_of (plain d) gs = (plain d', bs)"
  using assms
proof (induction gs arbitrary: d)
  case (Cons g gs)
  from xfer_one [OF Cons.prems(1), of g] Cons.prems(2) obtain d1 b where
    d1: "xfer d (sg_sector g) (sg_nsect g) (sg_buffer g) (sg_write g) = Inr (d1, b)" "ok d1"
    "valid d1 = valid d" "(plain d1, [b]) = serve bytes_of (plain d) [g]" by auto
  have "\<forall>g \<in> set gs. seg_ok d1 g" using Cons.prems(2) d1(3) by (auto simp: seg_ok_def)
  from Cons.IH [OF d1(2) this] obtain d' bs where "xfer_all xfer d1 gs = Inr (d', bs)" "ok d'"
    "valid d' = valid d1" "serve bytes_of (plain d1) gs = (plain d', bs)" by blast
  then show ?case using d1 by (auto simp: Let_def split: if_splits prod.splits)
qed simp

end

end
