(* ===== verification/Sbd.thy ===== *)
theory Sbd
  imports Disk "HOL-Library.Signed_Division"
begin

text \<open>
  The plain block driver, \<open>assignments/a3/sbd.c\<close>. \<open>unsigned long\<close> has 32 bits, as on the machine the
  kernel is built for. The device's memory is a byte list; an access outside it is \<open>Wild\<close>.
\<close>

subsection \<open>Transfers\<close>

record sbd_device =
  dev_size :: int
  dev_data :: bytes

text \<open>\<open>memcpy\<close> of \<open>n\<close> bytes between two objects.\<close>

definition memcpy :: "bytes \<Rightarrow> int \<Rightarrow> bytes \<Rightarrow> int \<Rightarrow> int \<Rightarrow> bytes result" where
  "memcpy dst doff src soff n =
     (case read_at src soff (nat n) of Inl f \<Rightarrow> Inl f | Inr x \<Rightarrow> copy_at dst doff x)"

definition sbd_transfer ::
  "int \<Rightarrow> sbd_device \<Rightarrow> int \<Rightarrow> int \<Rightarrow> bytes \<Rightarrow> bool \<Rightarrow> (sbd_device \<times> bytes) result" where
  "sbd_transfer hardsect_size dev sector nsect buffer wr =
     (let offset = ulong (sector * hardsect_size); nbytes = ulong (nsect * hardsect_size) in
      if ulong (offset + nbytes) > dev_size dev then Inr (dev, buffer)
      else if wr then
        (case memcpy (dev_data dev) offset buffer 0 nbytes of
           Inl f \<Rightarrow> Inl f | Inr x \<Rightarrow> Inr (dev\<lparr>dev_data := x\<rparr>, buffer))
      else
        (case memcpy buffer 0 (dev_data dev) offset nbytes of
           Inl f \<Rightarrow> Inl f | Inr x \<Rightarrow> Inr (dev, x)))"

subsection \<open>The request function\<close>

text \<open>
  \<open>end_request\<close>: the current segment is done; a request with no segment left leaves the queue.
\<close>

definition end_request :: "blkreq list \<Rightarrow> blkreq list" where
  "end_request q =
     (case q of
        [] \<Rightarrow> []
      | r # rs \<Rightarrow> (case br_segs r of _ # g # gs \<Rightarrow> r\<lparr>br_segs := g # gs\<rparr> # rs | _ \<Rightarrow> rs))"

text \<open>The current segment; a request without data counts as a transfer of no sectors.\<close>

definition cur_seg :: "blkreq \<Rightarrow> seg" where
  "cur_seg r = (case br_segs r of g # _ \<Rightarrow> g | [] \<Rightarrow> \<lparr>sg_sector = 0, sg_nsect = 0, sg_buffer = [], sg_write = False\<rparr>)"

definition work_left :: "blkreq list \<Rightarrow> nat" where
  "work_left q = (\<Sum>r \<leftarrow> q. Suc (length (br_segs r)))"

lemma work_left_end: "q \<noteq> [] \<Longrightarrow> work_left (end_request q) < work_left q"
  by (cases q) (auto simp: work_left_def end_request_def split: list.split)

text \<open>
  The result is the device and the log of segments ended: their buffers and whether they succeeded.
\<close>

function sbd_request :: "int \<Rightarrow> sbd_device \<Rightarrow> blkreq list \<Rightarrow> (sbd_device \<times> (bytes \<times> bool) list) result" where
  "sbd_request hs dev [] = Inr (dev, [])"
| "sbd_request hs dev (r # rs) =
     (let g = cur_seg r in
      if \<not> br_fs r then
        (case sbd_request hs dev (end_request (r # rs)) of
           Inl f \<Rightarrow> Inl f | Inr (d, l) \<Rightarrow> Inr (d, (sg_buffer g, False) # l))
      else
        (case sbd_transfer hs dev (sg_sector g) (sg_nsect g) (sg_buffer g) (sg_write g) of
           Inl f \<Rightarrow> Inl f
         | Inr (dev', b) \<Rightarrow>
             (case sbd_request hs dev' (end_request (r # rs)) of
                Inl f \<Rightarrow> Inl f | Inr (d, l) \<Rightarrow> Inr (d, (b, True) # l))))"
  by pat_completeness auto
termination
  by (relation "measure (\<lambda>(hs, dev, q). work_left q)") (auto simp: work_left_end)

subsection \<open>Geometry\<close>

record hd_geometry =
  geo_cylinders :: int
  geo_heads :: int
  geo_sectors :: int
  geo_start :: int

text \<open>\<open>HDIO_GETGEO\<close>: \<open>cylinders\<close> is an \<open>unsigned short\<close>; \<open>long\<close> has 32 bits.\<close>

definition KERNEL_SECTOR_SIZE :: int where "KERNEL_SECTOR_SIZE = 512"

definition slong :: "int \<Rightarrow> int" where
  "slong x = sint (word_of_int x :: 32 word)"

definition geo_of :: "int \<Rightarrow> int \<Rightarrow> int \<Rightarrow> hd_geometry" where
  "geo_of dsize hs st =
     (let sz = slong (dsize * (hs sdiv KERNEL_SECTOR_SIZE)) in
      \<lparr>geo_cylinders = drop_bit 6 (and sz (not 0x3f)) mod 2 ^ 16, geo_heads = 4, geo_sectors = 16, geo_start = st\<rparr>)"

datatype ioctl_cmd = HDIO_GETGEO | Other_cmd

definition EFAULT :: int where "EFAULT = 14"

definition ENOTTY :: int where "ENOTTY = 25"

text \<open>\<open>copied\<close>: did \<open>copy_to_user\<close> copy everything?\<close>

definition sbd_ioctl :: "int \<Rightarrow> sbd_device \<Rightarrow> ioctl_cmd \<Rightarrow> bool \<Rightarrow> int \<times> hd_geometry option" where
  "sbd_ioctl hs dev cmd copied =
     (case cmd of
        HDIO_GETGEO \<Rightarrow> if \<not> copied then (- EFAULT, None) else (0, Some (geo_of (dev_size dev) hs 4))
      | Other_cmd \<Rightarrow> (- ENOTTY, None))"

subsection \<open>Setup and removal\<close>

text \<open>The module parameters, and their values when none is given (lines 24 to 29).\<close>

record module_params =
  mp_major_num :: int
  mp_hardsect_size :: int
  mp_nsectors :: int

definition sbd_params :: module_params where
  "sbd_params = \<lparr>mp_major_num = 0, mp_hardsect_size = 512, mp_nsectors = 1024\<rparr>"

text \<open>What the kernel answers during \<open>sbd_init\<close>; \<open>register_blkdev\<close> gets the major number asked for.\<close>

record kernel_answers =
  vmalloc :: "int \<Rightarrow> bytes option"
  blk_init_queue_ok :: bool
  register_blkdev :: "int \<Rightarrow> int"
  alloc_disk_ok :: bool
  crypto_alloc_ok :: bool

datatype resource = Data | RequestQueue | Major int | Gendisk | Crypto

text \<open>
  The driver's static variables with what it holds: \<open>Device\<close>, \<open>Queue\<close> with its block size, \<open>major_num\<close>, and
  the major number and the capacity of the disk. \<open>register_blkdev\<close> registers the number asked for,
  or, when that is 0, the one it returns.
\<close>

record driver =
  drv_size :: int
  drv_data :: bytes
  drv_queue_bs :: int
  drv_major_num :: int
  drv_gd_major :: int
  drv_capacity :: int
  drv_held :: "resource set"

definition driver_start :: "module_params \<Rightarrow> driver" where
  "driver_start mp = \<lparr>drv_size = 0, drv_data = [], drv_queue_bs = 0, drv_major_num = mp_major_num mp,
     drv_gd_major = 0, drv_capacity = 0, drv_held = {}\<rparr>"

definition hold :: "resource \<Rightarrow> driver \<Rightarrow> driver" where
  "hold r d = d\<lparr>drv_held := insert r (drv_held d)\<rparr>"

definition release :: "resource \<Rightarrow> driver \<Rightarrow> driver" where
  "release r d = d\<lparr>drv_held := drv_held d - {r}\<rparr>"

definition register_major :: "kernel_answers \<Rightarrow> driver \<Rightarrow> driver" where
  "register_major ka d =
     (let m = drv_major_num d; r = register_blkdev ka m
      in (if r \<ge> 0 then hold (Major (if m = 0 then r else m)) d else d)\<lparr>drv_major_num := r\<rparr>)"

definition unregister_major :: "driver \<Rightarrow> driver" where
  "unregister_major d = release (Major (drv_major_num d)) d"

definition SBD_ENOMEM :: int where "SBD_ENOMEM = 12"

definition sbd_init :: "module_params \<Rightarrow> kernel_answers \<Rightarrow> int \<times> driver" where
  "sbd_init mp ka =
     (let hs = mp_hardsect_size mp;
          d0 = (driver_start mp)\<lparr>drv_size := ulong (mp_nsectors mp * hs)\<rparr>
      in case vmalloc ka (drv_size d0) of
           None \<Rightarrow> (- SBD_ENOMEM, d0)
         | Some mem \<Rightarrow>
             (let d1 = hold Data (d0\<lparr>drv_data := mem\<rparr>) in
              if \<not> blk_init_queue_ok ka then (- SBD_ENOMEM, release Data d1)
              else
                (let d2 = hold RequestQueue (d1\<lparr>drv_queue_bs := hs\<rparr>); d3 = register_major ka d2 in
                 if drv_major_num d3 \<le> 0 then (- SBD_ENOMEM, release Data d3)
                 else if \<not> alloc_disk_ok ka then (- SBD_ENOMEM, release Data (unregister_major d3))
                 else (0, hold Gendisk (d3\<lparr>drv_gd_major := drv_major_num d3,
                        drv_capacity := slong (mp_nsectors mp * (hs sdiv KERNEL_SECTOR_SIZE))\<rparr>)))))"

definition sbd_exit :: "driver \<Rightarrow> driver" where
  "sbd_exit d = release Data (release RequestQueue (unregister_major (release Gendisk d)))"

text \<open>The device that the request function works on.\<close>

definition sbd_device_of :: "driver \<Rightarrow> sbd_device" where
  "sbd_device_of d = \<lparr>dev_size = drv_size d, dev_data = drv_data d\<rparr>"

subsection \<open>The driver as a block device\<close>

definition sbd_ok :: "int \<Rightarrow> sbd_device \<Rightarrow> bool" where
  "sbd_ok hs d \<longleftrightarrow> 0 < hs \<and> dev_size d = int (length (dev_data d)) \<and> dev_size d < 2 ^ 31"

definition sbd_valid :: "int \<Rightarrow> sbd_device \<Rightarrow> int \<Rightarrow> int \<Rightarrow> bool" where
  "sbd_valid hs d s n \<longleftrightarrow> 0 \<le> s \<and> 0 \<le> n \<and> s * hs + n * hs \<le> dev_size d"

definition sbd_bytes :: "int \<Rightarrow> int \<Rightarrow> nat" where
  "sbd_bytes hs n = nat (n * hs)"

lemma memcpy_ok:
  assumes "0 \<le> doff" and "0 \<le> soff" and "0 \<le> n" and "doff + n \<le> int (length dst)" and "soff + n \<le> int (length src)"
  shows "memcpy dst doff src soff n = Inr (patch dst (nat doff) (take (nat n) (drop (nat soff) src)))"
proof -
  have "length (take (nat n) (drop (nat soff) src)) = nat n" using assms by simp
  then show ?thesis using assms by (simp add: memcpy_def read_at_def copy_at_def)
qed

lemma sbd_offsets:
  assumes "sbd_ok hs d" and "sbd_valid hs d s n"
  shows "ulong (s * hs) = int (sbd_bytes hs s)" and "ulong (n * hs) = int (sbd_bytes hs n)"
    and "ulong (int (sbd_bytes hs s) + int (sbd_bytes hs n)) = int (sbd_bytes hs s) + int (sbd_bytes hs n)"
    and "int (sbd_bytes hs s) + int (sbd_bytes hs n) \<le> dev_size d"
proof -
  have "0 \<le> s * hs" "0 \<le> n * hs" using assms by (auto simp: sbd_ok_def sbd_valid_def)
  moreover have "s * hs + n * hs < 2 ^ 31" using assms by (auto simp: sbd_ok_def sbd_valid_def)
  ultimately show "ulong (s * hs) = int (sbd_bytes hs s)" "ulong (n * hs) = int (sbd_bytes hs n)"
    "ulong (int (sbd_bytes hs s) + int (sbd_bytes hs n)) = int (sbd_bytes hs s) + int (sbd_bytes hs n)"
    "int (sbd_bytes hs s) + int (sbd_bytes hs n) \<le> dev_size d"
    using assms(2) by (auto simp: sbd_bytes_def c_int sbd_valid_def)
qed

interpretation sbd: block_device "sbd_ok hs" dev_data "sbd_valid hs" "sbd_bytes hs" "sbd_transfer hs" for hs
proof
  fix d s n assume "sbd_ok hs d" "sbd_valid hs d s n"
  from sbd_offsets(4) [OF this] \<open>sbd_ok hs d\<close>
  show "sbd_bytes hs s + sbd_bytes hs n \<le> length (dev_data d)" by (simp add: sbd_ok_def)
next
  fix d s n and b :: bytes
  assume d: "sbd_ok hs d" "sbd_valid hs d s n" and b: "sbd_bytes hs n \<le> length b"
  note o = sbd_offsets [OF d]
  let ?x = "patch (dev_data d) (sbd_bytes hs s) (take (sbd_bytes hs n) b)"
  have "sbd_transfer hs d s n b True = Inr (d\<lparr>dev_data := ?x\<rparr>, b)"
    using o b d(1) by (simp add: sbd_transfer_def memcpy_ok sbd_ok_def)
  moreover have "length ?x = length (dev_data d)" using o(4) b d(1) by (simp add: sbd_ok_def)
  ultimately show "\<exists>d'. sbd_transfer hs d s n b True = Inr (d', b) \<and> sbd_ok hs d' \<and>
      sbd_valid hs d' = sbd_valid hs d \<and> dev_data d' = patch (dev_data d) (sbd_bytes hs s) (take (sbd_bytes hs n) b)"
    using d(1) by (intro exI [of _ "d\<lparr>dev_data := ?x\<rparr>"]) (auto simp: sbd_ok_def sbd_valid_def fun_eq_iff)
next
  fix d s n and b :: bytes
  assume d: "sbd_ok hs d" "sbd_valid hs d s n" and b: "sbd_bytes hs n \<le> length b"
  note o = sbd_offsets [OF d]
  have "sbd_transfer hs d s n b False = Inr (d, patch b 0 (take (sbd_bytes hs n) (drop (sbd_bytes hs s) (dev_data d))))"
    using o b d(1) by (simp add: sbd_transfer_def memcpy_ok sbd_ok_def)
  then show "\<exists>d'. sbd_transfer hs d s n b False =
      Inr (d', patch b 0 (take (sbd_bytes hs n) (drop (sbd_bytes hs s) (dev_data d)))) \<and>
      sbd_ok hs d' \<and> sbd_valid hs d' = sbd_valid hs d \<and> dev_data d' = dev_data d" using d(1) by auto
qed

subsection \<open>Serving a queue\<close>

text \<open>The segments of the file system requests, in order.\<close>

definition fs_segs :: "blkreq list \<Rightarrow> seg list" where
  "fs_segs q = concat (map br_segs (filter br_fs q))"

definition queue_ok :: "blkreq list \<Rightarrow> bool" where
  "queue_ok q \<longleftrightarrow> (\<forall>r \<in> set q. br_segs r \<noteq> [])"

lemma fs_segs_end:
  assumes "queue_ok (r # rs)"
  shows "br_fs r \<Longrightarrow> fs_segs (r # rs) = cur_seg r # fs_segs (end_request (r # rs))"
    and "\<not> br_fs r \<Longrightarrow> fs_segs (r # rs) = fs_segs (end_request (r # rs))"
  using assms by (auto simp: fs_segs_def end_request_def cur_seg_def queue_ok_def split: list.split)

lemma queue_ok_end: "queue_ok q \<Longrightarrow> queue_ok (end_request q)"
  by (cases q) (auto simp: queue_ok_def end_request_def split: list.splits)

lemma sbd_request_serves:
  assumes "sbd_ok hs d" and "queue_ok q" and "\<forall>g \<in> set (fs_segs q). sbd.seg_ok hs d g"
  shows "\<exists>d' l. sbd_request hs d q = Inr (d', l) \<and> sbd_ok hs d' \<and>
    serve (sbd_bytes hs) (dev_data d) (fs_segs q) = (dev_data d', map fst (filter snd l))"
  using assms
proof (induction hs d q rule: sbd_request.induct)
  case (1 hs d)
  then show ?case by (simp add: fs_segs_def)
next
  case (2 hs d r rs)
  note q = queue_ok_end [OF "2.prems"(2)]
  show ?case
  proof (cases "br_fs r")
    case False
    with "2.prems" have "\<forall>g \<in> set (fs_segs (end_request (r # rs))). sbd.seg_ok hs d g"
      using fs_segs_end(2) [OF "2.prems"(2)] by simp
    from "2.IH"(1) [OF refl False "2.prems"(1) q this] False show ?thesis
      using fs_segs_end(2) [OF "2.prems"(2)] by (auto simp: Let_def)
  next
    case True
    let ?g = "cur_seg r"
    note segs = fs_segs_end(1) [OF "2.prems"(2) True]
    from sbd.xfer_one [OF "2.prems"(1), of ?g] "2.prems"(3) segs obtain d1 b where
      d1: "sbd_transfer hs d (sg_sector ?g) (sg_nsect ?g) (sg_buffer ?g) (sg_write ?g) = Inr (d1, b)"
      "sbd_ok hs d1" "sbd_valid hs d1 = sbd_valid hs d"
      "(dev_data d1, [b]) = serve (sbd_bytes hs) (dev_data d) [?g]" by auto
    have "\<forall>g \<in> set (fs_segs (end_request (r # rs))). sbd.seg_ok hs d1 g"
      using "2.prems"(3) segs d1(3) by (auto simp: sbd.seg_ok_def)
    with "2.IH"(2) [OF refl _ d1(1) refl d1(2) q] True obtain d' l where
      "sbd_request hs d1 (end_request (r # rs)) = Inr (d', l)" "sbd_ok hs d'"
      "serve (sbd_bytes hs) (dev_data d1) (fs_segs (end_request (r # rs))) = (dev_data d', map fst (filter snd l))"
      by auto
    then show ?thesis using d1 True segs by (auto simp: Let_def split: if_splits prod.splits)
  qed
qed

end
