(* ===== verification/Ramdisk.thy ===== *)
theory Ramdisk
  imports Sbd
begin

text \<open>
  The encrypting block driver, \<open>assignments/a3/ramdisk.c\<close>. The cipher belongs to the kernel's crypto
  API and is a parameter; its documented behaviour (a block is as long as a block, decryption
  undoes encryption, setting the same key again changes nothing) is a hypothesis of the results.
  The crypto handle keeps the key, so it is part of the device state.
\<close>

subsection \<open>Transfers\<close>

record 'c cipher =
  blocksize :: nat
  setkey :: "'c \<Rightarrow> bytes \<Rightarrow> 'c \<times> int"
  encrypt_one :: "'c \<Rightarrow> bytes \<Rightarrow> bytes"
  decrypt_one :: "'c \<Rightarrow> bytes \<Rightarrow> bytes"

record 'c ramdisk =
  rd_size :: int
  rd_data :: bytes
  rd_crypto :: 'c

definition key_len :: nat where "key_len = 8"

text \<open>The loops of lines 78-88, over byte offsets; with a block size of 0 they would not end.\<close>

partial_function (option) crypt_loop ::
  "(int \<Rightarrow> 'a \<Rightarrow> 'a result) \<Rightarrow> int \<Rightarrow> int \<Rightarrow> int \<Rightarrow> 'a \<Rightarrow> 'a result option" where
  "crypt_loop f bs n i x =
     (if i < n then
        (case f i x of Inl e \<Rightarrow> Some (Inl e) | Inr y \<Rightarrow> crypt_loop f bs n (ulong (i + bs)) y)
      else Some (Inr x))"

text \<open>One block from \<open>src + soff\<close> through the cipher to \<open>dst + doff\<close>.\<close>

definition crypt_block :: "(bytes \<Rightarrow> bytes) \<Rightarrow> nat \<Rightarrow> bytes \<Rightarrow> int \<Rightarrow> bytes \<Rightarrow> int \<Rightarrow> bytes result" where
  "crypt_block f bs dst doff src soff =
     (case read_at src soff bs of Inl e \<Rightarrow> Inl e | Inr x \<Rightarrow> copy_at dst doff (f x))"

definition ramdisk_transfer ::
  "'c cipher \<Rightarrow> bytes \<Rightarrow> int \<Rightarrow> 'c ramdisk \<Rightarrow> int \<Rightarrow> int \<Rightarrow> bytes \<Rightarrow> bool \<Rightarrow> ('c ramdisk \<times> bytes) result" where
  "ramdisk_transfer cip key lbs dev sector nsect buffer wr =
     (let offset = ulong (sector * lbs); nbytes = ulong (nsect * lbs);
          crypto = fst (setkey cip (rd_crypto dev) (take key_len key));
          dev' = dev\<lparr>rd_crypto := crypto\<rparr>; bs = blocksize cip
      in
      if ulong (offset + nbytes) > rd_size dev then Inr (dev', buffer)
      else if wr then
        (case crypt_loop (\<lambda>i dst. crypt_block (encrypt_one cip crypto) bs dst (offset + i) buffer i)
                (int bs) nbytes 0 (rd_data dev) of
           None \<Rightarrow> Inl Hang | Some (Inl e) \<Rightarrow> Inl e | Some (Inr x) \<Rightarrow> Inr (dev'\<lparr>rd_data := x\<rparr>, buffer))
      else
        (case crypt_loop (\<lambda>i dst. crypt_block (decrypt_one cip crypto) bs dst i (rd_data dev) (offset + i))
                (int bs) nbytes 0 buffer of
           None \<Rightarrow> Inl Hang | Some (Inl e) \<Rightarrow> Inl e | Some (Inr x) \<Rightarrow> Inr (dev', x)))"

subsection \<open>The request function\<close>

text \<open>
  \<open>req\<close> is the request fetched last. For a request that is not a file system request the loop
  goes on with the same request (\<open>continue\<close>, line 103). \<open>__blk_end_request_all\<close> (line 102) ends that
  request for its submitter; the loop reads it again, and the model takes its type to be still the
  same, as the block layer leaves it.
\<close>

partial_function (option) ramdisk_request ::
  "'c cipher \<Rightarrow> bytes \<Rightarrow> int \<Rightarrow> 'c ramdisk \<Rightarrow> blkreq option \<Rightarrow> blkreq list \<Rightarrow> bytes list \<Rightarrow>
     ('c ramdisk \<times> bytes list) result option" where
  "ramdisk_request cip key lbs dev req q done_bufs =
     (case req of
        None \<Rightarrow> Some (Inr (dev, done_bufs))
      | Some r \<Rightarrow>
          (if \<not> br_fs r then ramdisk_request cip key lbs dev (Some r) q done_bufs
           else
             (let g = cur_seg r in
              case ramdisk_transfer cip key lbs dev (sg_sector g) (sg_nsect g) (sg_buffer g) (sg_write g) of
                Inl f \<Rightarrow> Some (Inl f)
              | Inr (dev', b) \<Rightarrow>
                  (case end_request (r # q) of
                     [] \<Rightarrow> ramdisk_request cip key lbs dev' None [] (done_bufs @ [b])
                   | r' # q' \<Rightarrow> ramdisk_request cip key lbs dev' (Some r') q' (done_bufs @ [b])))))"

text \<open>\<open>sbd_request\<close> of \<open>ramdisk.c\<close>, with the queue it is called for.\<close>

definition ramdisk_sbd_request ::
  "'c cipher \<Rightarrow> bytes \<Rightarrow> int \<Rightarrow> 'c ramdisk \<Rightarrow> blkreq list \<Rightarrow> ('c ramdisk \<times> bytes list) result" where
  "ramdisk_sbd_request cip key lbs dev q =
     (case (case q of [] \<Rightarrow> ramdisk_request cip key lbs dev None [] []
                    | r # rs \<Rightarrow> ramdisk_request cip key lbs dev (Some r) rs []) of
        None \<Rightarrow> Inl Hang | Some x \<Rightarrow> x)"

subsection \<open>Geometry and setup\<close>

definition sbd_getgeo :: "int \<Rightarrow> 'c ramdisk \<Rightarrow> int \<times> hd_geometry" where
  "sbd_getgeo lbs dev = (0, geo_of (rd_size dev) lbs 0)"

text \<open>
  \<open>sbd_init\<close> of \<open>ramdisk.c\<close>, with \<open>logical_block_size\<close> in the place of \<open>hardsect_size\<close>. The result of
  \<open>crypto_alloc_cipher\<close> is not looked at. The capacity is \<open>nsectors\<close>, whatever the block size.
\<close>

definition ramdisk_params :: module_params where
  "ramdisk_params = \<lparr>mp_major_num = 0, mp_hardsect_size = 512, mp_nsectors = 1024\<rparr>"

text \<open>The key when none is given: \<open>cs444hw3\<close>.\<close>

definition default_key :: bytes where
  "default_key = map (\<lambda>c. of_char c) ''cs444hw3''"

definition ramdisk_init :: "module_params \<Rightarrow> kernel_answers \<Rightarrow> int \<times> driver" where
  "ramdisk_init mp ka =
     (let lbs = mp_hardsect_size mp; start = driver_start mp;
          d0 = (if crypto_alloc_ok ka then hold Crypto start else start)\<lparr>drv_size := ulong (mp_nsectors mp * lbs)\<rparr>
      in case vmalloc ka (drv_size d0) of
           None \<Rightarrow> (- SBD_ENOMEM, d0)
         | Some mem \<Rightarrow>
             (let d1 = hold Data (d0\<lparr>drv_data := mem\<rparr>) in
              if \<not> blk_init_queue_ok ka then (- SBD_ENOMEM, release Data d1)
              else
                (let d2 = hold RequestQueue (d1\<lparr>drv_queue_bs := lbs\<rparr>); d3 = register_major ka d2 in
                 if drv_major_num d3 < 0 then (- SBD_ENOMEM, release Data d3)
                 else if \<not> alloc_disk_ok ka then (- SBD_ENOMEM, release Data (unregister_major d3))
                 else (0, hold Gendisk (d3\<lparr>drv_gd_major := drv_major_num d3, drv_capacity := mp_nsectors mp\<rparr>)))))"

definition ramdisk_exit :: "driver \<Rightarrow> driver" where
  "ramdisk_exit d =
     release Crypto (release Data (release RequestQueue (unregister_major (release Gendisk d))))"

definition ramdisk_of :: "driver \<Rightarrow> 'c \<Rightarrow> 'c ramdisk" where
  "ramdisk_of d c = \<lparr>rd_size = drv_size d, rd_data = drv_data d, rd_crypto = c\<rparr>"

subsection \<open>The loops compute blockwise\<close>

lemma crypt_loop_run:
  assumes bs: "0 < bs" and small: "int (m * bs) < 2 ^ 31" and "j \<le> m"
    and step: "\<And>j. j < m \<Longrightarrow> f (int (j * bs)) (xs j) = Inr (xs (Suc j))"
  shows "crypt_loop f (int bs) (int (m * bs)) (int (j * bs)) (xs j) = Some (Inr (xs m))"
  using assms(3)
proof (induction rule: inc_induct)
  case base
  show ?case by (subst crypt_loop.simps) simp
next
  case (step j)
  have lt: "j * bs < m * bs" using step(2) bs by simp
  have "Suc j * bs \<le> m * bs" using step(2) by (intro mult_le_mono1) simp
  then have "int (Suc j * bs) \<le> int (m * bs)" by (simp only: of_nat_le_iff)
  then have "int (j * bs) + int bs < 2 ^ 31" using small by simp
  then have "ulong (int (j * bs) + int bs) = int (Suc j * bs)" by (simp add: c_int algebra_simps)
  then show ?case using assms(4) [OF step(2)] step(3) lt by (subst crypt_loop.simps) simp
qed

lemma crypt_loop_fault: "0 < n \<Longrightarrow> f 0 x = Inl e \<Longrightarrow> crypt_loop f bs n 0 x = Some (Inl e)"
  by (subst crypt_loop.simps) simp

lemma crypt_block_ok:
  assumes "soff + bs \<le> length src" and "doff + length ys + bs \<le> length dst" and "length (f (take bs (drop soff src))) = bs"
  shows "crypt_block f bs (patch dst doff ys) (int (doff + length ys)) src (int soff) =
    Inr (patch dst doff (ys @ f (take bs (drop soff src))))"
  using assms by (simp add: crypt_block_def read_at_def copy_at_def patch_append nat_int_add)

lemma blockwise_take_Suc:
  assumes "0 < bs" and "Suc j * bs \<le> length xs"
  shows "blockwise bs f (take (Suc j * bs) xs) =
    blockwise bs f (take (j * bs) xs) @ f (take bs (drop (j * bs) xs))"
proof -
  have "take (Suc j * bs) xs = take (j * bs) xs @ take bs (drop (j * bs) xs)"
    by (simp add: take_add add.commute [of bs])
  then show ?thesis using assms by (simp add: blockwise_append blockwise_one min_absorb2)
qed

text \<open>
  The loop turns \<open>m\<close> blocks of \<open>src\<close> from \<open>so\<close> into \<open>m\<close> blocks of \<open>dst\<close> from \<open>dof\<close>.
\<close>

lemma crypt_loop_blockwise:
  assumes bs: "0 < bs" and len: "\<And>b. length b = bs \<Longrightarrow> length (f b) = bs"
    and so: "so + m * bs \<le> length src" and dof: "dof + m * bs \<le> length dst" and small: "int (m * bs) < 2 ^ 31"
  shows "crypt_loop (\<lambda>i dst. crypt_block f bs dst (int dof + i) src (int so + i)) (int bs) (int (m * bs)) 0 dst =
    Some (Inr (patch dst dof (blockwise bs f (take (m * bs) (drop so src)))))"
proof -
  let ?x = "\<lambda>j. patch dst dof (blockwise bs f (take (j * bs) (drop so src)))"
  have "crypt_block f bs (?x j) (int dof + int (j * bs)) src (int so + int (j * bs)) = Inr (?x (Suc j))"
    if "j < m" for j
  proof -
    have le: "Suc j * bs \<le> m * bs" using that by (intro mult_le_mono1) simp
    let ?ys = "blockwise bs f (take (j * bs) (drop so src))"
    have ys: "length ?ys = j * bs" using length_blockwise [of bs "take (j * bs) (drop so src)" f] bs len so le by simp
    have "length (f (take bs (drop (so + j * bs) src))) = bs" using len so le by simp
    from crypt_block_ok [of "so + j * bs" bs src dof ?ys dst f, OF _ _ this]
    have "crypt_block f bs (?x j) (int (dof + j * bs)) src (int (so + j * bs)) =
        Inr (patch dst dof (?ys @ f (take bs (drop (so + j * bs) src))))" using ys so dof le by simp
    moreover have "blockwise bs f (take (Suc j * bs) (drop so src)) = ?ys @ f (take bs (drop (so + j * bs) src))"
      using blockwise_take_Suc [OF bs, of j "drop so src" f] so le by (simp add: add.commute)
    ultimately show ?thesis by simp
  qed
  from crypt_loop_run [OF bs small le0, of "\<lambda>i dst. crypt_block f bs dst (int dof + i) src (int so + i)" ?x, OF this]
  show ?thesis by simp
qed

subsection \<open>The driver as a block device\<close>

text \<open>The crypto handle that every transfer works with.\<close>

definition keyed :: "'c cipher \<Rightarrow> bytes \<Rightarrow> 'c ramdisk \<Rightarrow> 'c" where
  "keyed cip key d = fst (setkey cip (rd_crypto d) (take key_len key))"

text \<open>What the driver relies on of a cipher with the handle \<open>c\<close>.\<close>

definition cipher_ok :: "'c cipher \<Rightarrow> 'c \<Rightarrow> bool" where
  "cipher_ok cip c \<longleftrightarrow> 0 < blocksize cip \<and>
     (\<forall>b. length b = blocksize cip \<longrightarrow>
        length (encrypt_one cip c b) = blocksize cip \<and> length (decrypt_one cip c b) = blocksize cip \<and>
        decrypt_one cip c (encrypt_one cip c b) = b)"

definition rd_ok :: "'c cipher \<Rightarrow> bytes \<Rightarrow> int \<Rightarrow> 'c ramdisk \<Rightarrow> bool" where
  "rd_ok cip key lbs d \<longleftrightarrow>
     0 < lbs \<and> rd_size d = int (length (rd_data d)) \<and> rd_size d < 2 ^ 31 \<and> lbs dvd rd_size d \<and>
     int (blocksize cip) dvd lbs \<and> cipher_ok cip (keyed cip key d) \<and>
     fst (setkey cip (keyed cip key d) (take key_len key)) = keyed cip key d"

definition rd_valid :: "int \<Rightarrow> 'c ramdisk \<Rightarrow> int \<Rightarrow> int \<Rightarrow> bool" where
  "rd_valid lbs d s n \<longleftrightarrow> 0 \<le> s \<and> 0 \<le> n \<and> s * lbs + n * lbs \<le> rd_size d"

text \<open>What the user of the device sees: the decrypted bytes.\<close>

definition rd_plain :: "'c cipher \<Rightarrow> bytes \<Rightarrow> 'c ramdisk \<Rightarrow> bytes" where
  "rd_plain cip key d = blockwise (blocksize cip) (decrypt_one cip (keyed cip key d)) (rd_data d)"

lemma rd_offsets:
  assumes "rd_ok cip key lbs d" and "rd_valid lbs d s n"
  shows "ulong (s * lbs) = int (sbd_bytes lbs s)" and "ulong (n * lbs) = int (sbd_bytes lbs n)"
    and "ulong (int (sbd_bytes lbs s) + int (sbd_bytes lbs n)) = int (sbd_bytes lbs s) + int (sbd_bytes lbs n)"
    and "sbd_bytes lbs s + sbd_bytes lbs n \<le> length (rd_data d)"
proof -
  let ?d = "\<lparr>dev_size = rd_size d, dev_data = rd_data d\<rparr>"
  have ok: "sbd_ok lbs ?d" "sbd_valid lbs ?d s n"
    using assms by (auto simp: rd_ok_def sbd_ok_def rd_valid_def sbd_valid_def)
  note o = sbd_offsets [OF ok]
  show "sbd_bytes lbs s + sbd_bytes lbs n \<le> length (rd_data d)" using o(4) assms(1) by (simp add: rd_ok_def)
qed (use sbd_offsets [of lbs "\<lparr>dev_size = rd_size d, dev_data = rd_data d\<rparr>" s n] assms in
  \<open>auto simp: rd_ok_def sbd_ok_def rd_valid_def sbd_valid_def\<close>)

lemma rd_blocks:
  assumes "rd_ok cip key lbs d" and "rd_valid lbs d s n"
  shows "blocksize cip dvd sbd_bytes lbs s" and "blocksize cip dvd sbd_bytes lbs n"
    and "blocksize cip dvd length (rd_data d)"
proof -
  have bl: "int (blocksize cip) dvd lbs" "lbs dvd rd_size d" "rd_size d = int (length (rd_data d))"
    using assms(1) by (auto simp: rd_ok_def)
  have "int (blocksize cip) dvd int (sbd_bytes lbs x)" if "0 \<le> x" for x
    using bl(1) that assms(1) by (simp add: sbd_bytes_def rd_ok_def)
  then show "blocksize cip dvd sbd_bytes lbs s" "blocksize cip dvd sbd_bytes lbs n"
    using assms(2) by (auto simp: rd_valid_def)
  have "int (blocksize cip) dvd int (length (rd_data d))" using bl by (metis dvd_trans)
  then show "blocksize cip dvd length (rd_data d)" by simp
qed

lemma length_rd_plain:
  assumes "rd_ok cip key lbs d" shows "length (rd_plain cip key d) = length (rd_data d)"
proof -
  have "rd_valid lbs d 0 0" using assms by (auto simp: rd_valid_def rd_ok_def)
  from rd_blocks(3) [OF assms this] show ?thesis
    unfolding rd_plain_def using assms by (intro length_blockwise) (auto simp: rd_ok_def cipher_ok_def)
qed

lemma crypt_transfer_loop:
  assumes "rd_ok cip key lbs d" and "rd_valid lbs d s n" and "\<And>b. length b = blocksize cip \<Longrightarrow> length (f b) = blocksize cip"
    and "so + sbd_bytes lbs n \<le> length src" and "dof + sbd_bytes lbs n \<le> length dst"
  shows "crypt_loop (\<lambda>i dst. crypt_block f (blocksize cip) dst (int dof + i) src (int so + i))
      (int (blocksize cip)) (int (sbd_bytes lbs n)) 0 dst =
    Some (Inr (patch dst dof (blockwise (blocksize cip) f (take (sbd_bytes lbs n) (drop so src)))))"
proof -
  have bs: "0 < blocksize cip" using assms(1) by (simp add: rd_ok_def cipher_ok_def)
  from rd_blocks(2) [OF assms(1,2)] obtain m where m: "sbd_bytes lbs n = m * blocksize cip"
    by (metis dvd_def mult.commute)
  have "int (sbd_bytes lbs n) < 2 ^ 31" using rd_offsets(4) [OF assms(1,2)] assms(1) by (simp add: rd_ok_def)
  then show ?thesis using crypt_loop_blockwise [where f = f, OF bs assms(3), of so m src dof dst] assms(4,5) unfolding m by blast
qed

lemma rd_keyed_same:
  assumes "rd_ok cip key lbs d" and "rd_crypto d' = keyed cip key d"
  shows "keyed cip key d' = keyed cip key d"
  using assms by (simp add: keyed_def rd_ok_def)

lemma ramdisk_write:
  assumes d: "rd_ok cip key lbs d" "rd_valid lbs d s n" and b: "sbd_bytes lbs n \<le> length b"
  shows "\<exists>d'. ramdisk_transfer cip key lbs d s n b True = Inr (d', b) \<and> rd_ok cip key lbs d' \<and>
    rd_valid lbs d' = rd_valid lbs d \<and>
    rd_plain cip key d' = patch (rd_plain cip key d) (sbd_bytes lbs s) (take (sbd_bytes lbs n) b)"
proof -
  let ?c = "keyed cip key d" and ?bs = "blocksize cip" and ?so = "sbd_bytes lbs s" and ?n = "sbd_bytes lbs n"
  note o = rd_offsets [OF d] and bl = rd_blocks [OF d]
  have c: "0 < ?bs" "\<And>x. length x = ?bs \<Longrightarrow> length (encrypt_one cip ?c x) = ?bs \<and>
      length (decrypt_one cip ?c x) = ?bs \<and> decrypt_one cip ?c (encrypt_one cip ?c x) = x"
    using d(1) by (auto simp: rd_ok_def cipher_ok_def)
  let ?e = "blockwise ?bs (encrypt_one cip ?c) (take ?n b)" and ?x = "patch (rd_data d) ?so"
  have le: "length ?e = ?n" using bl(2) b c length_blockwise [of ?bs "take ?n b"] by simp
  define d' where "d' = d\<lparr>rd_crypto := ?c, rd_data := patch (rd_data d) ?so ?e\<rparr>"
  have "ramdisk_transfer cip key lbs d s n b True = Inr (d', b)"
    using o d(1) crypt_transfer_loop [OF d, of "encrypt_one cip ?c" 0 b ?so "rd_data d"] c b
    by (simp add: ramdisk_transfer_def keyed_def [symmetric] rd_ok_def d'_def Let_def)
  moreover have key: "keyed cip key d' = ?c" using d(1) by (intro rd_keyed_same) (simp_all add: d'_def)
  have "rd_ok cip key lbs d'" using d(1) key o(4) le by (auto simp: rd_ok_def d'_def)
  moreover have "rd_plain cip key d' =
      patch (rd_plain cip key d) ?so (blockwise ?bs (decrypt_one cip ?c) ?e)"
    unfolding rd_plain_def key using blockwise_patch [of ?bs "rd_data d" ?so ?e "decrypt_one cip ?c"] bl le o(4) c
    by (simp add: d'_def)
  moreover have "blockwise ?bs (decrypt_one cip ?c) ?e = take ?n b"
    using bl(2) b c by (intro blockwise_inverse) auto
  ultimately show ?thesis by (auto simp: d'_def rd_valid_def fun_eq_iff)
qed

lemma ramdisk_read:
  assumes d: "rd_ok cip key lbs d" "rd_valid lbs d s n" and b: "sbd_bytes lbs n \<le> length b"
  shows "\<exists>d'. ramdisk_transfer cip key lbs d s n b False =
      Inr (d', patch b 0 (take (sbd_bytes lbs n) (drop (sbd_bytes lbs s) (rd_plain cip key d)))) \<and>
    rd_ok cip key lbs d' \<and> rd_valid lbs d' = rd_valid lbs d \<and> rd_plain cip key d' = rd_plain cip key d"
proof -
  let ?c = "keyed cip key d" and ?bs = "blocksize cip" and ?so = "sbd_bytes lbs s" and ?n = "sbd_bytes lbs n"
  note o = rd_offsets [OF d] and bl = rd_blocks [OF d]
  have c: "0 < ?bs" "\<And>x. length x = ?bs \<Longrightarrow> length (decrypt_one cip ?c x) = ?bs"
    using d(1) by (auto simp: rd_ok_def cipher_ok_def)
  define d' where "d' = d\<lparr>rd_crypto := ?c\<rparr>"
  let ?p = "blockwise ?bs (decrypt_one cip ?c) (take ?n (drop ?so (rd_data d)))"
  have "ramdisk_transfer cip key lbs d s n b False = Inr (d', patch b 0 ?p)"
    using o d(1) crypt_transfer_loop [OF d, of "decrypt_one cip ?c" ?so "rd_data d" 0 b] c b
    by (simp add: ramdisk_transfer_def keyed_def [symmetric] rd_ok_def d'_def Let_def)
  moreover have "?p = take ?n (drop ?so (rd_plain cip key d))"
  proof -
    have "?bs dvd length (drop ?so (rd_data d))" using bl o(4) by (simp add: dvd_diff_nat)
    then show ?thesis unfolding rd_plain_def
      using blockwise_take_drop(2) [of ?bs "rd_data d" ?so "decrypt_one cip ?c"]
        blockwise_take_drop(1) [of ?bs "drop ?so (rd_data d)" ?n "decrypt_one cip ?c"] bl o(4) c by simp
  qed
  moreover have key: "keyed cip key d' = ?c" using d(1) by (intro rd_keyed_same) (simp_all add: d'_def)
  moreover have "rd_ok cip key lbs d'" using d(1) key by (auto simp: rd_ok_def d'_def)
  ultimately show ?thesis by (auto simp: d'_def rd_valid_def rd_plain_def fun_eq_iff)
qed

interpretation ramdisk: block_device "rd_ok cip key lbs" "rd_plain cip key" "rd_valid lbs" "sbd_bytes lbs"
  "ramdisk_transfer cip key lbs" for cip key lbs
  by unfold_locales
    (use rd_offsets(4) length_rd_plain in force, blast intro: ramdisk_write, blast intro: ramdisk_read)

subsection \<open>Serving a queue\<close>

lemma ramdisk_request_step:
  assumes "br_fs r"
    and "ramdisk_transfer cip key lbs d (sg_sector (cur_seg r)) (sg_nsect (cur_seg r)) (sg_buffer (cur_seg r))
      (sg_write (cur_seg r)) = Inr (d', b)"
  shows "ramdisk_request cip key lbs d (Some r) q bufs =
    (case end_request (r # q) of
       [] \<Rightarrow> ramdisk_request cip key lbs d' None [] (bufs @ [b])
     | r' # q' \<Rightarrow> ramdisk_request cip key lbs d' (Some r') q' (bufs @ [b]))"
  using assms by (subst ramdisk_request.simps) (simp add: Let_def)

lemma ramdisk_request_finish: "ramdisk_request cip key lbs d None q bufs = Some (Inr (d, bufs))"
  by (subst ramdisk_request.simps) simp

lemma end_request_fs: "(\<forall>r \<in> set q. br_fs r) \<Longrightarrow> \<forall>r \<in> set (end_request q). br_fs r"
  by (cases q) (auto simp: end_request_def split: list.splits)

lemma ramdisk_request_serves:
  assumes "rd_ok cip key lbs d" and "queue_ok (r # q)" and "\<forall>x \<in> set (r # q). br_fs x"
    and "\<forall>g \<in> set (fs_segs (r # q)). ramdisk.seg_ok lbs d g"
  shows "\<exists>d' bs. ramdisk_request cip key lbs d (Some r) q bufs = Some (Inr (d', bufs @ bs)) \<and>
    rd_ok cip key lbs d' \<and> serve (sbd_bytes lbs) (rd_plain cip key d) (fs_segs (r # q)) = (rd_plain cip key d', bs)"
  using assms
proof (induction "work_left (r # q)" arbitrary: d r q bufs rule: less_induct)
  case less
  let ?g = "cur_seg r"
  have fs: "br_fs r" using less.prems(3) by simp
  note segs = fs_segs_end(1) [OF less.prems(2) fs]
  from ramdisk.xfer_one [OF less.prems(1), of ?g] less.prems(4) segs obtain d1 b where
    d1: "ramdisk_transfer cip key lbs d (sg_sector ?g) (sg_nsect ?g) (sg_buffer ?g) (sg_write ?g) = Inr (d1, b)"
    "rd_ok cip key lbs d1" "rd_valid lbs d1 = rd_valid lbs d"
    "(rd_plain cip key d1, [b]) = serve (sbd_bytes lbs) (rd_plain cip key d) [?g]" by auto
  note code = ramdisk_request_step [OF fs d1(1)]
  show ?case
  proof (cases "end_request (r # q)")
    case Nil
    then have "fs_segs (r # q) = [?g]" using segs by (simp add: fs_segs_def)
    then show ?thesis using code [of q bufs] Nil d1 by (auto simp: ramdisk_request_finish)
  next
    case (Cons r' q')
    have "work_left (r' # q') < work_left (r # q)" using work_left_end [of "r # q"] Cons by simp
    moreover have "queue_ok (r' # q')" using queue_ok_end [OF less.prems(2)] Cons by simp
    moreover have "\<forall>x \<in> set (r' # q'). br_fs x" using end_request_fs [OF less.prems(3)] Cons by simp
    moreover have "\<forall>g \<in> set (fs_segs (r' # q')). ramdisk.seg_ok lbs d1 g"
      using less.prems(4) segs Cons d1(3) by (auto simp: ramdisk.seg_ok_def)
    ultimately obtain d' bs where
      "ramdisk_request cip key lbs d1 (Some r') q' (bufs @ [b]) = Some (Inr (d', bufs @ [b] @ bs))"
      "rd_ok cip key lbs d'" "serve (sbd_bytes lbs) (rd_plain cip key d1) (fs_segs (r' # q')) = (rd_plain cip key d', bs)"
      using less.hyps [of r' q' d1 "bufs @ [b]"] d1(2) by auto
    then show ?thesis using code [of q bufs] Cons segs d1(4)
      by (auto simp: Let_def split: if_splits prod.splits)
  qed
qed

lemma ramdisk_sbd_request_serves:
  assumes "rd_ok cip key lbs d" and "queue_ok q" and "\<forall>r \<in> set q. br_fs r"
    and "\<forall>g \<in> set (fs_segs q). ramdisk.seg_ok lbs d g"
  shows "\<exists>d' bs. ramdisk_sbd_request cip key lbs d q = Inr (d', bs) \<and> rd_ok cip key lbs d' \<and>
    serve (sbd_bytes lbs) (rd_plain cip key d) (fs_segs q) = (rd_plain cip key d', bs)"
proof (cases q)
  case Nil
  then show ?thesis using assms(1) by (simp add: ramdisk_sbd_request_def ramdisk_request_finish fs_segs_def)
next
  case (Cons r rs)
  then show ?thesis using ramdisk_request_serves [OF assms(1), of r rs "[]"] assms
    by (auto simp: ramdisk_sbd_request_def)
qed

text \<open>A request that is not a file system request is never left.\<close>

lemma ramdisk_request_stuck:
  assumes "\<not> br_fs r" shows "ramdisk_request cip key lbs d (Some r) q bufs = None"
proof -
  have "\<not> (\<exists>r. req = Some r \<and> \<not> br_fs r)" if "ramdisk_request cip key lbs d req q bufs = Some y" for req y
    using _ that
  proof (rule ramdisk_request.raw_induct [where P = "\<lambda>cip key lbs d req q bufs y. \<not> (\<exists>r. req = Some r \<and> \<not> br_fs r)"],
      goal_cases)
    case (1 f cip key lbs d req q bufs y)
    show ?case
    proof
      assume "\<exists>r. req = Some r \<and> \<not> br_fs r"
      then obtain r where r: "req = Some r" "\<not> br_fs r" by blast
      with 1(2) have "f cip key lbs d (Some r) q bufs = Some y" by simp
      from 1(1) [OF this] r(2) show False by blast
    qed
  qed
  with assms show ?thesis by (metis not_None_eq)
qed

lemma ramdisk_request_hangs:
  assumes "rd_ok cip key lbs d" and "queue_ok (r # q)" and "r # q = p @ x # rest" and "\<not> br_fs x"
    and "\<forall>y \<in> set p. br_fs y" and "\<forall>g \<in> set (fs_segs p). ramdisk.seg_ok lbs d g"
  shows "ramdisk_request cip key lbs d (Some r) q bufs = None"
  using assms
proof (induction "work_left (r # q)" arbitrary: d r q p bufs rule: less_induct)
  case less
  show ?case
  proof (cases p)
    case Nil
    then show ?thesis using less.prems(3,4) ramdisk_request_stuck [of r] by simp
  next
    case (Cons r0 p')
    then have r0: "r0 = r" and q: "q = p' @ x # rest" using less.prems(3) by auto
    have fs: "br_fs r" using less.prems(5) Cons r0 by simp
    have qp: "queue_ok p" using less.prems(2,3) Cons by (auto simp: queue_ok_def)
    note segs = fs_segs_end(1) [of r p', OF _ fs]
    have gs: "fs_segs p = cur_seg r # fs_segs (end_request p)" using segs qp Cons r0 by simp
    from ramdisk.xfer_one [OF less.prems(1), of "cur_seg r"] less.prems(6) gs obtain d1 b where
      d1: "ramdisk_transfer cip key lbs d (sg_sector (cur_seg r)) (sg_nsect (cur_seg r)) (sg_buffer (cur_seg r))
        (sg_write (cur_seg r)) = Inr (d1, b)" "rd_ok cip key lbs d1" "rd_valid lbs d1 = rd_valid lbs d" by auto
    have e: "end_request (r # q) = end_request p @ x # rest"
      using less.prems(2) unfolding Cons r0 q by (auto simp: end_request_def queue_ok_def split: list.split)
    then obtain r' q' where Q: "end_request (r # q) = r' # q'" by (metis append_is_Nil_conv list.distinct(1) neq_Nil_conv)
    have "work_left (r' # q') < work_left (r # q)" using work_left_end [of "r # q"] Q by simp
    moreover have "queue_ok (r' # q')" using queue_ok_end [OF less.prems(2)] Q by simp
    moreover have "\<forall>g \<in> set (fs_segs (end_request p)). ramdisk.seg_ok lbs d1 g"
      using less.prems(6) gs d1(3) by (auto simp: ramdisk.seg_ok_def)
    ultimately have "ramdisk_request cip key lbs d1 (Some r') q' (bufs @ [b]) = None"
      using less.hyps [of r' q' d1 "end_request p"] d1(2) e Q less.prems(4) end_request_fs [OF less.prems(5)] by simp
    then show ?thesis using ramdisk_request_step [OF fs d1(1), of q bufs] Q by simp
  qed
qed

end
