(* ===== verification/Disk_Props.thy ===== *)
theory Disk_Props
  imports Ramdisk
begin

text \<open>
  The properties of the two block drivers (\<open>assignments/a3/sbd.c\<close> and \<open>assignments/a3/ramdisk.c\<close>).
\<close>

subsection \<open>Concrete devices\<close>

text \<open>
  A device of four sectors of 4 bytes, and a cipher with blocks of 2 bytes that, like AES, accepts
  keys of 16, 24 and 32 bytes only. The handle is the key; it starts as a key of zeros.
\<close>

definition toy_cipher :: "bytes cipher" where
  "toy_cipher = \<lparr>blocksize = 2,
     setkey = (\<lambda>c k. if length k \<in> {16, 24, 32} then (k, 0) else (c, - 22)),
     encrypt_one = (\<lambda>c b. map (xor (hd c + 0x5A)) b), decrypt_one = (\<lambda>c b. map (xor (hd c + 0x5A)) b)\<rparr>"

definition toy_ramdisk :: "bytes ramdisk" where
  "toy_ramdisk = \<lparr>rd_size = 16, rd_data = replicate 16 0, rd_crypto = replicate 16 0\<rparr>"

definition toy_sbd :: sbd_device where
  "toy_sbd = \<lparr>dev_size = 16, dev_data = replicate 16 0x5A\<rparr>"

definition toy_key :: bytes where "toy_key = replicate 8 7"

lemma toy_keyed: "keyed toy_cipher toy_key toy_ramdisk = replicate 16 0"
  by (simp add: keyed_def toy_cipher_def toy_key_def toy_ramdisk_def key_len_def)

lemma toy_rd_ok: "rd_ok toy_cipher toy_key 4 toy_ramdisk"
proof -
  have "cipher_ok toy_cipher (replicate 16 0)"
    by (auto simp: cipher_ok_def toy_cipher_def comp_def xor.assoc [symmetric])
  then show ?thesis unfolding rd_ok_def toy_keyed
    by (auto simp: toy_ramdisk_def toy_cipher_def toy_key_def key_len_def)
qed

lemma toy_sbd_ok: "sbd_ok 4 toy_sbd"
  by (simp add: sbd_ok_def toy_sbd_def)

lemma toy_plain: "rd_plain toy_cipher toy_key toy_ramdisk = dev_data toy_sbd"
  unfolding rd_plain_def toy_keyed
  by (simp add: toy_ramdisk_def toy_cipher_def toy_sbd_def blockwise_map)

definition wr_seg :: seg where
  "wr_seg = \<lparr>sg_sector = 1, sg_nsect = 1, sg_buffer = [1, 2, 3, 4], sg_write = True\<rparr>"

definition rd_seg :: seg where
  "rd_seg = \<lparr>sg_sector = 1, sg_nsect = 2, sg_buffer = replicate 8 0, sg_write = False\<rparr>"

definition toy_queue :: "blkreq list" where
  "toy_queue = [\<lparr>br_fs = True, br_segs = [wr_seg, rd_seg]\<rparr>]"

lemma toy_segs: "fs_segs toy_queue = [wr_seg, rd_seg]"
  by (simp add: fs_segs_def toy_queue_def)

subsection \<open>Properties\<close>

text \<open>
  C12: Both drivers serve requests alike. On file system requests whose segments are on the device, both
  request functions return (the loops end, no access is wild), every buffer gets the same
  bytes, namely those of the reference \<open>serve\<close>, and the decrypted contents of the ramdisk stay
  equal to the contents of the plain device: encryption is invisible to the user.
\<close>

theorem ramdisk_refines_sbd:
  assumes "rd_ok cip key lbs d" and "sbd_ok lbs e" and "rd_plain cip key d = dev_data e" and "rd_size d = dev_size e"
    and "\<forall>r \<in> set q. br_fs r \<and> br_segs r \<noteq> []"
    and "\<forall>g \<in> set (fs_segs q). rd_valid lbs d (sg_sector g) (sg_nsect g) \<and> sbd_bytes lbs (sg_nsect g) \<le> length (sg_buffer g)"
  shows "\<exists>d' e' l. ramdisk_sbd_request cip key lbs d q = Inr (d', map fst (filter snd l)) \<and>
    sbd_request lbs e q = Inr (e', l) \<and> rd_plain cip key d' = dev_data e' \<and>
    serve (sbd_bytes lbs) (dev_data e) (fs_segs q) = (dev_data e', map fst (filter snd l)) \<and>
    rd_ok cip key lbs d' \<and> sbd_ok lbs e'"
proof -
  have q: "queue_ok q" "\<forall>r \<in> set q. br_fs r" using assms(5) by (auto simp: queue_ok_def)
  have "\<forall>g \<in> set (fs_segs q). sbd.seg_ok lbs e g"
    using assms(4,6) by (auto simp: sbd.seg_ok_def sbd_valid_def rd_valid_def)
  from sbd_request_serves [OF assms(2) q(1) this] obtain e' l where e: "sbd_request lbs e q = Inr (e', l)" "sbd_ok lbs e'"
    "serve (sbd_bytes lbs) (dev_data e) (fs_segs q) = (dev_data e', map fst (filter snd l))" by blast
  have "\<forall>g \<in> set (fs_segs q). ramdisk.seg_ok lbs d g" using assms(6) by (simp add: ramdisk.seg_ok_def)
  from ramdisk_sbd_request_serves [OF assms(1) q this] show ?thesis using e assms(3) by auto
qed

theorem ramdisk_refines_sbd_witness:
  "\<exists>d' e' l. ramdisk_sbd_request toy_cipher toy_key 4 toy_ramdisk toy_queue = Inr (d', map fst (filter snd l)) \<and>
     sbd_request 4 toy_sbd toy_queue = Inr (e', l) \<and> rd_plain toy_cipher toy_key d' = dev_data e'"
proof -
  have "\<forall>r \<in> set toy_queue. br_fs r \<and> br_segs r \<noteq> []" by (simp add: toy_queue_def)
  moreover have "\<forall>g \<in> set (fs_segs toy_queue). rd_valid 4 toy_ramdisk (sg_sector g) (sg_nsect g) \<and>
      sbd_bytes 4 (sg_nsect g) \<le> length (sg_buffer g)"
    by (simp add: toy_segs wr_seg_def rd_seg_def rd_valid_def sbd_bytes_def toy_ramdisk_def)
  moreover have "rd_size toy_ramdisk = dev_size toy_sbd" by (simp add: toy_ramdisk_def toy_sbd_def)
  ultimately show ?thesis using ramdisk_refines_sbd [OF toy_rd_ok toy_sbd_ok toy_plain] by blast
qed

text \<open>
  C33: Write, then read. Writing sectors of the encrypting device and reading them back into any buffer
  returns the bytes written, and a read of other sectors returns what it returned before the
  write.
\<close>

theorem ramdisk_write_read:
  assumes "rd_ok cip key lbs d" and "rd_valid lbs d s n" and "length b = sbd_bytes lbs n" and "length c = sbd_bytes lbs n"
    and "rd_valid lbs d s' n'" and "length c' = sbd_bytes lbs n'"
    and "sbd_bytes lbs s' + sbd_bytes lbs n' \<le> sbd_bytes lbs s \<or> sbd_bytes lbs s + sbd_bytes lbs n \<le> sbd_bytes lbs s'"
  shows "\<exists>d1. ramdisk_transfer cip key lbs d s n b True = Inr (d1, b) \<and>
    (\<exists>d2. ramdisk_transfer cip key lbs d1 s n c False = Inr (d2, b)) \<and>
    (\<exists>d3 d4 x. ramdisk_transfer cip key lbs d1 s' n' c' False = Inr (d3, x) \<and>
       ramdisk_transfer cip key lbs d s' n' c' False = Inr (d4, x))"
  using ramdisk.write_read [OF assms(1-4)] ramdisk.write_other [OF assms(1,2,5,3,6,7)] by auto

theorem ramdisk_write_read_witness:
  "\<exists>d1 d2. ramdisk_transfer toy_cipher toy_key 4 toy_ramdisk 1 1 [1, 2, 3, 4] True = Inr (d1, [1, 2, 3, 4]) \<and>
     ramdisk_transfer toy_cipher toy_key 4 d1 1 1 [0, 0, 0, 0] False = Inr (d2, [1, 2, 3, 4])"
proof -
  have "rd_valid 4 toy_ramdisk 1 1" "rd_valid 4 toy_ramdisk 2 1" by (simp_all add: rd_valid_def toy_ramdisk_def)
  then show ?thesis
    using ramdisk_write_read [OF toy_rd_ok, of 1 1 "[1, 2, 3, 4]" "[0, 0, 0, 0]" 2 1 "[0, 0, 0, 0]"]
    by (auto simp: sbd_bytes_def)
qed

text \<open>
  C34: A request that is not a file system request stops the encrypting driver: \<open>continue\<close> goes back to the
  loop condition without fetching another request, so once such a request is reached
  \<open>sbd_request\<close> never returns. (The plain driver ends it and goes on.)
\<close>

theorem ramdisk_request_never_returns:
  assumes "rd_ok cip key lbs d" and "q = p @ x # rest" and "\<not> br_fs x" and "\<forall>r \<in> set p. br_fs r"
    and "\<forall>r \<in> set q. br_segs r \<noteq> []"
    and "\<forall>g \<in> set (fs_segs p). rd_valid lbs d (sg_sector g) (sg_nsect g) \<and> sbd_bytes lbs (sg_nsect g) \<le> length (sg_buffer g)"
  shows "ramdisk_sbd_request cip key lbs d q = Inl Hang"
proof -
  obtain r rs where q: "q = r # rs" using assms(2) by (metis append_is_Nil_conv list.distinct(1) neq_Nil_conv)
  have "queue_ok (r # rs)" using assms(5) q by (simp add: queue_ok_def)
  then have "ramdisk_request cip key lbs d (Some r) rs [] = None"
    using ramdisk_request_hangs [OF assms(1), of r rs p x rest] assms q by (auto simp: ramdisk.seg_ok_def)
  then show ?thesis by (simp add: ramdisk_sbd_request_def q)
qed

theorem ramdisk_request_never_returns_witness:
  "ramdisk_sbd_request toy_cipher toy_key 4 toy_ramdisk (toy_queue @ [\<lparr>br_fs = False, br_segs = [rd_seg]\<rparr>]) = Inl Hang \<and>
   (\<exists>d l. sbd_request 4 toy_sbd [\<lparr>br_fs = False, br_segs = [rd_seg]\<rparr>] = Inr (d, l))"
proof
  show "ramdisk_sbd_request toy_cipher toy_key 4 toy_ramdisk (toy_queue @ [\<lparr>br_fs = False, br_segs = [rd_seg]\<rparr>]) = Inl Hang"
    by (rule ramdisk_request_never_returns [OF toy_rd_ok refl])
       (simp_all add: toy_queue_def fs_segs_def wr_seg_def rd_seg_def rd_valid_def sbd_bytes_def toy_ramdisk_def)
qed (simp add: end_request_def Let_def)

text \<open>
  The bounds check. A transfer that ends past the device, with no wrap-around in the 32-bit sum, leaves
  the device contents and the buffer alone in both drivers; both request functions then report
  the segment as done without error.
\<close>

lemma transfer_beyond_end:
  assumes "0 \<le> s" and "0 \<le> n" and "0 < bs" and "s * bs + n * bs < 2 ^ 32"
    and "dev_size e < s * bs + n * bs" and "rd_size d < s * bs + n * bs"
    and "g = \<lparr>sg_sector = s, sg_nsect = n, sg_buffer = b, sg_write = w\<rparr>"
  shows "sbd_transfer bs e s n b w = Inr (e, b) \<and>
    ramdisk_transfer cip key bs d s n b w = Inr (d\<lparr>rd_crypto := keyed cip key d\<rparr>, b) \<and>
    sbd_request bs e [\<lparr>br_fs = True, br_segs = [g]\<rparr>] = Inr (e, [(b, True)])"
proof -
  have "0 \<le> s * bs" "0 \<le> n * bs" using assms(1-3) by auto
  then have "ulong (s * bs) = s * bs" "ulong (n * bs) = n * bs" "ulong (s * bs + n * bs) = s * bs + n * bs"
    using assms(4) by (auto simp: c_int)
  then show ?thesis using assms(5-7)
    by (simp add: sbd_transfer_def ramdisk_transfer_def keyed_def cur_seg_def end_request_def Let_def)
qed

lemma transfer_beyond_end_witness:
  "sbd_transfer 4 toy_sbd 4 1 [1, 2, 3, 4] True = Inr (toy_sbd, [1, 2, 3, 4]) \<and>
   sbd_request 4 toy_sbd [\<lparr>br_fs = True, br_segs = [\<lparr>sg_sector = 4, sg_nsect = 1, sg_buffer = [1, 2, 3, 4], sg_write = True\<rparr>]\<rparr>] =
     Inr (toy_sbd, [([1, 2, 3, 4], True)])"
  using transfer_beyond_end [of 4 1 4 toy_sbd toy_ramdisk _ "[1, 2, 3, 4]" True toy_cipher toy_key, OF _ _ _ _ _ _ refl]
  by (simp add: toy_sbd_def toy_ramdisk_def)

text \<open>
  C39: The bounds check can be passed by wrap-around. Where the 32-bit sum of offset and length (at most 2
  GiB) wraps to a value not beyond the device, the check succeeds and both drivers access memory
  outside the device.
\<close>

theorem transfer_wraps:
  assumes "sbd_ok bs e" and "rd_ok cip key bs d" and "0 \<le> s" and "s * bs < 2 ^ 32" and "0 < n" and "n * bs \<le> 2 ^ 31"
    and "2 ^ 32 \<le> s * bs + n * bs" and "s * bs + n * bs - 2 ^ 32 \<le> dev_size e" and "s * bs + n * bs - 2 ^ 32 \<le> rd_size d"
    and "int (length b) = n * bs"
  shows "sbd_transfer bs e s n b True = Inl Wild \<and> sbd_transfer bs e s n b False = Inl Wild \<and>
    ramdisk_transfer cip key bs d s n b True = Inl Wild \<and> ramdisk_transfer cip key bs d s n b False = Inl Wild"
proof -
  have pos: "0 < bs" "0 < n * bs" "0 \<le> s * bs" using assms(1,3,5) by (auto simp: sbd_ok_def)
  have u: "ulong (s * bs) = s * bs" "ulong (n * bs) = n * bs" using assms(4,6) pos by (auto simp: c_int)
  have w: "ulong (s * bs + n * bs) = s * bs + n * bs - 2 ^ 32"
    using assms(4,6,7) by (intro ulong_wrap) auto
  have big: "int (length (dev_data e)) < s * bs + n * bs" "int (length (rd_data d)) < s * bs + n * bs"
    using assms(1,2,7) by (auto simp: sbd_ok_def rd_ok_def)
  have far: "int (length (rd_data d)) < s * bs"
    using assms(2,6,7,9) by (auto simp: rd_ok_def)
  have bl: "0 < blocksize cip" "int (blocksize cip) \<le> n * bs"
    and enc: "\<And>x. length x = blocksize cip \<Longrightarrow> length (encrypt_one cip (keyed cip key d) x) = blocksize cip"
    using assms(2,5) zdvd_imp_le [of "int (blocksize cip)" "n * bs"] pos
    by (auto simp: rd_ok_def cipher_ok_def)
  have "sbd_transfer bs e s n b wr = Inl Wild" for wr
    using u w assms(8,10) pos big
    by (cases wr) (simp_all add: sbd_transfer_def memcpy_def read_at_def copy_at_def)
  moreover have "crypt_block (encrypt_one cip (keyed cip key d)) (blocksize cip) (rd_data d) (s * bs + 0) b 0 = Inl Wild"
    using assms(10) far bl enc by (simp add: crypt_block_def read_at_def copy_at_def min_absorb2)
  then have "ramdisk_transfer cip key bs d s n b True = Inl Wild"
    using u w assms(9) pos(2) by (simp add: ramdisk_transfer_def keyed_def crypt_loop_fault Let_def)
  moreover have "crypt_block (decrypt_one cip (keyed cip key d)) (blocksize cip) b 0 (rd_data d) (s * bs + 0) = Inl Wild"
    using far bl by (simp add: crypt_block_def read_at_def)
  then have "ramdisk_transfer cip key bs d s n b False = Inl Wild"
    using u w assms(9) pos(2) by (simp add: ramdisk_transfer_def keyed_def crypt_loop_fault Let_def)
  ultimately show ?thesis by blast
qed

theorem transfer_wraps_witness:
  "sbd_transfer 4 toy_sbd 1073741823 1 [1, 2, 3, 4] True = Inl Wild \<and>
   ramdisk_transfer toy_cipher toy_key 4 toy_ramdisk 1073741823 1 [1, 2, 3, 4] True = Inl Wild"
  using transfer_wraps [OF toy_sbd_ok toy_rd_ok, of 1073741823 1 "[1, 2, 3, 4]"]
  by (simp add: toy_sbd_def toy_ramdisk_def)

text \<open>
  The key is used unchecked. If the cipher rejects the first \<open>key_len\<close> bytes of two keys and keeps its
  handle, every transfer does the same under both keys, since the result of
  \<open>crypto_cipher_setkey\<close> is ignored: the device then works with whatever key the handle had.
\<close>

lemma rejected_key_ignored:
  assumes "setkey cip (rd_crypto d) (take key_len key1) = (rd_crypto d, err1)" and "err1 \<noteq> 0"
    and "setkey cip (rd_crypto d) (take key_len key2) = (rd_crypto d, err2)" and "err2 \<noteq> 0"
  shows "ramdisk_transfer cip key1 lbs d s n b w = ramdisk_transfer cip key2 lbs d s n b w"
  using assms by (simp add: ramdisk_transfer_def)

lemma rejected_key_ignored_witness:
  "ramdisk_transfer toy_cipher toy_key 4 toy_ramdisk 1 1 [1, 2, 3, 4] True =
   ramdisk_transfer toy_cipher (replicate 8 9) 4 toy_ramdisk 1 1 [1, 2, 3, 4] True"
  by (rule rejected_key_ignored [of _ _ _ "- 22" _ "- 22"])
     (simp_all add: toy_cipher_def toy_ramdisk_def toy_key_def key_len_def)

text \<open>
  The made-up geometry. With sectors of 512 bytes the product of cylinders, heads and sectors that both
  drivers report is the size of the device in bytes (for a multiple of 64 below 4 MiB), not in
  sectors, as the capacity they register is: it is 512 times too large.
\<close>

lemma geometry_counts_bytes:
  assumes "rd_size d = nsectors * 512" and "0 \<le> nsectors" and "nsectors < 8192" and "dev_size e = rd_size d"
  shows "(let geo = snd (sbd_getgeo 512 d) in geo_cylinders geo * geo_heads geo * geo_sectors geo = 512 * nsectors) \<and>
    (\<exists>geo. sbd_ioctl 512 e HDIO_GETGEO True = (0, Some geo) \<and> geo_cylinders geo * geo_heads geo * geo_sectors geo = 512 * nsectors)"
proof -
  have "slong (nsectors * 512) = nsectors * 512"
    unfolding slong_def using assms(2,3) by (intro sint_word_of_int_s32) auto
  moreover have "and x (not 63) = x div 64 * 64" for x :: int using and_not_mask [of x 6] by simp
  moreover have "nsectors * 512 div 64 = nsectors * 8" by simp
  moreover have "nsectors * 8 mod 2 ^ 16 = nsectors * 8" using assms(2,3) by (intro mod_pos_pos_trivial) auto
  ultimately have "geo_cylinders (geo_of (nsectors * 512) 512 st) = nsectors * 8" for st
    by (simp add: geo_of_def KERNEL_SECTOR_SIZE_def drop_bit_eq_div Let_def)
  then show ?thesis using assms by (simp add: sbd_getgeo_def sbd_ioctl_def Let_def) (simp add: geo_of_def Let_def)
qed

lemma geometry_counts_bytes_witness:
  "geo_cylinders (snd (sbd_getgeo 512 (toy_ramdisk\<lparr>rd_size := 524288\<rparr>))) * 4 * 16 = 524288"
  using geometry_counts_bytes [of "toy_ramdisk\<lparr>rd_size := 524288\<rparr>" 1024 "toy_sbd\<lparr>dev_size := 524288\<rparr>"]
  by (simp add: sbd_getgeo_def geo_of_def Let_def)

end
