(* ===== verification/Disk_Driver.thy ===== *)
theory Disk_Driver
  imports Disk_Props
begin

text \<open>
  The two block drivers (\<open>assignments/a3/sbd.c\<close>, \<open>assignments/a3/ramdisk.c\<close>) from loading to removal: which
  resources each path of \<open>sbd_init\<close> leaves held, that a driver loaded with sectors of 512 bytes
  serves every request within the capacity it has announced, and what it does with other sizes.
\<close>

subsection \<open>Laws of the kernel\<close>

text \<open>
  \<open>vmalloc\<close> returns as many bytes as asked for. \<open>register_blkdev\<close> returns a positive number when it is
  asked to choose one (and an error or 0 when it is given one). The block layer keeps requests
  within the capacity, which it counts, like the requests, in sectors of 512 bytes, whatever the
  size of a block of the device.
\<close>

definition vmalloc_law :: "kernel_answers \<Rightarrow> bool" where
  "vmalloc_law ka \<longleftrightarrow> (\<forall>n mem. 0 \<le> n \<and> vmalloc ka n = Some mem \<longrightarrow> int (length mem) = n)"

definition register_law :: "kernel_answers \<Rightarrow> bool" where
  "register_law ka \<longleftrightarrow> register_blkdev ka 0 \<noteq> 0 \<and> (\<forall>m > 0. register_blkdev ka m \<le> 0)"

definition in_capacity :: "int \<Rightarrow> seg \<Rightarrow> bool" where
  "in_capacity cap g \<longleftrightarrow> 0 \<le> sg_sector g \<and> 0 \<le> sg_nsect g \<and> sg_sector g + sg_nsect g \<le> cap \<and>
     int (length (sg_buffer g)) = sg_nsect g * KERNEL_SECTOR_SIZE"

subsection \<open>Loading and removing\<close>

named_theorems drv_defs

declare hold_def [drv_defs] and release_def [drv_defs] and driver_start_def [drv_defs]
  and register_major_def [drv_defs] and unregister_major_def [drv_defs] and Let_def [drv_defs]

text \<open>A driver that has been loaded.\<close>

lemma sbd_loaded:
  assumes "sbd_init mp ka = (0, d)"
  shows "vmalloc ka (ulong (mp_nsectors mp * mp_hardsect_size mp)) = Some (drv_data d)"
    and "drv_size d = ulong (mp_nsectors mp * mp_hardsect_size mp)"
    and "drv_queue_bs d = mp_hardsect_size mp"
    and "drv_capacity d = slong (mp_nsectors mp * (mp_hardsect_size mp sdiv KERNEL_SECTOR_SIZE))"
    and "0 < register_blkdev ka (mp_major_num mp)" and "drv_major_num d = register_blkdev ka (mp_major_num mp)"
    and "drv_gd_major d = drv_major_num d"
    and "drv_held d = {Data, RequestQueue, Gendisk,
      Major (if mp_major_num mp = 0 then register_blkdev ka 0 else mp_major_num mp)}"
  using assms by (auto simp: sbd_init_def drv_defs SBD_ENOMEM_def split: option.splits if_splits)

lemma ramdisk_loaded:
  assumes "ramdisk_init mp ka = (0, d)"
  shows "vmalloc ka (ulong (mp_nsectors mp * mp_hardsect_size mp)) = Some (drv_data d)"
    and "drv_size d = ulong (mp_nsectors mp * mp_hardsect_size mp)"
    and "drv_queue_bs d = mp_hardsect_size mp"
    and "drv_capacity d = mp_nsectors mp"
    and "0 \<le> register_blkdev ka (mp_major_num mp)" and "drv_major_num d = register_blkdev ka (mp_major_num mp)"
    and "drv_gd_major d = drv_major_num d"
    and "drv_held d = {Data, RequestQueue, Gendisk,
      Major (if mp_major_num mp = 0 then register_blkdev ka 0 else mp_major_num mp)} \<union>
      (if crypto_alloc_ok ka then {Crypto} else {})"
  using assms by (auto simp: ramdisk_init_def drv_defs SBD_ENOMEM_def split: option.splits if_splits)

text \<open>
  Resources when the kernel chooses the major number. Removal releases everything; a failure after
  the request queue exists leaves it held, and the encrypting driver keeps the crypto handle on
  every failure.
\<close>

lemma driver_resources:
  assumes "register_law ka" and "mp_major_num mp = 0"
  shows "sbd_init mp ka = (0, d) \<Longrightarrow> drv_held (sbd_exit d) = {}"
    and "ramdisk_init mp ka = (0, d) \<Longrightarrow> drv_held (ramdisk_exit d) = {}"
    and "sbd_init mp ka = (e, d) \<Longrightarrow> e \<noteq> 0 \<Longrightarrow> drv_held d \<subseteq> {RequestQueue}"
    and "ramdisk_init mp ka = (e, d) \<Longrightarrow> e \<noteq> 0 \<Longrightarrow>
      drv_held d \<subseteq> {RequestQueue, Crypto} \<and> (Crypto \<in> drv_held d \<longleftrightarrow> crypto_alloc_ok ka)"
proof -
  show "sbd_init mp ka = (0, d) \<Longrightarrow> drv_held (sbd_exit d) = {}"
    using sbd_loaded(6,8) [of mp ka d] assms(2) by (auto simp: sbd_exit_def drv_defs)
  show "ramdisk_init mp ka = (0, d) \<Longrightarrow> drv_held (ramdisk_exit d) = {}"
    using ramdisk_loaded(6,8) [of mp ka d] assms(2) by (auto simp: ramdisk_exit_def drv_defs)
  show "sbd_init mp ka = (e, d) \<Longrightarrow> e \<noteq> 0 \<Longrightarrow> drv_held d \<subseteq> {RequestQueue}"
    using assms by (auto simp: sbd_init_def drv_defs register_law_def split: option.splits if_splits)
  show "ramdisk_init mp ka = (e, d) \<Longrightarrow> e \<noteq> 0 \<Longrightarrow>
      drv_held d \<subseteq> {RequestQueue, Crypto} \<and> (Crypto \<in> drv_held d \<longleftrightarrow> crypto_alloc_ok ka)"
    using assms by (auto simp: ramdisk_init_def drv_defs register_law_def split: option.splits if_splits)
qed

text \<open>
  A major number given as a parameter. \<open>register_blkdev\<close> then returns 0 on success, which the plain
  driver takes for a failure: it never loads, and leaves the number registered. The encrypting
  driver loads with a disk whose major number is 0, and its removal leaves the number registered.
\<close>

lemma fixed_major:
  assumes "register_law ka" and "0 < mp_major_num mp"
  shows "fst (sbd_init mp ka) \<noteq> 0"
    and "vmalloc ka (ulong (mp_nsectors mp * mp_hardsect_size mp)) \<noteq> None \<Longrightarrow> blk_init_queue_ok ka \<Longrightarrow>
      register_blkdev ka (mp_major_num mp) = 0 \<Longrightarrow> Major (mp_major_num mp) \<in> drv_held (snd (sbd_init mp ka))"
    and "ramdisk_init mp ka = (0, d) \<Longrightarrow> drv_gd_major d = 0 \<and> Major (mp_major_num mp) \<in> drv_held (ramdisk_exit d)"
proof -
  have r: "register_blkdev ka (mp_major_num mp) \<le> 0" using assms by (simp add: register_law_def)
  show "fst (sbd_init mp ka) \<noteq> 0" using sbd_loaded(5) [of mp ka] r by (metis linorder_not_le prod.collapse)
  show "Major (mp_major_num mp) \<in> drv_held (snd (sbd_init mp ka))"
    if "vmalloc ka (ulong (mp_nsectors mp * mp_hardsect_size mp)) \<noteq> None" "blk_init_queue_ok ka"
      "register_blkdev ka (mp_major_num mp) = 0"
    using that assms(2) by (auto simp: sbd_init_def drv_defs)
  show "drv_gd_major d = 0 \<and> Major (mp_major_num mp) \<in> drv_held (ramdisk_exit d)" if "ramdisk_init mp ka = (0, d)"
    using ramdisk_loaded(5-8) [OF that] r assms(2) by (auto simp: ramdisk_exit_def drv_defs)
qed

subsection \<open>Sectors of 512 bytes\<close>

lemma default_size:
  assumes "mp_hardsect_size mp = 512" and "0 \<le> mp_nsectors mp" and "mp_nsectors mp * 512 < 2 ^ 31"
  shows "ulong (mp_nsectors mp * mp_hardsect_size mp) = mp_nsectors mp * 512"
    and "slong (mp_nsectors mp * (mp_hardsect_size mp sdiv KERNEL_SECTOR_SIZE)) = mp_nsectors mp"
proof -
  show "ulong (mp_nsectors mp * mp_hardsect_size mp) = mp_nsectors mp * 512" using assms by (simp add: c_int)
  have "slong (mp_nsectors mp) = mp_nsectors mp"
    unfolding slong_def using assms(2,3) by (intro sint_word_of_int_s32) auto
  then show "slong (mp_nsectors mp * (mp_hardsect_size mp sdiv KERNEL_SECTOR_SIZE)) = mp_nsectors mp"
    using assms(1) by (simp add: KERNEL_SECTOR_SIZE_def)
qed

lemma sbd_loaded_ok:
  assumes "sbd_init mp ka = (0, d)" and "vmalloc_law ka"
    and "mp_hardsect_size mp = 512" and "0 \<le> mp_nsectors mp" and "mp_nsectors mp * 512 < 2 ^ 31"
  shows "sbd_ok 512 (sbd_device_of d)" and "drv_capacity d = mp_nsectors mp"
    and "in_capacity (drv_capacity d) g \<Longrightarrow> sbd.seg_ok 512 (sbd_device_of d) g"
proof -
  note l = sbd_loaded [OF assms(1), unfolded default_size [OF assms(3-5)]]
  have "int (length (drv_data d)) = mp_nsectors mp * 512" using assms(2,4) l(1) by (simp add: vmalloc_law_def)
  then show "sbd_ok 512 (sbd_device_of d)" using l(2) assms(5) by (simp add: sbd_ok_def sbd_device_of_def)
  show "drv_capacity d = mp_nsectors mp" by (fact l(4))
  show "in_capacity (drv_capacity d) g \<Longrightarrow> sbd.seg_ok 512 (sbd_device_of d) g"
    using l(2,4) by (auto simp: sbd_device_of_def in_capacity_def sbd.seg_ok_def sbd_valid_def sbd_bytes_def
        KERNEL_SECTOR_SIZE_def)
qed

text \<open>What the encrypting driver relies on of the cipher, with the handle that it got at loading.\<close>

definition handle_ok :: "'c cipher \<Rightarrow> bytes \<Rightarrow> 'c \<Rightarrow> bool" where
  "handle_ok cip key c \<longleftrightarrow>
     (let k = fst (setkey cip c (take key_len key))
      in cipher_ok cip k \<and> fst (setkey cip k (take key_len key)) = k \<and> blocksize cip dvd 512)"

lemma ramdisk_loaded_ok:
  assumes "ramdisk_init mp ka = (0, d)" and "vmalloc_law ka" and "handle_ok cip key c"
    and "mp_hardsect_size mp = 512" and "0 \<le> mp_nsectors mp" and "mp_nsectors mp * 512 < 2 ^ 31"
  shows "rd_ok cip key 512 (ramdisk_of d c)" and "drv_capacity d = mp_nsectors mp"
    and "in_capacity (drv_capacity d) g \<Longrightarrow> ramdisk.seg_ok 512 (ramdisk_of d c) g"
proof -
  note l = ramdisk_loaded [OF assms(1), unfolded default_size [OF assms(4-6)]]
  have "int (length (drv_data d)) = mp_nsectors mp * 512" using assms(2,5) l(1) by (simp add: vmalloc_law_def)
  moreover have "int (blocksize cip) dvd 512" using assms(3) by (metis handle_ok_def int_dvd_int_iff of_nat_numeral)
  ultimately show "rd_ok cip key 512 (ramdisk_of d c)"
    using l(2) assms(3,6) by (simp add: rd_ok_def ramdisk_of_def handle_ok_def keyed_def Let_def)
  show "drv_capacity d = mp_nsectors mp" by (fact l(4))
  show "in_capacity (drv_capacity d) g \<Longrightarrow> ramdisk.seg_ok 512 (ramdisk_of d c) g"
    using l(2,4) by (auto simp: ramdisk_of_def in_capacity_def ramdisk.seg_ok_def rd_valid_def sbd_bytes_def
        KERNEL_SECTOR_SIZE_def)
qed

text \<open>
  C10: A loaded driver serves its capacity. Loaded with sectors of 512 bytes (the default) and a size below
  2 GiB, both drivers announce \<open>nsectors\<close> as the capacity, and every queue of file system requests
  within it is served in full: the request functions return without a wild access, and what the
  device holds and what the readers get are those of serving the segments in order on the bytes
  that the device shows.
\<close>

theorem driver_serves_capacity:
  assumes "sbd_init mp ka = (0, d)" and "ramdisk_init mp ka = (0, d')" and "vmalloc_law ka" and "handle_ok cip key c"
    and "mp_hardsect_size mp = 512" and "0 \<le> mp_nsectors mp" and "mp_nsectors mp * 512 < 2 ^ 31"
    and "\<forall>r \<in> set q. br_fs r \<and> br_segs r \<noteq> []" and "\<forall>g \<in> set (fs_segs q). in_capacity (mp_nsectors mp) g"
  shows "drv_capacity d = mp_nsectors mp \<and> drv_capacity d' = mp_nsectors mp \<and>
    (\<exists>e l. sbd_request 512 (sbd_device_of d) q = Inr (e, l) \<and>
       serve (sbd_bytes 512) (drv_data d) (fs_segs q) = (dev_data e, map fst (filter snd l))) \<and>
    (\<exists>e bs. ramdisk_sbd_request cip key 512 (ramdisk_of d' c) q = Inr (e, bs) \<and>
       serve (sbd_bytes 512) (rd_plain cip key (ramdisk_of d' c)) (fs_segs q) = (rd_plain cip key e, bs))"
proof -
  note s = sbd_loaded_ok [OF assms(1,3,5-7)] and r = ramdisk_loaded_ok [OF assms(2,3,4,5-7)]
  have q: "queue_ok q" "\<forall>r \<in> set q. br_fs r" using assms(8) by (auto simp: queue_ok_def)
  have "\<forall>g \<in> set (fs_segs q). sbd.seg_ok 512 (sbd_device_of d) g" using s(2,3) assms(9) by simp
  from sbd_request_serves [OF s(1) q(1) this] have "\<exists>e l. sbd_request 512 (sbd_device_of d) q = Inr (e, l) \<and>
       serve (sbd_bytes 512) (drv_data d) (fs_segs q) = (dev_data e, map fst (filter snd l))"
    by (auto simp: sbd_device_of_def)
  moreover have "\<forall>g \<in> set (fs_segs q). ramdisk.seg_ok 512 (ramdisk_of d' c) g" using r(2,3) assms(9) by simp
  note ramdisk_sbd_request_serves [OF r(1) q this]
  ultimately show ?thesis using s(2) r(2) by blast
qed

text \<open>A small disk of two sectors, for an example.\<close>

definition two_sectors :: module_params where
  "two_sectors = \<lparr>mp_major_num = 0, mp_hardsect_size = 512, mp_nsectors = 2\<rparr>"

definition willing_kernel :: kernel_answers where
  "willing_kernel = \<lparr>vmalloc = (\<lambda>n. Some (replicate (nat n) 0)), blk_init_queue_ok = True,
     register_blkdev = (\<lambda>m. if m = 0 then 250 else 0), alloc_disk_ok = True, crypto_alloc_ok = True\<rparr>"

definition second_sector :: "bool \<Rightarrow> seg" where
  "second_sector w = \<lparr>sg_sector = 1, sg_nsect = 1, sg_buffer = replicate 512 7, sg_write = w\<rparr>"

lemma willing_loads:
  "\<exists>d. sbd_init two_sectors willing_kernel = (0, d)" "\<exists>d. ramdisk_init two_sectors willing_kernel = (0, d)"
  by (simp_all add: sbd_init_def ramdisk_init_def drv_defs two_sectors_def willing_kernel_def)

lemma toy_handle_ok: "handle_ok toy_cipher toy_key (replicate 16 0)"
proof -
  have "keyed toy_cipher toy_key toy_ramdisk = fst (setkey toy_cipher (replicate 16 0) (take key_len toy_key))"
    by (simp add: keyed_def toy_ramdisk_def)
  then show ?thesis
    using toy_rd_ok toy_keyed unfolding handle_ok_def rd_ok_def Let_def by (simp add: toy_cipher_def)
qed

theorem driver_serves_capacity_witness:
  "\<exists>d e l. sbd_init two_sectors willing_kernel = (0, d) \<and> drv_capacity d = 2 \<and>
     sbd_request 512 (sbd_device_of d) [\<lparr>br_fs = True, br_segs = [second_sector True, second_sector False]\<rparr>] = Inr (e, l)"
proof -
  obtain d d' where d: "sbd_init two_sectors willing_kernel = (0, d)" "ramdisk_init two_sectors willing_kernel = (0, d')"
    using willing_loads by blast
  have "vmalloc_law willing_kernel" by (simp add: vmalloc_law_def willing_kernel_def)
  from driver_serves_capacity [OF d this toy_handle_ok, of
      "[\<lparr>br_fs = True, br_segs = [second_sector True, second_sector False]\<rparr>]"] d(1)
  show ?thesis
    by (auto simp: two_sectors_def fs_segs_def in_capacity_def second_sector_def KERNEL_SECTOR_SIZE_def)
qed

subsection \<open>Sectors of other sizes\<close>

text \<open>A loop that fails from some block on, if not before, fails.\<close>

lemma crypt_loop_fails:
  assumes step: "\<And>i x. P x \<Longrightarrow> f i x = Inl Wild \<or> (\<exists>y. f i x = Inr y \<and> P y)"
    and fail: "\<And>i x. P x \<Longrightarrow> 0 \<le> i \<Longrightarrow> L < i + bs \<Longrightarrow> f i x = Inl Wild"
    and "P x" and "0 \<le> i" and "i < n" and "L < n" and "0 < bs" and "n < 2 ^ 32"
  shows "crypt_loop f bs n i x = Some (Inl Wild)"
  using assms(3-5)
proof (induction "nat (n - i)" arbitrary: i x rule: less_induct)
  case less
  show ?case
  proof (cases "f i x = Inl Wild")
    case True
    then show ?thesis using less.prems(3) by (subst crypt_loop.simps) simp
  next
    case False
    then obtain y where y: "f i x = Inr y" "P y" using step [OF less.prems(1)] by blast
    have le: "i + bs \<le> L" using False fail [OF less.prems(1,2)] by force
    then have "ulong (i + bs) = i + bs" using less.prems(2) assms(6-8) by (auto simp: c_int)
    then show ?thesis using less.hyps [of "i + bs" y] y less.prems le assms(6,7) by (subst crypt_loop.simps) simp
  qed
qed

lemma crypt_block_length:
  assumes "crypt_block f bs dst i src j = Inr y" and "\<And>b. length b = bs \<Longrightarrow> length (f b) = bs"
  shows "length y = length dst"
  using assms by (auto simp: crypt_block_def read_at_def copy_at_def split: if_splits sum.splits)

lemma crypt_block_cases: "crypt_block f bs dst i src j = Inl Wild \<or> (\<exists>y. crypt_block f bs dst i src j = Inr y)"
  by (auto simp: crypt_block_def read_at_def copy_at_def)

text \<open>
  C40: Only sectors of 512 bytes work. The kernel counts in sectors of 512 bytes and hands over buffers of as
  many bytes, but the drivers take a sector to be as long as the parameter \<open>hardsect_size\<close> (or
  \<open>logical_block_size\<close>). With any larger value every transfer of at least one sector either is
  dropped as lying beyond the end, or runs over the caller's buffer.
\<close>

theorem large_sectors_overrun:
  assumes "sbd_ok bs e" and "rd_ok cip key bs d" and "512 < bs" and "0 \<le> s" and "0 < n" and "s * bs + n * bs < 2 ^ 32"
    and "int (length b) = n * KERNEL_SECTOR_SIZE"
  shows "sbd_transfer bs e s n b wr = (if dev_size e < s * bs + n * bs then Inr (e, b) else Inl Wild) \<and>
    ramdisk_transfer cip key bs d s n b wr =
      (if rd_size d < s * bs + n * bs then Inr (d\<lparr>rd_crypto := keyed cip key d\<rparr>, b) else Inl Wild)"
proof -
  let ?c = "keyed cip key d" and ?bs = "blocksize cip"
  have pos: "0 \<le> s * bs" "0 < n * bs" using assms(3-5) by auto
  then have u: "ulong (s * bs) = s * bs" "ulong (n * bs) = n * bs" "ulong (s * bs + n * bs) = s * bs + n * bs"
    using assms(6) by (auto simp: c_int)
  have "n * KERNEL_SECTOR_SIZE < n * bs" using assms(3,5) by (simp add: KERNEL_SECTOR_SIZE_def)
  then have b: "int (length b) < n * bs" using assms(7) by simp
  have "sbd_transfer bs e s n b wr = (if dev_size e < s * bs + n * bs then Inr (e, b) else Inl Wild)"
    using u pos b by (cases wr) (auto simp: sbd_transfer_def memcpy_def read_at_def copy_at_def Let_def)
  moreover have c: "0 < ?bs" "\<And>x. length x = ?bs \<Longrightarrow> length (encrypt_one cip ?c x) = ?bs"
    "\<And>x. length x = ?bs \<Longrightarrow> length (decrypt_one cip ?c x) = ?bs"
    using assms(2) by (auto simp: rd_ok_def cipher_ok_def)
  have lt: "n * bs < 2 ^ 32" using pos assms(6) by linarith
  have "crypt_loop (\<lambda>i dst. crypt_block (encrypt_one cip ?c) ?bs dst (s * bs + i) b i) (int ?bs) (n * bs) 0 (rd_data d) =
      Some (Inl Wild)"
    by (rule crypt_loop_fails [where P = "\<lambda>_. True" and L = "int (length b)"])
       (use b lt pos c(1) crypt_block_cases in \<open>auto simp: crypt_block_def read_at_def\<close>)
  moreover have "crypt_loop (\<lambda>i dst. crypt_block (decrypt_one cip ?c) ?bs dst i (rd_data d) (s * bs + i)) (int ?bs) (n * bs) 0 b =
      Some (Inl Wild)"
  proof (rule crypt_loop_fails [where P = "\<lambda>x. length x = length b" and L = "int (length b)"])
    fix i and x :: bytes assume x: "length x = length b"
    show "crypt_block (decrypt_one cip ?c) ?bs x i (rd_data d) (s * bs + i) = Inl Wild \<or>
        (\<exists>y. crypt_block (decrypt_one cip ?c) ?bs x i (rd_data d) (s * bs + i) = Inr y \<and> length y = length b)"
      using crypt_block_cases [of "decrypt_one cip ?c" ?bs x i "rd_data d" "s * bs + i"]
        crypt_block_length [of "decrypt_one cip ?c" ?bs x i "rd_data d" "s * bs + i"] c(3) x by fastforce
    show "crypt_block (decrypt_one cip ?c) ?bs x i (rd_data d) (s * bs + i) = Inl Wild"
      if "0 \<le> i" "int (length b) < i + int ?bs"
      using that x c(3) by (auto simp: crypt_block_def read_at_def copy_at_def)
  qed (use b lt pos c(1) in auto)
  ultimately show ?thesis using u pos
    by (cases wr) (auto simp: ramdisk_transfer_def keyed_def [symmetric] Let_def)
qed

theorem large_sectors_overrun_witness:
  "sbd_transfer 1024 \<lparr>dev_size = 2048, dev_data = replicate 2048 0\<rparr> 0 1 (replicate 512 1) True = Inl Wild \<and>
   ramdisk_transfer toy_cipher toy_key 1024 (toy_ramdisk\<lparr>rd_size := 2048, rd_data := replicate 2048 0\<rparr>) 0 1 (replicate 512 1) True =
     Inl Wild"
proof -
  let ?e = "\<lparr>dev_size = 2048, dev_data = replicate 2048 0\<rparr>" and ?d = "toy_ramdisk\<lparr>rd_size := 2048, rd_data := replicate 2048 0\<rparr>"
  have "sbd_ok 1024 ?e" by (simp add: sbd_ok_def)
  moreover have "rd_ok toy_cipher toy_key 1024 ?d"
    using toy_rd_ok unfolding rd_ok_def keyed_def by (simp add: toy_cipher_def)
  ultimately show ?thesis
    using large_sectors_overrun [of 1024 ?e toy_cipher toy_key ?d 0 1 "replicate 512 1" True]
    by (simp add: KERNEL_SECTOR_SIZE_def)
qed

end
