(* ===== verification/Disk_Order.thy ===== *)
theory Disk_Order
  imports Disk "HOL-Library.Multiset"
begin

text \<open>
  The order in which a device serves segments. Segments that do not overlap, unless both are only
  read, can be served in any order: the device ends up with the same bytes, and each segment gets
  the same answer, that of the bytes at the start. This is what allows an I/O scheduler to reorder.
\<close>

subsection \<open>Segments that do not interfere\<close>

definition apart :: "(int \<Rightarrow> nat) \<Rightarrow> seg \<Rightarrow> seg \<Rightarrow> bool" where
  "apart bo x y \<longleftrightarrow> \<not> sg_write x \<and> \<not> sg_write y \<or>
     bo (sg_sector x) + bo (sg_nsect x) \<le> bo (sg_sector y) \<or> bo (sg_sector y) + bo (sg_nsect y) \<le> bo (sg_sector x)"

definition all_apart :: "(int \<Rightarrow> nat) \<Rightarrow> seg set \<Rightarrow> bool" where
  "all_apart bo G \<longleftrightarrow> (\<forall>x \<in> G. \<forall>y \<in> G. x \<noteq> y \<longrightarrow> apart bo x y)"

definition fits :: "(int \<Rightarrow> nat) \<Rightarrow> nat \<Rightarrow> seg \<Rightarrow> bool" where
  "fits bo n g \<longleftrightarrow> bo (sg_sector g) + bo (sg_nsect g) \<le> n \<and> bo (sg_nsect g) \<le> length (sg_buffer g)"

text \<open>The answer to a segment from the bytes \<open>p\<close>, and what it makes of the byte at each address.\<close>

definition answer :: "(int \<Rightarrow> nat) \<Rightarrow> bytes \<Rightarrow> seg \<Rightarrow> bytes" where
  "answer bo p g = (if sg_write g then sg_buffer g
     else patch (sg_buffer g) 0 (take (bo (sg_nsect g)) (drop (bo (sg_sector g)) p)))"

definition overlay :: "(int \<Rightarrow> nat) \<Rightarrow> seg \<Rightarrow> (nat \<Rightarrow> 8 word) \<Rightarrow> nat \<Rightarrow> 8 word" where
  "overlay bo g h k =
     (if sg_write g \<and> bo (sg_sector g) \<le> k \<and> k < bo (sg_sector g) + bo (sg_nsect g)
      then sg_buffer g ! (k - bo (sg_sector g)) else h k)"

lemma all_apart_Cons: "all_apart bo (insert g G) \<Longrightarrow> all_apart bo G"
  by (simp add: all_apart_def)

lemma overlay_commute:
  assumes "x = y \<or> apart bo x y" shows "overlay bo x \<circ> overlay bo y = overlay bo y \<circ> overlay bo x"
  using assms by (auto simp: fun_eq_iff overlay_def apart_def)

lemma fold_overlay_cong: "h k = h' k \<Longrightarrow> fold (overlay bo) gs h k = fold (overlay bo) gs h' k"
proof (induction gs arbitrary: h h')
  case (Cons g gs)
  have "overlay bo g h k = overlay bo g h' k" using Cons.prems by (simp add: overlay_def)
  from Cons.IH [of "overlay bo g h" "overlay bo g h'", OF this] show ?case by simp
qed simp

subsection \<open>Serving in any order\<close>

lemma serve_write_step:
  assumes "fits bo (length p) g"
  defines "p' \<equiv> patch p (bo (sg_sector g)) (take (bo (sg_nsect g)) (sg_buffer g))"
  shows "length p' = length p" and "sg_write g \<Longrightarrow> k < length p \<Longrightarrow> p' ! k = overlay bo g (nth p) k"
  using assms by (auto simp: fits_def overlay_def nth_patch min_absorb2)

lemma serve_bytes:
  assumes "\<forall>g \<in> set gs. fits bo (length p) g"
  shows "length (fst (serve bo p gs)) = length p \<and>
    (\<forall>k < length p. fst (serve bo p gs) ! k = fold (overlay bo) gs (nth p) k)"
  using assms
proof (induction gs arbitrary: p)
  case (Cons g gs)
  let ?p = "patch p (bo (sg_sector g)) (take (bo (sg_nsect g)) (sg_buffer g))"
  note w = serve_write_step [of bo p g]
  show ?case
  proof (cases "sg_write g")
    case True
    with Cons.IH [of ?p] Cons.prems w have "length (fst (serve bo ?p gs)) = length p"
      "\<forall>k < length p. fst (serve bo ?p gs) ! k = fold (overlay bo) gs (overlay bo g (nth p)) k"
      by (auto intro: fold_overlay_cong)
    with True show ?thesis by (simp add: case_prod_beta Let_def)
  next
    case False
    then have "overlay bo g h = h" for h by (simp add: overlay_def fun_eq_iff)
    with False Cons show ?thesis by (simp add: case_prod_beta Let_def)
  qed
qed simp

lemma answer_apart:
  assumes "fits bo (length p) g" and "fits bo (length p) y" and "sg_write g" and "g \<noteq> y \<Longrightarrow> apart bo g y"
  shows "answer bo (patch p (bo (sg_sector g)) (take (bo (sg_nsect g)) (sg_buffer g))) y = answer bo p y"
proof (cases "sg_write y")
  case False
  with assms have "apart bo g y" by auto
  with assms(1-3) False show ?thesis by (simp add: answer_def fits_def apart_def patch_other min_absorb2 disj_commute)
qed (simp add: answer_def)

lemma serve_answers:
  assumes "\<forall>g \<in> set gs. fits bo (length p) g" and "all_apart bo (set gs)"
  shows "snd (serve bo p gs) = map (answer bo p) gs"
  using assms
proof (induction gs arbitrary: p)
  case (Cons g gs)
  let ?p = "patch p (bo (sg_sector g)) (take (bo (sg_nsect g)) (sg_buffer g))"
  note apart = all_apart_Cons [of bo g "set gs"]
  show ?case
  proof (cases "sg_write g")
    case True
    have "answer bo ?p y = answer bo p y" if "y \<in> set gs" for y
      using that Cons.prems True by (intro answer_apart) (auto simp: all_apart_def)
    with Cons.IH [of ?p] Cons.prems serve_write_step(1) [of bo p g] apart True show ?thesis
      by (simp add: case_prod_beta Let_def answer_def)
  next
    case False
    with Cons apart show ?thesis by (simp add: case_prod_beta Let_def answer_def)
  qed
qed simp

lemma serve_any_order:
  assumes "mset hs = mset gs" and "\<forall>g \<in> set gs. fits bo (length p) g" and "all_apart bo (set gs)"
  shows "serve bo p hs = (fst (serve bo p gs), map (answer bo p) hs)"
    and "snd (serve bo p gs) = map (answer bo p) gs"
proof -
  have s: "set hs = set gs" using assms(1) by (rule mset_eq_setD)
  have "fold (overlay bo) hs = fold (overlay bo) gs"
    using assms(1,3) s by (intro fold_multiset_equiv overlay_commute) (auto simp: all_apart_def)
  then have "fst (serve bo p hs) = fst (serve bo p gs)"
    using serve_bytes [of gs bo p] serve_bytes [of hs bo p] assms(2) s by (simp add: nth_equalityI)
  moreover have "snd (serve bo p hs) = map (answer bo p) hs" using serve_answers [of hs bo p] assms s by simp
  ultimately show "serve bo p hs = (fst (serve bo p gs), map (answer bo p) hs)" by (simp add: prod_eq_iff)
  show "snd (serve bo p gs) = map (answer bo p) gs" using serve_answers [OF assms(2,3)] .
qed

end
