(* ===== verification/Threads.thy ===== *)
theory Threads
  imports Prelude
begin

text \<open>
  What the threaded programs share: the POSIX semaphores and mutexes they call, and two
  contracts of interleaved threads. \<open>sem_guard\<close> is a binary semaphore that guards a section of
  the code: from the way single steps move the semaphore and the section it gives mutual
  exclusion. \<open>owicki_gries\<close> is the proof rule for threads with one assertion per thread: each
  step keeps the shared invariant and the assertion of its own thread, and does not interfere
  with the assertions of the others.
\<close>

subsection \<open>Semaphores and mutexes\<close>

text \<open>
  \<open>None\<close>: the caller blocks. \<open>sem_post\<close> fails with \<open>EOVERFLOW\<close> at \<open>SEM_VALUE_MAX\<close> and leaves the semaphore
  alone; no caller looks at the result. \<open>sem_timedwait\<close> gets an absolute time; when the semaphore is 0 it
  blocks until the clock has reached that time and then returns an error, which \<open>v\<close> unchanged stands
  for. A mutex holds the number of the thread that owns it.
\<close>

definition SEM_VALUE_MAX :: nat where "SEM_VALUE_MAX = 2147483647"

definition sem_wait :: "nat \<Rightarrow> nat option" where
  "sem_wait v = (if 0 < v then Some (v - 1) else None)"

definition sem_post :: "nat \<Rightarrow> nat" where
  "sem_post v = (if v < SEM_VALUE_MAX then v + 1 else v)"

definition sem_timedwait :: "nat \<Rightarrow> nat \<Rightarrow> nat \<Rightarrow> nat option" where
  "sem_timedwait now abstime v =
     (case sem_wait v of Some w \<Rightarrow> Some w | None \<Rightarrow> if abstime \<le> now then Some v else None)"

type_synonym mutex = "nat option"

definition mutex_lock :: "nat \<Rightarrow> mutex \<Rightarrow> mutex option" where
  "mutex_lock t m = (if m = None then Some (Some t) else None)"

lemma sem_wait_Some [simp]: "sem_wait v = Some w \<longleftrightarrow> 0 < v \<and> w = v - 1"
  by (auto simp: sem_wait_def)

lemma sem_wait_None [simp]: "sem_wait v = None \<longleftrightarrow> v = 0"
  by (auto simp: sem_wait_def)

lemma sem_post_code [code]: "sem_post v = (if int v < 2147483647 then v + 1 else v)"
proof -
  have "int v < 2147483647 \<longleftrightarrow> v < 2147483647" by (metis of_nat_less_iff of_nat_numeral)
  then show ?thesis by (simp add: sem_post_def SEM_VALUE_MAX_def)
qed

lemma sem_post_binary: "v \<le> 1 \<Longrightarrow> sem_post v = v + 1"
  by (simp add: sem_post_def SEM_VALUE_MAX_def)

lemma sem_post_pos [simp]: "0 < sem_post v"
  by (simp add: sem_post_def SEM_VALUE_MAX_def)

lemma mutex_lock_Some [simp]: "mutex_lock t m = Some m' \<longleftrightarrow> m = None \<and> m' = Some t"
  by (auto simp: mutex_lock_def)

lemma mutex_lock_None [simp]: "mutex_lock t m = None \<longleftrightarrow> m \<noteq> None"
  by (auto simp: mutex_lock_def)

subsection \<open>Counting threads\<close>

lemma count_split:
  fixes n :: nat
  assumes "i < n"
  shows "(\<Sum>j < n. f j) = f i + (\<Sum>j \<in> {..<n} - {i}. f j :: nat)"
  using assms by (subst sum.remove [of _ i]) auto

lemma count_change:
  fixes n :: nat
  assumes "i < n" and "\<And>j. j \<noteq> i \<Longrightarrow> g j = f j"
  shows "(\<Sum>j < n. g j) + f i = (\<Sum>j < n. f j) + (g i :: nat)"
proof -
  have "(\<Sum>j \<in> {..<n} - {i}. g j) = (\<Sum>j \<in> {..<n} - {i}. f j)"
    using assms(2) by (intro sum.cong) auto
  then show ?thesis using count_split [OF assms(1), of f] count_split [OF assms(1), of g] by simp
qed

lemma count_unique:
  fixes n :: nat
  assumes "(\<Sum>j < n. of_bool (P j) :: nat) \<le> 1" and "i < n" "j < n" "P i" "P j"
  shows "i = j"
proof (rule ccontr)
  assume "i \<noteq> j"
  then have "(\<Sum>k \<in> {i, j}. of_bool (P k) :: nat) = 2" using assms(4,5) by simp
  moreover have "(\<Sum>k \<in> {i, j}. of_bool (P k) :: nat) \<le> (\<Sum>k < n. of_bool (P k))"
    using assms(2,3) by (intro sum_mono2) auto
  ultimately show False using assms(1) by simp
qed

lemma count_pos:
  fixes n :: nat
  assumes "0 < (\<Sum>j < n. of_bool (P j) :: nat)" shows "\<exists>j < n. P j"
proof (rule ccontr)
  assume "\<not> ?thesis"
  then have "(\<Sum>j < n. of_bool (P j) :: nat) = 0" by simp
  with assms show False by simp
qed

subsection \<open>A semaphore that guards a section\<close>

definition interleave :: "nat \<Rightarrow> (nat \<Rightarrow> 's \<Rightarrow> 's \<Rightarrow> bool) \<Rightarrow> 's \<Rightarrow> 's \<Rightarrow> bool" where
  "interleave n step s t \<longleftrightarrow> (\<exists>i < n. step i s t)"

locale sem_guard =
  fixes n :: nat and init :: "'s \<Rightarrow> bool" and step :: "nat \<Rightarrow> 's \<Rightarrow> 's \<Rightarrow> bool"
    and sem :: "'s \<Rightarrow> nat" and inside :: "'s \<Rightarrow> nat \<Rightarrow> bool"
  assumes init_free: "init s \<Longrightarrow> sem s = 1"
    and init_outside: "init s \<Longrightarrow> \<not> inside s i"
    and others_stay: "step i s t \<Longrightarrow> j \<noteq> i \<Longrightarrow> inside t j = inside s j"
    and balanced: "step i s t \<Longrightarrow> sem s \<le> 1 \<Longrightarrow> sem t + of_bool (inside t i) = sem s + of_bool (inside s i)"
begin

lemma keeps_balance:
  assumes "i < n" and "step i s t" and "sem s + (\<Sum>j < n. of_bool (inside s j)) = 1"
  shows "sem t + (\<Sum>j < n. of_bool (inside t j)) = 1"
proof -
  have "(\<Sum>j < n. of_bool (inside t j)) + of_bool (inside s i) =
      (\<Sum>j < n. of_bool (inside s j)) + (of_bool (inside t i) :: nat)"
    using others_stay [OF assms(2)] by (intro count_change [OF assms(1)]) simp
  moreover have "sem s \<le> 1" using assms(3) by linarith
  ultimately show ?thesis using balanced [OF assms(2)] assms(3) by simp
qed

lemma balance_start: "init s \<Longrightarrow> sem s + (\<Sum>j < n. of_bool (inside s j)) = 1"
  by (simp add: init_free init_outside)

lemma held_or_free:
  assumes "reach init (interleave n step) s"
  shows "sem s + (\<Sum>j < n. of_bool (inside s j)) = 1"
  using assms
proof (induction rule: reach.induct)
  case (reach_step s t)
  then show ?case unfolding interleave_def by (blast intro: keeps_balance)
qed (rule balance_start)

lemma exclusive:
  assumes "reach init (interleave n step) s" and "i < n" "j < n" "inside s i" "inside s j"
  shows "i = j"
proof -
  have "(\<Sum>k < n. of_bool (inside s k) :: nat) \<le> 1" using held_or_free [OF assms(1)] by simp
  then show ?thesis using assms(2-5) by (rule count_unique)
qed

lemma holder:
  assumes "reach init (interleave n step) s" and "sem s = 0"
  shows "\<exists>j < n. inside s j"
  using held_or_free [OF assms(1)] assms(2) by (intro count_pos) simp

lemma sem_le_1: "reach init (interleave n step) s \<Longrightarrow> sem s \<le> 1"
  using held_or_free by fastforce

end

subsection \<open>Assertions per thread\<close>

locale owicki_gries =
  fixes n :: nat and init :: "'s \<Rightarrow> bool" and step :: "nat \<Rightarrow> 's \<Rightarrow> 's \<Rightarrow> bool"
    and shared :: "'s \<Rightarrow> bool" and asrt :: "nat \<Rightarrow> 's \<Rightarrow> bool"
  assumes init_shared: "init s \<Longrightarrow> shared s"
    and init_asrt: "init s \<Longrightarrow> i < n \<Longrightarrow> asrt i s"
    and keeps_shared: "shared s \<Longrightarrow> i < n \<Longrightarrow> asrt i s \<Longrightarrow> step i s t \<Longrightarrow> shared t"
    and keeps_own: "shared s \<Longrightarrow> i < n \<Longrightarrow> asrt i s \<Longrightarrow> step i s t \<Longrightarrow> asrt i t"
    and interference_free: "shared s \<Longrightarrow> i < n \<Longrightarrow> j < n \<Longrightarrow> i \<noteq> j \<Longrightarrow>
      asrt i s \<Longrightarrow> asrt j s \<Longrightarrow> step i s t \<Longrightarrow> asrt j t"

sublocale owicki_gries \<subseteq>
  program: invariant_system init "interleave n step" "\<lambda>s. shared s \<and> (\<forall>i < n. asrt i s)"
proof
  fix s show "init s \<Longrightarrow> shared s \<and> (\<forall>i < n. asrt i s)"
    using init_shared init_asrt by blast
next
  fix s t assume s: "shared s \<and> (\<forall>i < n. asrt i s)" and "interleave n step s t"
  then obtain i where i: "i < n" "step i s t" by (auto simp: interleave_def)
  have "asrt j t" if "j < n" for j
    using s i that keeps_own interference_free by (cases "j = i") blast+
  then show "shared t \<and> (\<forall>i < n. asrt i t)" using s i keeps_shared by blast
qed

end
