(* ===== verification/Philosopher.thy ===== *)
theory Philosopher
  imports Threads
begin

text \<open>
  The dining philosophers, \<open>recitations/philosopher.c\<close>, for \<open>n\<close> philosophers (the program has 4). A
  step is one semaphore operation of one thread; \<open>sem_wait\<close> can step only when the semaphore is
  positive. The semaphores \<open>forks\<close> start at 1 and \<open>lock\<close> at \<open>n - 1\<close>.
\<close>

subsection \<open>The threads\<close>

text \<open>Where a thread of \<open>phil\<close> is: before line 81, 82, 83, 87, 88, 89, or past the loop.\<close>

datatype phil_pc = Think | Wait_left | Wait_right | Eat | Put_right | Leave | Finished

record table =
  t_lock :: nat
  t_forks :: "nat \<Rightarrow> nat"
  t_pc :: "nat \<Rightarrow> phil_pc"
  t_round :: "nat \<Rightarrow> nat"

definition phil_init :: "nat \<Rightarrow> table" where
  "phil_init n = \<lparr>t_lock = n - 1, t_forks = (\<lambda>_. 1), t_pc = (\<lambda>_. Think), t_round = (\<lambda>_. 0)\<rparr>"

definition next_fork :: "nat \<Rightarrow> nat \<Rightarrow> nat" where
  "next_fork n i = (i + 1) mod n"

definition go :: "nat \<Rightarrow> phil_pc \<Rightarrow> table \<Rightarrow> table" where
  "go i p s = s\<lparr>t_pc := (t_pc s)(i := p)\<rparr>"

definition fork_post :: "nat \<Rightarrow> table \<Rightarrow> table" where
  "fork_post f s = s\<lparr>t_forks := (t_forks s)(f := t_forks s f + 1)\<rparr>"

text \<open>\<open>sem_wait\<close> on a fork: \<open>None\<close> while it is 0.\<close>

definition fork_wait :: "nat \<Rightarrow> table \<Rightarrow> table option" where
  "fork_wait f s =
     (if t_forks s f > 0 then Some (s\<lparr>t_forks := (t_forks s)(f := t_forks s f - 1)\<rparr>) else None)"

definition phil :: "nat \<Rightarrow> nat \<Rightarrow> table \<Rightarrow> table option" where
  "phil n i s =
     (case t_pc s i of
        Think \<Rightarrow>
          if t_round s i < 3
          then (if t_lock s > 0 then Some (go i Wait_left (s\<lparr>t_lock := t_lock s - 1\<rparr>)) else None)
          else Some (go i Finished s)
      | Wait_left \<Rightarrow> map_option (go i Wait_right) (fork_wait i s)
      | Wait_right \<Rightarrow> map_option (go i Eat) (fork_wait (next_fork n i) s)
      | Eat \<Rightarrow> Some (go i Put_right (fork_post i s))
      | Put_right \<Rightarrow> Some (go i Leave (fork_post (next_fork n i) s))
      | Leave \<Rightarrow> Some (go i Think (s\<lparr>t_lock := t_lock s + 1, t_round := (t_round s)(i := t_round s i + 1)\<rparr>))
      | Finished \<Rightarrow> None)"

inductive phil_step :: "nat \<Rightarrow> table \<Rightarrow> table \<Rightarrow> bool" for n :: nat where
  phil_run: "i < n \<Longrightarrow> phil n i s = Some s' \<Longrightarrow> phil_step n s s'"

inductive_simps phil_step_iff: "phil_step n s s'"

subsection \<open>Invariant\<close>

definition seated :: "phil_pc \<Rightarrow> bool" where
  "seated p \<longleftrightarrow> p \<in> {Wait_left, Wait_right, Eat, Put_right, Leave}"

definition has_left :: "phil_pc \<Rightarrow> bool" where
  "has_left p \<longleftrightarrow> p \<in> {Wait_right, Eat}"

definition has_right :: "phil_pc \<Rightarrow> bool" where
  "has_right p \<longleftrightarrow> p \<in> {Eat, Put_right}"

definition prev_fork :: "nat \<Rightarrow> nat \<Rightarrow> nat" where
  "prev_fork n i = (i + n - 1) mod n"

text \<open>A fork is on the table, or in the hand of one of its two neighbours.\<close>

definition fork_sum :: "nat \<Rightarrow> table \<Rightarrow> nat \<Rightarrow> nat" where
  "fork_sum n s f =
     t_forks s f + of_bool (has_left (t_pc s f)) + of_bool (has_right (t_pc s (prev_fork n f)))"

definition round_ok :: "phil_pc \<Rightarrow> nat \<Rightarrow> bool" where
  "round_ok p k \<longleftrightarrow> (if seated p then k < 3 else if p = Finished then k = 3 else k \<le> 3)"

definition phil_inv :: "nat \<Rightarrow> table \<Rightarrow> bool" where
  "phil_inv n s \<longleftrightarrow>
     t_lock s + (\<Sum>i < n. of_bool (seated (t_pc s i))) = n - 1 \<and>
     (\<forall>f < n. fork_sum n s f = 1) \<and> (\<forall>i < n. round_ok (t_pc s i) (t_round s i))"

named_theorems phil_defs
declare seated_def [phil_defs] and has_left_def [phil_defs] and has_right_def [phil_defs]
  and go_def [phil_defs] and fork_post_def [phil_defs] and fork_wait_def [phil_defs]

lemma ring:
  assumes "1 < n" and "i < n"
  shows "next_fork n i < n" and "prev_fork n i < n" and "next_fork n i \<noteq> i"
    and "prev_fork n (next_fork n i) = i" and "next_fork n (prev_fork n i) = i" and "prev_fork n i \<noteq> i"
proof -
  have "next_fork n i = (if i = n - 1 then 0 else i + 1)" "prev_fork n i = (if i = 0 then n - 1 else i - 1)"
    "\<And>j. j < n \<Longrightarrow> prev_fork n j = (if j = 0 then n - 1 else j - 1)"
    "\<And>j. j < n \<Longrightarrow> next_fork n j = (if j = n - 1 then 0 else j + 1)"
    using assms by (auto simp: next_fork_def prev_fork_def mod_if)
  then show "next_fork n i < n" "prev_fork n i < n" "next_fork n i \<noteq> i"
    "prev_fork n (next_fork n i) = i" "next_fork n (prev_fork n i) = i" "prev_fork n i \<noteq> i"
    using assms by auto
qed

lemma phil_cases:
  assumes "phil n i s = Some s'"
  obtains
    (sit) "t_pc s i = Think" "t_round s i < 3" "0 < t_lock s" "s' = go i Wait_left (s\<lparr>t_lock := t_lock s - 1\<rparr>)"
  | (finish) "t_pc s i = Think" "\<not> t_round s i < 3" "s' = go i Finished s"
  | (left) "t_pc s i = Wait_left" "0 < t_forks s i" "s' = go i Wait_right (s\<lparr>t_forks := (t_forks s)(i := t_forks s i - 1)\<rparr>)"
  | (right) "t_pc s i = Wait_right" "0 < t_forks s (next_fork n i)"
      "s' = go i Eat (s\<lparr>t_forks := (t_forks s)(next_fork n i := t_forks s (next_fork n i) - 1)\<rparr>)"
  | (put) "t_pc s i = Eat" "s' = go i Put_right (fork_post i s)"
  | (put_right) "t_pc s i = Put_right" "s' = go i Leave (fork_post (next_fork n i) s)"
  | (leave) "t_pc s i = Leave"
      "s' = go i Think (s\<lparr>t_lock := t_lock s + 1, t_round := (t_round s)(i := t_round s i + 1)\<rparr>)"
  using assms by (auto simp: phil_def fork_wait_def split: phil_pc.splits if_splits)

lemma seated_sum:
  assumes "i < n"
  shows "(\<Sum>j < n. of_bool (seated (((t_pc s)(i := p)) j))) + of_bool (seated (t_pc s i)) =
    (\<Sum>j < n. of_bool (seated (t_pc s j))) + (of_bool (seated p) :: nat)"
  using count_change [OF assms, of "\<lambda>j. of_bool (seated (((t_pc s)(i := p)) j))" "\<lambda>j. of_bool (seated (t_pc s j))"] by simp

lemma phil_keeps_forks:
  assumes n: "1 < n" and i: "i < n" and f: "f < n" and "phil n i s = Some s'"
  shows "fork_sum n s' f = fork_sum n s f"
proof -
  consider (own) "f = i" "prev_fork n f \<noteq> i" "next_fork n i \<noteq> f"
    | (next_one) "f = next_fork n i" "prev_fork n f = i" "f \<noteq> i"
    | (far) "f \<noteq> i" "f \<noteq> next_fork n i" "prev_fork n f \<noteq> i"
    using ring [OF n i] ring [OF n f] by metis
  then show ?thesis
  proof cases
    case own
    from assms(4) show ?thesis
      by (cases rule: phil_cases; insert own; simp add: fork_sum_def phil_defs)
  next
    case next_one
    from assms(4) show ?thesis
      by (cases rule: phil_cases; insert next_one(2,3); simp add: fork_sum_def phil_defs flip: next_one(1))
  next
    case far
    from assms(4) show ?thesis
      by (cases rule: phil_cases; insert far; simp add: fork_sum_def phil_defs)
  qed
qed

lemma phil_other:
  assumes "phil n i s = Some s'" and "j \<noteq> i" shows "t_pc s' j = t_pc s j \<and> t_round s' j = t_round s j"
  using assms(1) by (cases rule: phil_cases; insert assms(2); simp add: phil_defs)

lemma phil_round:
  assumes "phil n i s = Some s'" and "round_ok (t_pc s i) (t_round s i)"
  shows "round_ok (t_pc s' i) (t_round s' i)"
  using assms(1) by (cases rule: phil_cases; insert assms(2); simp add: round_ok_def phil_defs)

lemma phil_lock:
  assumes "phil n i s = Some s'" and "i < n"
  shows "t_lock s' + (\<Sum>j < n. of_bool (seated (t_pc s' j))) = t_lock s + (\<Sum>j < n. of_bool (seated (t_pc s j)))"
proof -
  from assms(1) have pc: "t_pc s' = (t_pc s)(i := t_pc s' i)" by (cases rule: phil_cases) (simp_all add: phil_defs)
  have "t_lock s' + of_bool (seated (t_pc s' i)) = t_lock s + of_bool (seated (t_pc s i))"
    using assms(1) by (cases rule: phil_cases) (simp_all add: phil_defs)
  then show ?thesis using seated_sum [OF assms(2), of s "t_pc s' i"] pc by simp
qed

lemma phil_inv_step:
  assumes n: "1 < n" and "phil_inv n s" and "phil_step n s s'" shows "phil_inv n s'"
proof -
  from assms(3) obtain i where i: "i < n" and s': "phil n i s = Some s'" by (auto simp: phil_step_iff)
  have "\<forall>f < n. fork_sum n s' f = 1" using phil_keeps_forks [OF n i _ s'] assms(2) by (simp add: phil_inv_def)
  moreover have "\<forall>j < n. round_ok (t_pc s' j) (t_round s' j)"
    using phil_other [OF s'] phil_round [OF s'] assms(2) unfolding phil_inv_def by metis
  moreover have "t_lock s' + (\<Sum>i < n. of_bool (seated (t_pc s' i))) = n - 1"
    using phil_lock [OF s' i] assms(2) by (simp add: phil_inv_def)
  ultimately show ?thesis by (simp add: phil_inv_def)
qed

lemma phil_inv_init:
  assumes "1 < n" shows "phil_inv n (phil_init n)"
  using assms by (auto simp: phil_inv_def phil_init_def fork_sum_def round_ok_def phil_defs)

interpretation phil_sys: invariant_system "\<lambda>s. 1 < n \<and> s = phil_init n" "\<lambda>s s'. 1 < n \<and> phil_step n s s'"
  "\<lambda>s. 1 < n \<and> phil_inv n s" for n
  by unfold_locales (auto intro: phil_inv_init phil_inv_step)

subsection \<open>No deadlock\<close>

text \<open>A blocked thread waits for a semaphore that is 0.\<close>

lemma phil_blocked:
  assumes "phil n i s = None"
  shows "t_pc s i = Think \<and> t_round s i < 3 \<and> t_lock s = 0 \<or> t_pc s i = Wait_left \<and> t_forks s i = 0 \<or>
    t_pc s i = Wait_right \<and> t_forks s (next_fork n i) = 0 \<or> t_pc s i = Finished"
  using assms by (auto simp: phil_def fork_wait_def split: phil_pc.splits if_splits)

lemma fork_sumD:
  assumes "phil_inv n s" and "f < n" and "t_forks s f = 0"
  shows "has_left (t_pc s f) \<or> has_right (t_pc s (prev_fork n f))"
proof -
  have "fork_sum n s f = 1" using assms by (simp add: phil_inv_def)
  then show ?thesis using assms(3) by (auto simp: fork_sum_def of_bool_def split: if_splits)
qed

lemma not_all_seated:
  assumes "phil_inv n s" and "1 < n" shows "\<exists>i < n. \<not> seated (t_pc s i)"
proof (rule ccontr)
  assume "\<not> ?thesis"
  then have "(\<Sum>i < n. of_bool (seated (t_pc s i))) = (\<Sum>i < n. (1 :: nat))" by (intro sum.cong) auto
  then have "t_lock s + n = n - 1" using assms(1) by (simp add: phil_inv_def)
  then show False using assms(2) by simp
qed

lemma ring_all:
  assumes "1 < n" and "i < n" and "P i" and step: "\<And>j. j < n \<Longrightarrow> P j \<Longrightarrow> P (next_fork n j)" and "k < n"
  shows "P k"
proof -
  have "P ((i + m) mod n)" for m
  proof (induction m)
    case 0
    then show ?case using assms(2,3) by simp
  next
    case (Suc m)
    have "next_fork n ((i + m) mod n) = (i + Suc m) mod n" by (simp add: next_fork_def mod_Suc_eq)
    then show ?case using step [OF _ Suc] assms(1) by simp
  qed
  from this [of "n - i + k"] show ?thesis using assms(2,5) by simp
qed

lemma phil_no_deadlock:
  assumes n: "1 < n" and inv: "phil_inv n s" and stuck: "\<And>i. i < n \<Longrightarrow> phil n i s = None" and i: "i < n"
  shows "t_pc s i = Finished \<and> t_round s i = 3"
proof -
  have no_right: "\<not> has_right (t_pc s j)" if "j < n" for j
    using phil_blocked [OF stuck [OF that]] by (auto simp: has_right_def)
  have wl: "t_pc s j \<noteq> Wait_left" if j: "j < n" for j
  proof
    assume pc: "t_pc s j = Wait_left"
    with phil_blocked [OF stuck [OF j]] have "t_forks s j = 0" by simp
    from fork_sumD [OF inv j this] no_right [OF ring(2) [OF n j]] pc show False by (simp add: has_left_def)
  qed
  have wr: "t_pc s (next_fork n j) = Wait_right" if j: "j < n" and pc: "t_pc s j = Wait_right" for j
  proof -
    note nj = ring(1) [OF n j]
    have "t_forks s (next_fork n j) = 0" using phil_blocked [OF stuck [OF j]] pc by simp
    from fork_sumD [OF inv nj this] have "has_left (t_pc s (next_fork n j))"
      using no_right [OF j] ring(4) [OF n j] by simp
    then show ?thesis using no_right [OF nj] by (auto simp: has_left_def has_right_def)
  qed
  have none: "t_pc s j \<noteq> Wait_right" if j: "j < n" for j
  proof
    assume "t_pc s j = Wait_right"
    then have "t_pc s k = Wait_right" if "k < n" for k
      using ring_all [OF n j, of "\<lambda>j. t_pc s j = Wait_right"] wr that by blast
    then show False using not_all_seated [OF inv n] by (auto simp: seated_def)
  qed
  have unseated: "\<not> seated (t_pc s j)" if "j < n" for j
    using phil_blocked [OF stuck [OF that]] wl [OF that] none [OF that] by (auto simp: seated_def)
  have "(\<Sum>i < n. of_bool (seated (t_pc s i))) = (0 :: nat)" using unseated by (intro sum.neutral) auto
  then have "0 < t_lock s" using inv n by (simp add: phil_inv_def)
  then have "t_pc s i = Finished" using phil_blocked [OF stuck [OF i]] wl [OF i] none [OF i] by auto
  moreover have "round_ok (t_pc s i) (t_round s i)" using inv i by (simp add: phil_inv_def)
  ultimately show ?thesis by (simp add: round_ok_def seated_def)
qed

subsection \<open>Every run ends\<close>

text \<open>The steps a thread has left: six per round, and the last one.\<close>

fun pc_left :: "phil_pc \<Rightarrow> nat" where
  "pc_left Think = 7"
| "pc_left Wait_left = 6"
| "pc_left Wait_right = 5"
| "pc_left Eat = 4"
| "pc_left Put_right = 3"
| "pc_left Leave = 2"
| "pc_left Finished = 6"

definition steps_left :: "nat \<Rightarrow> table \<Rightarrow> nat" where
  "steps_left n s = (\<Sum>i < n. 6 * (3 - t_round s i) + pc_left (t_pc s i) - 6)"

lemma phil_steps_left:
  assumes "phil_inv n s" and "phil_step n s s'" shows "steps_left n s = Suc (steps_left n s')"
proof -
  from assms(2) obtain i where i: "i < n" and s': "phil n i s = Some s'" by (auto simp: phil_step_iff)
  let ?w = "\<lambda>s j. 6 * (3 - t_round s j) + pc_left (t_pc s j) - 6"
  have ri: "round_ok (t_pc s i) (t_round s i)" using assms(1) i by (simp add: phil_inv_def)
  have "?w s i = Suc (?w s' i)"
    using s' by (cases rule: phil_cases; insert ri; simp add: round_ok_def phil_defs)
  moreover have "(\<Sum>j \<in> {..<n} - {i}. ?w s' j) = (\<Sum>j \<in> {..<n} - {i}. ?w s j)"
    using phil_other [OF s'] by (intro sum.cong) auto
  ultimately show ?thesis
    using i sum.remove [of "{..<n}" i "?w s"] sum.remove [of "{..<n}" i "?w s'"] by (simp add: steps_left_def)
qed

lemma steps_left_init: "steps_left n (phil_init n) = 19 * n"
  by (simp add: steps_left_def phil_init_def)

subsection \<open>Properties\<close>

text \<open>Runs of \<open>k\<close> steps reach consistent states.\<close>

lemma phil_runs:
  assumes n: "1 < n" and "(phil_step n ^^ k) (phil_init n) s"
  shows "phil_inv n s" and "k + steps_left n s = 19 * n"
proof -
  from assms(2) have "reach (\<lambda>s. 1 < n \<and> s = phil_init n) (\<lambda>s s'. 1 < n \<and> phil_step n s s') s \<and>
      k + steps_left n s = 19 * n"
  proof (induction k arbitrary: s)
    case 0
    then show ?case using n by (auto intro: reach_init simp: steps_left_init)
  next
    case (Suc k)
    from Suc.prems obtain t where t: "(phil_step n ^^ k) (phil_init n) t" "phil_step n t s" by auto
    with Suc.IH have r: "reach (\<lambda>s. 1 < n \<and> s = phil_init n) (\<lambda>s s'. 1 < n \<and> phil_step n s s') t"
      and l: "k + steps_left n t = 19 * n" by blast+
    from phil_sys.reach_inv [OF r] have "phil_inv n t" by simp
    from phil_steps_left [OF this t(2)] l have "Suc k + steps_left n s = 19 * n" by simp
    then show ?case using reach_step [OF r, of s] t(2) n by blast
  qed
  then show "k + steps_left n s = 19 * n" "phil_inv n s" using phil_sys.reach_inv [of n s] by blast+
qed

text \<open>
  C20: Neighbours exclude each other. In every state the threads can reach, each fork is held by at
  most one of its two philosophers and its semaphore is 1 exactly when nobody holds it; so two
  neighbours never eat at the same time.
\<close>

theorem phil_mutual_exclusion:
  assumes "1 < n" and "(phil_step n ^^ k) (phil_init n) s" and "i < n"
  shows "\<not> (has_right (t_pc s i) \<and> has_left (t_pc s (next_fork n i))) \<and>
    (t_forks s (next_fork n i) = 1 \<longleftrightarrow> \<not> has_right (t_pc s i) \<and> \<not> has_left (t_pc s (next_fork n i))) \<and>
    \<not> (t_pc s i = Eat \<and> t_pc s (next_fork n i) = Eat)"
proof -
  from phil_runs(1) [OF assms(1,2)] ring(1) [OF assms(1,3)] have "fork_sum n s (next_fork n i) = 1"
    by (simp add: phil_inv_def)
  then have *: "t_forks s (next_fork n i) + of_bool (has_left (t_pc s (next_fork n i))) + of_bool (has_right (t_pc s i)) = 1"
    using ring(4) [OF assms(1,3)] by (simp add: fork_sum_def)
  then show ?thesis
    by (cases "has_left (t_pc s (next_fork n i))"; cases "has_right (t_pc s i)") (auto simp: has_left_def has_right_def)
qed

theorem phil_mutual_exclusion_witness:
  "\<exists>s. (phil_step 4 ^^ 1) (phil_init 4) s \<and> \<not> (t_pc s 0 = Eat \<and> t_pc s (next_fork 4 0) = Eat)"
proof -
  have "phil 4 0 (phil_init 4) = Some (go 0 Wait_left ((phil_init 4)\<lparr>t_lock := 2\<rparr>))"
    by (simp add: phil_def phil_init_def)
  then have "phil_step 4 (phil_init 4) (go 0 Wait_left ((phil_init 4)\<lparr>t_lock := 2\<rparr>))"
    by (intro phil_run [of 0]) simp_all
  then have r: "(phil_step 4 ^^ 1) (phil_init 4) (go 0 Wait_left ((phil_init 4)\<lparr>t_lock := 2\<rparr>))"
    by (simp only: relpowp_1)
  from phil_mutual_exclusion [OF _ r, of 0] r show ?thesis by auto
qed

text \<open>
  C19: No deadlock, and termination. Whatever the scheduler does, no run has more than \<open>19 * n\<close> steps, a
  shorter run can always go on, and after \<open>19 * n\<close> steps every philosopher has eaten three times
  and finished.
\<close>

theorem phil_terminates:
  assumes "1 < n" and "(phil_step n ^^ k) (phil_init n) s"
  shows "k \<le> 19 * n \<and> (k < 19 * n \<longleftrightarrow> (\<exists>s'. phil_step n s s')) \<and>
    (k = 19 * n \<longrightarrow> (\<forall>i < n. t_pc s i = Finished \<and> t_round s i = 3))"
proof -
  note r = phil_runs [OF assms]
  have fin: "t_pc s i = Finished \<and> t_round s i = 3" if "\<nexists>s'. phil_step n s s'" "i < n" for i
  proof (rule phil_no_deadlock [OF assms(1) r(1) _ that(2)])
    fix j assume "j < n"
    then show "phil n j s = None" using that(1) phil_run [of j n s] by (cases "phil n j s") auto
  qed
  have "(\<exists>s'. phil_step n s s') \<longleftrightarrow> 0 < steps_left n s"
  proof
    show "\<exists>s'. phil_step n s s' \<Longrightarrow> 0 < steps_left n s" using phil_steps_left [OF r(1)] by auto
    show "\<exists>s'. phil_step n s s'" if "0 < steps_left n s"
    proof (rule ccontr)
      assume "\<nexists>s'. phil_step n s s'"
      from fin [OF this] have "steps_left n s = 0" by (simp add: steps_left_def)
      with that show False by simp
    qed
  qed
  then show ?thesis using r(2) fin by auto
qed

theorem phil_terminates_witness: "\<exists>s'. phil_step 4 (phil_init 4) s'"
  using phil_terminates [of 4 0 "phil_init 4"] by simp

end
