(* ===== verification/Search_List.thy ===== *)
theory Search_List
  imports Threads
begin

text \<open>
  The shared list of \<open>recitations/concurrency3.c\<close> with its searcher, inserter and deleter threads.
  The heap maps addresses to nodes, a freed address is unmapped, and a pointer is an address or
  \<open>NULL\<close> (\<open>None\<close>). A step of a thread is one semaphore call, one test of a branch or loop with the
  reads it needs, or one update of the list together with the \<open>free\<close> that goes with it. A step
  gives \<open>None\<close> when the thread blocks and \<open>Inl Wild\<close> when it dereferences \<open>NULL\<close> or freed memory.
  \<open>printf\<close> appends to the output \<open>l_out\<close>; \<open>sleep\<close> takes no step.
\<close>

subsection \<open>State\<close>

record node =
  n_data :: int
  n_next :: "nat option"

type_synonym heap = "nat \<Rightarrow> node option"

text \<open>Where a thread is. The names give the function and the statement that comes next.\<close>

datatype lpc =
    Create_new | Create_wait_ni | Create_wait_in | Create_test | Create_first | Create_walk
  | Create_link | Create_report | Create_print | Create_post_in | Create_post_ni
  | Find_read | Find_wait | Find_loop | Find_post
  | Remov_read | Remov_wait_ns | Remov_wait_ni | Remov_test | Remov_loop | Remov_report
  | Remov_print | Remov_post_ns | Remov_post_ni

record lthread =
  th_pc :: lpc
  th_val :: int
  th_cur :: "nat option"
  th_prev :: "nat option"
  th_new :: "nat option"

datatype event = Inserting nat int | Deleting nat int | Searching nat int | Found nat int | Shown int | Newline

record list_sys =
  l_heap :: heap
  l_head :: "nat option"
  l_tail :: "nat option"
  l_no_searcher :: nat
  l_no_inserter :: nat
  l_inserter :: nat
  l_thr :: "nat \<Rightarrow> lthread"
  l_out :: "event list"

type_synonym 's outcome = "'s result option"

subsection \<open>Operations\<close>

text \<open>\<open>rand() % 10 + 1\<close>; \<open>r\<close> is what \<open>rand\<close> returns.\<close>

definition random_gen10 :: "int \<Rightarrow> int" where
  "random_gen10 r = r mod 10 + 1"

definition upd :: "nat \<Rightarrow> (lthread \<Rightarrow> lthread) \<Rightarrow> list_sys \<Rightarrow> list_sys" where
  "upd i f s = s\<lparr>l_thr := (l_thr s)(i := f (l_thr s i))\<rparr>"

definition goto :: "nat \<Rightarrow> lpc \<Rightarrow> list_sys \<Rightarrow> list_sys" where
  "goto i p = upd i (\<lambda>t. t\<lparr>th_pc := p\<rparr>)"

definition say :: "event \<Rightarrow> list_sys \<Rightarrow> list_sys" where
  "say e s = s\<lparr>l_out := l_out s @ [e]\<rparr>"

definition deref :: "heap \<Rightarrow> nat option \<Rightarrow> node result" where
  "deref h p = (case p of None \<Rightarrow> Inl Wild | Some a \<Rightarrow> (case h a of None \<Rightarrow> Inl Wild | Some n \<Rightarrow> Inr n))"

definition with_node :: "list_sys \<Rightarrow> nat option \<Rightarrow> (nat \<Rightarrow> node \<Rightarrow> list_sys result) \<Rightarrow> list_sys outcome" where
  "with_node s p f = Some (case deref (l_heap s) p of Inl e \<Rightarrow> Inl e | Inr n \<Rightarrow> f (the p) n)"

text \<open>One round of the loop of \<open>print_list\<close>, then on to \<open>next_pc\<close>.\<close>

definition print_list :: "nat \<Rightarrow> lpc \<Rightarrow> list_sys \<Rightarrow> list_sys outcome" where
  "print_list i next_pc s =
     (case th_cur (l_thr s i) of
        None \<Rightarrow> Some (Inr (goto i next_pc (say Newline s)))
      | Some c \<Rightarrow> with_node s (Some c)
          (\<lambda>_ n. Inr (upd i (\<lambda>t. t\<lparr>th_cur := n_next n\<rparr>) (say (Shown (n_data n)) s))))"

text \<open>\<open>create\<close>, the body of \<open>inserter\<close>; \<open>a\<close> is what \<open>malloc\<close> returns.\<close>

definition create :: "nat \<Rightarrow> int \<Rightarrow> nat option \<Rightarrow> list_sys \<Rightarrow> list_sys outcome" where
  "create i r a s =
     (let t = l_thr s i in
      case th_pc t of
        Create_new \<Rightarrow> Some (case a of None \<Rightarrow> Inl Wild | Some p \<Rightarrow>
          Inr (upd i (\<lambda>t. t\<lparr>th_new := Some p, th_val := random_gen10 r, th_pc := Create_wait_ni\<rparr>)
            (s\<lparr>l_heap := (l_heap s)(p \<mapsto> \<lparr>n_data = random_gen10 r, n_next = None\<rparr>)\<rparr>)))
      | Create_wait_ni \<Rightarrow>
          map_option (\<lambda>v. Inr (goto i Create_wait_in (s\<lparr>l_no_inserter := v\<rparr>))) (sem_wait (l_no_inserter s))
      | Create_wait_in \<Rightarrow>
          map_option (\<lambda>v. Inr (goto i Create_test (s\<lparr>l_inserter := v\<rparr>))) (sem_wait (l_inserter s))
      | Create_test \<Rightarrow> Some (Inr
          (if l_head s = None then goto i Create_first s
           else upd i (\<lambda>t. t\<lparr>th_cur := l_head s, th_pc := Create_walk\<rparr>) s))
      | Create_first \<Rightarrow> Some (Inr (goto i Create_report (s\<lparr>l_head := th_new t\<rparr>)))
      | Create_walk \<Rightarrow> with_node s (th_cur t) (\<lambda>_ n. Inr
          (if n_next n \<noteq> None then upd i (\<lambda>t. t\<lparr>th_cur := n_next n\<rparr>) s else goto i Create_link s))
      | Create_link \<Rightarrow> with_node s (th_cur t) (\<lambda>c n. Inr
          (goto i Create_report (s\<lparr>l_heap := (l_heap s)(c \<mapsto> n\<lparr>n_next := th_new t\<rparr>)\<rparr>)))
      | Create_report \<Rightarrow> Some (Inr
          (upd i (\<lambda>t. t\<lparr>th_cur := l_head s, th_pc := Create_print\<rparr>) (say (Inserting (i + 1) (th_val t)) s)))
      | Create_print \<Rightarrow> print_list i Create_post_in s
      | Create_post_in \<Rightarrow> Some (Inr (goto i Create_post_ni (s\<lparr>l_inserter := sem_post (l_inserter s)\<rparr>)))
      | Create_post_ni \<Rightarrow> Some (Inr (goto i Create_new (s\<lparr>l_no_inserter := sem_post (l_no_inserter s)\<rparr>)))
      | _ \<Rightarrow> None)"

text \<open>\<open>find\<close>, the body of \<open>searcher\<close>; the local \<open>tmp\<close> is \<open>th_cur\<close>.\<close>

definition find_list :: "nat \<Rightarrow> int \<Rightarrow> list_sys \<Rightarrow> list_sys outcome" where
  "find_list i r s =
     (let t = l_thr s i in
      case th_pc t of
        Find_read \<Rightarrow> Some (Inr
          (upd i (\<lambda>t. t\<lparr>th_cur := l_head s, th_val := random_gen10 r, th_pc := Find_wait\<rparr>) s))
      | Find_wait \<Rightarrow>
          map_option (\<lambda>v. Inr (goto i Find_loop (say (Searching (i + 1) (th_val t)) (s\<lparr>l_no_searcher := v\<rparr>))))
            (sem_wait (l_no_searcher s))
      | Find_loop \<Rightarrow>
          (if th_cur t = None then Some (Inr (goto i Find_post s))
           else with_node s (th_cur t) (\<lambda>_ n. Inr
             (if n_data n = th_val t then goto i Find_post (say (Found (i + 1) (th_val t)) s)
              else upd i (\<lambda>t. t\<lparr>th_cur := n_next n\<rparr>) s)))
      | Find_post \<Rightarrow> Some (Inr (goto i Find_read (s\<lparr>l_no_searcher := sem_post (l_no_searcher s)\<rparr>)))
      | _ \<Rightarrow> None)"

text \<open>\<open>prev->next = cur->next\<close>, the update of \<open>tail\<close>, and \<open>free(cur)\<close>, for the node \<open>n\<close> at \<open>c\<close>.\<close>

definition unlink :: "nat option \<Rightarrow> nat \<Rightarrow> node \<Rightarrow> list_sys \<Rightarrow> list_sys result" where
  "unlink prev c n s =
     (case deref (l_heap s) prev of
        Inl e \<Rightarrow> Inl e
      | Inr m \<Rightarrow> Inr (s\<lparr>l_heap := ((l_heap s)(the prev \<mapsto> m\<lparr>n_next := n_next n\<rparr>))(c := None),
                         l_tail := (if l_tail s = Some c then prev else l_tail s)\<rparr>))"

text \<open>\<open>remov\<close>, the body of \<open>deleter\<close>.\<close>

definition remov :: "nat \<Rightarrow> int \<Rightarrow> list_sys \<Rightarrow> list_sys outcome" where
  "remov i r s =
     (let t = l_thr s i in
      case th_pc t of
        Remov_read \<Rightarrow> Some (Inr
          (upd i (\<lambda>t. t\<lparr>th_val := random_gen10 r, th_prev := l_head s, th_cur := l_head s, th_pc := Remov_wait_ns\<rparr>) s))
      | Remov_wait_ns \<Rightarrow>
          map_option (\<lambda>v. Inr (goto i Remov_wait_ni (s\<lparr>l_no_searcher := v\<rparr>))) (sem_wait (l_no_searcher s))
      | Remov_wait_ni \<Rightarrow>
          map_option (\<lambda>v. Inr (goto i Remov_test (s\<lparr>l_no_inserter := v\<rparr>))) (sem_wait (l_no_inserter s))
      | Remov_test \<Rightarrow>
          (if l_head s = None then Some (Inr (goto i Remov_loop s))
           else with_node s (l_head s) (\<lambda>p n. Inr
             (if n_data n = th_val t
              then goto i Remov_report (s\<lparr>l_heap := (l_heap s)(p := None), l_head := n_next n\<rparr>)
              else goto i Remov_loop s)))
      | Remov_loop \<Rightarrow>
          (if th_cur t = None then Some (Inr (goto i Remov_post_ns s))
           else with_node s (th_cur t) (\<lambda>c n.
             if n_data n = th_val t then map_sum id (goto i Remov_report) (unlink (th_prev t) c n s)
             else Inr (upd i (\<lambda>t. t\<lparr>th_prev := th_cur t, th_cur := n_next n\<rparr>) s)))
      | Remov_report \<Rightarrow> Some (Inr
          (upd i (\<lambda>t. t\<lparr>th_cur := l_head s, th_pc := Remov_print\<rparr>) (say (Deleting (i + 1) (th_val t)) s)))
      | Remov_print \<Rightarrow> print_list i Remov_post_ns s
      | Remov_post_ns \<Rightarrow> Some (Inr (goto i Remov_post_ni (s\<lparr>l_no_searcher := sem_post (l_no_searcher s)\<rparr>)))
      | Remov_post_ni \<Rightarrow> Some (Inr (goto i Remov_read (s\<lparr>l_no_inserter := sem_post (l_no_inserter s)\<rparr>)))
      | _ \<Rightarrow> None)"

subsection \<open>Threads\<close>

text \<open>What a thread runs: \<open>inserter\<close>, \<open>searcher\<close> or \<open>deleter\<close>, each an endless loop over its operation.\<close>

datatype lkind = Inserter | Searcher | Deleter

primrec start_pc :: "lkind \<Rightarrow> lpc" where
  "start_pc Inserter = Create_new"
| "start_pc Searcher = Find_read"
| "start_pc Deleter = Remov_read"

definition thread :: "(nat \<Rightarrow> lkind) \<Rightarrow> nat \<Rightarrow> int \<Rightarrow> nat option \<Rightarrow> list_sys \<Rightarrow> list_sys outcome" where
  "thread kind i r a s =
     (case kind i of Inserter \<Rightarrow> create i r a s | Searcher \<Rightarrow> find_list i r s | Deleter \<Rightarrow> remov i r s)"

text \<open>\<open>initialize\<close>, with every thread at its start.\<close>

definition initialize :: "(nat \<Rightarrow> lkind) \<Rightarrow> list_sys" where
  "initialize kind = \<lparr>l_heap = (\<lambda>_. None), l_head = None, l_tail = None, l_no_searcher = 1, l_no_inserter = 1,
     l_inserter = 1, l_thr = (\<lambda>i. \<lparr>th_pc = start_pc (kind i), th_val = 0, th_cur = None, th_prev = None, th_new = None\<rparr>),
     l_out = []\<rparr>"

text \<open>\<open>main\<close> starts six threads: two inserters, two searchers, two deleters.\<close>

definition main_kind :: "nat \<Rightarrow> lkind" where
  "main_kind i = (if i < 2 then Inserter else if i < 4 then Searcher else Deleter)"

definition main_threads :: nat where
  "main_threads = 6"

text \<open>\<open>rand\<close> returns a nonnegative number and \<open>malloc\<close> an address that is not in use, or \<open>NULL\<close>.\<close>

definition inputs :: "list_sys \<Rightarrow> int \<Rightarrow> nat option \<Rightarrow> bool" where
  "inputs s r a \<longleftrightarrow> 0 \<le> r \<and> (case a of None \<Rightarrow> True | Some p \<Rightarrow> l_heap s p = None)"

inductive list_step :: "(nat \<Rightarrow> lkind) \<Rightarrow> nat \<Rightarrow> list_sys \<Rightarrow> list_sys \<Rightarrow> bool" for kind :: "nat \<Rightarrow> lkind" where
  list_run: "inputs s r a \<Longrightarrow> thread kind i r a s = Some (Inr s') \<Longrightarrow> list_step kind i s s'"

inductive_simps list_step_iff: "list_step kind i s s'"

text \<open>A thread goes wrong: it accesses memory that is not allocated, although \<open>malloc\<close> gave it memory.\<close>

definition list_fault :: "(nat \<Rightarrow> lkind) \<Rightarrow> nat \<Rightarrow> list_sys \<Rightarrow> bool" where
  "list_fault kind i s \<longleftrightarrow> (\<exists>r p. inputs s r (Some p) \<and> thread kind i r (Some p) s = Some (Inl Wild))"

abbreviation list_reach :: "nat \<Rightarrow> (nat \<Rightarrow> lkind) \<Rightarrow> list_sys \<Rightarrow> bool" where
  "list_reach n kind \<equiv> reach (\<lambda>s. s = initialize kind) (interleave n (list_step kind))"

named_theorems list_defs
declare upd_def [list_defs] and goto_def [list_defs] and say_def [list_defs] and sem_post_binary [list_defs]

lemma with_node_Inr [simp]:
  "with_node s p f = Some (Inr t) \<longleftrightarrow> (\<exists>c n. p = Some c \<and> l_heap s c = Some n \<and> f c n = Inr t)"
  by (auto simp: with_node_def deref_def split: option.splits)

lemma with_node_None [simp]: "with_node s p f \<noteq> None"
  by (simp add: with_node_def)

lemma with_node_Inl [simp]:
  "with_node s p f = Some (Inl e) \<longleftrightarrow>
     e = Wild \<and> (p = None \<or> (\<exists>c. p = Some c \<and> l_heap s c = None)) \<or> (\<exists>c n. p = Some c \<and> l_heap s c = Some n \<and> f c n = Inl e)"
  by (auto simp: with_node_def deref_def split: option.splits)

lemma unlink_Inr [simp]:
  "unlink prev c n s = Inr t \<longleftrightarrow> (\<exists>b m. prev = Some b \<and> l_heap s b = Some m \<and>
     t = s\<lparr>l_heap := ((l_heap s)(b \<mapsto> m\<lparr>n_next := n_next n\<rparr>))(c := None),
           l_tail := (if l_tail s = Some c then prev else l_tail s)\<rparr>)"
  by (auto simp: unlink_def deref_def split: option.splits)

lemma map_sum_Inr [simp]: "map_sum id f x = Inr t \<longleftrightarrow> (\<exists>y. x = Inr y \<and> t = f y)"
  by (cases x) auto

subsection \<open>Semaphores\<close>

text \<open>The program points at which a thread holds each semaphore.\<close>

fun in_ns :: "lpc \<Rightarrow> bool" where
  "in_ns Find_loop = True" | "in_ns Find_post = True" | "in_ns Remov_wait_ni = True"
| "in_ns Remov_test = True" | "in_ns Remov_loop = True" | "in_ns Remov_report = True"
| "in_ns Remov_print = True" | "in_ns Remov_post_ns = True" | "in_ns _ = False"

fun in_ni :: "lpc \<Rightarrow> bool" where
  "in_ni Create_wait_in = True" | "in_ni Create_test = True" | "in_ni Create_first = True"
| "in_ni Create_walk = True" | "in_ni Create_link = True" | "in_ni Create_report = True"
| "in_ni Create_print = True" | "in_ni Create_post_in = True" | "in_ni Create_post_ni = True"
| "in_ni Remov_test = True" | "in_ni Remov_loop = True" | "in_ni Remov_report = True"
| "in_ni Remov_print = True" | "in_ni Remov_post_ns = True" | "in_ni Remov_post_ni = True"
| "in_ni _ = False"

fun in_in :: "lpc \<Rightarrow> bool" where
  "in_in Create_test = True" | "in_in Create_first = True" | "in_in Create_walk = True"
| "in_in Create_link = True" | "in_in Create_report = True" | "in_in Create_print = True"
| "in_in Create_post_in = True" | "in_in _ = False"

abbreviation pc_of :: "list_sys \<Rightarrow> nat \<Rightarrow> lpc" where
  "pc_of s i \<equiv> th_pc (l_thr s i)"

lemmas thread_defs = thread_def create_def find_list_def remov_def print_list_def Let_def

lemma thread_others:
  assumes "thread kind i r a s = Some (Inr t)" and "j \<noteq> i" shows "l_thr t j = l_thr s j"
  using assms
  by (cases "kind i"; cases "pc_of s i"; auto simp: thread_defs list_defs split: option.splits if_splits)

lemma thread_balance_ns:
  assumes "thread kind i r a s = Some (Inr t)" and "l_no_searcher s \<le> 1"
  shows "l_no_searcher t + of_bool (in_ns (pc_of t i)) = l_no_searcher s + of_bool (in_ns (pc_of s i))"
  using assms
  by (cases "kind i"; cases "pc_of s i"; auto simp: thread_defs list_defs split: option.splits if_splits)

lemma thread_balance_ni:
  assumes "thread kind i r a s = Some (Inr t)" and "l_no_inserter s \<le> 1"
  shows "l_no_inserter t + of_bool (in_ni (pc_of t i)) = l_no_inserter s + of_bool (in_ni (pc_of s i))"
  using assms
  by (cases "kind i"; cases "pc_of s i"; auto simp: thread_defs list_defs split: option.splits if_splits)

lemma thread_balance_in:
  assumes "thread kind i r a s = Some (Inr t)" and "l_inserter s \<le> 1"
  shows "l_inserter t + of_bool (in_in (pc_of t i)) = l_inserter s + of_bool (in_in (pc_of s i))"
  using assms
  by (cases "kind i"; cases "pc_of s i"; auto simp: thread_defs list_defs split: option.splits if_splits)

lemma start_pc_outside [simp]:
  "\<not> in_ns (start_pc k)" "\<not> in_ni (start_pc k)" "\<not> in_in (start_pc k)"
  by (cases k; simp)+

interpretation ns: sem_guard n "\<lambda>s. s = initialize kind" "list_step kind" l_no_searcher "\<lambda>s i. in_ns (pc_of s i)"
  for n kind
  by unfold_locales (auto simp: initialize_def list_step_iff thread_others simp del: of_bool_eq_iff dest: thread_balance_ns)

interpretation ni: sem_guard n "\<lambda>s. s = initialize kind" "list_step kind" l_no_inserter "\<lambda>s i. in_ni (pc_of s i)"
  for n kind
  by unfold_locales (auto simp: initialize_def list_step_iff thread_others simp del: of_bool_eq_iff dest: thread_balance_ni)

interpretation ins: sem_guard n "\<lambda>s. s = initialize kind" "list_step kind" l_inserter "\<lambda>s i. in_in (pc_of s i)"
  for n kind
  by unfold_locales (auto simp: initialize_def list_step_iff thread_others simp del: of_bool_eq_iff dest: thread_balance_in)

end
