(* ===== verification/Search_List_Inv.thy ===== *)
theory Search_List_Inv
  imports Search_List
begin

text \<open>
  Invariants of the shared list: which thread can run, the list in the heap as a segment of linked
  nodes, how each step changes it, and one assertion per thread and program point, for the
  configurations in which no deleter runs beside another deleter or a searcher.
\<close>

subsection \<open>Progress\<close>

fun kind_of :: "lpc \<Rightarrow> lkind" where
  "kind_of Find_read = Searcher" | "kind_of Find_wait = Searcher" | "kind_of Find_loop = Searcher"
| "kind_of Find_post = Searcher" | "kind_of Remov_read = Deleter" | "kind_of Remov_wait_ns = Deleter"
| "kind_of Remov_wait_ni = Deleter" | "kind_of Remov_test = Deleter" | "kind_of Remov_loop = Deleter"
| "kind_of Remov_report = Deleter" | "kind_of Remov_print = Deleter" | "kind_of Remov_post_ns = Deleter"
| "kind_of Remov_post_ni = Deleter" | "kind_of _ = Inserter"

lemma thread_kind:
  assumes "thread kind i r a s = Some (Inr t)"
  shows "kind_of (pc_of s i) = kind i \<and> kind_of (pc_of t i) = kind i"
  using assms
  by (cases "kind i"; cases "pc_of s i"; auto simp: thread_defs list_defs split: option.splits if_splits)

lemma start_kind [simp]: "kind_of (start_pc k) = k"
  by (cases k) simp_all

interpretation kinds: invariant_system "\<lambda>s. s = initialize kind" "interleave n (list_step kind)"
  "\<lambda>s. \<forall>i. kind_of (pc_of s i) = kind i" for n kind
proof
  fix s t assume s: "\<forall>i. kind_of (pc_of s i) = kind i" and "interleave n (list_step kind) s t"
  then obtain i r a where "thread kind i r a s = Some (Inr t)" by (auto simp: interleave_def list_step_iff)
  from thread_kind [OF this] thread_others [OF this] s show "\<forall>i. kind_of (pc_of t i) = kind i" by metis
qed (simp add: initialize_def)

text \<open>A thread is blocked only at a wait for a semaphore that is 0.\<close>

fun blocked :: "lpc \<Rightarrow> list_sys \<Rightarrow> bool" where
  "blocked Create_wait_ni s = (l_no_inserter s = 0)"
| "blocked Create_wait_in s = (l_inserter s = 0)"
| "blocked Find_wait s = (l_no_searcher s = 0)"
| "blocked Remov_wait_ns s = (l_no_searcher s = 0)"
| "blocked Remov_wait_ni s = (l_no_inserter s = 0)"
| "blocked _ s = False"

lemma thread_blocked:
  assumes "kind_of (pc_of s i) = kind i"
  shows "thread kind i r a s = None \<longleftrightarrow> blocked (pc_of s i) s"
  using assms
  by (cases "pc_of s i"; simp add: thread_defs with_node_def split: option.splits if_splits)

lemma some_thread_runs:
  assumes "list_reach n kind s" and "0 < n"
  shows "\<exists>i < n. \<not> blocked (pc_of s i) s"
proof (rule ccontr)
  assume "\<not> ?thesis"
  then have all: "blocked (pc_of s i) s" if "i < n" for i using that by blast
  have "l_inserter s \<noteq> 0"
  proof
    assume "l_inserter s = 0"
    from ins.holder [OF assms(1) this] obtain j where "j < n" "in_in (pc_of s j)" by blast
    with all [of j] show False by (cases "pc_of s j") simp_all
  qed
  moreover from this have "l_no_inserter s \<noteq> 0"
  proof (rule_tac notI)
    assume "l_no_inserter s = 0" and "l_inserter s \<noteq> 0"
    from ni.holder [OF assms(1) this(1)] obtain j where "j < n" "in_ni (pc_of s j)" by blast
    with all [of j] \<open>l_inserter s \<noteq> 0\<close> show False by (cases "pc_of s j") simp_all
  qed
  moreover have "l_no_searcher s \<noteq> 0"
  proof
    assume "l_no_searcher s = 0"
    from ns.holder [OF assms(1) this] obtain j where "j < n" "in_ns (pc_of s j)" by blast
    with all [of j] calculation show False by (cases "pc_of s j") simp_all
  qed
  ultimately show False using all [OF assms(2)] by (cases "pc_of s 0") simp_all
qed

subsection \<open>Linked lists\<close>

text \<open>\<open>lseg h p as q\<close>: following \<open>next\<close> from \<open>p\<close> visits the nodes \<open>as\<close> and arrives at \<open>q\<close>.\<close>

fun lseg :: "heap \<Rightarrow> nat option \<Rightarrow> nat list \<Rightarrow> nat option \<Rightarrow> bool" where
  "lseg h p [] q \<longleftrightarrow> p = q"
| "lseg h p (a # as) q \<longleftrightarrow> p = Some a \<and> (\<exists>n. h a = Some n \<and> lseg h (n_next n) as q)"

definition datum :: "heap \<Rightarrow> nat \<Rightarrow> int" where
  "datum h a = (case h a of None \<Rightarrow> 0 | Some n \<Rightarrow> n_data n)"

lemma datum_Some [simp]: "h a = Some n \<Longrightarrow> datum h a = n_data n"
  by (simp add: datum_def)

lemma lseg_append: "lseg h p (xs @ ys) q \<longleftrightarrow> (\<exists>r. lseg h p xs r \<and> lseg h r ys q)"
  by (induction xs arbitrary: p) auto

lemma lseg_cong: "(\<And>a. a \<in> set xs \<Longrightarrow> h' a = h a) \<Longrightarrow> lseg h' p xs q = lseg h p xs q"
  by (induction xs arbitrary: p) auto

lemma lseg_alloc: "lseg h p xs q \<Longrightarrow> a \<in> set xs \<Longrightarrow> \<exists>n. h a = Some n"
  by (induction xs arbitrary: p) auto

lemma lseg_unique: "lseg h p xs None \<Longrightarrow> lseg h p ys None \<Longrightarrow> xs = ys"
proof (induction xs arbitrary: p ys)
  case Nil then show ?case by (cases ys) auto
next
  case (Cons a xs) then show ?case by (cases ys) auto
qed

lemma lseg_distinct: "lseg h p xs None \<Longrightarrow> distinct xs"
proof (induction xs arbitrary: p)
  case (Cons a xs)
  have "a \<notin> set xs"
  proof
    assume "a \<in> set xs"
    then obtain ys zs where xs: "xs = ys @ a # zs" by (meson split_list)
    from Cons.prems have "lseg h (Some a) (a # ys @ a # zs) None" "lseg h (Some a) (a # zs) None"
      by (auto simp: xs lseg_append)
    from lseg_unique [OF this] show False by simp
  qed
  with Cons show ?case by auto
qed simp

lemma lseg_link:
  assumes "lseg h p (xs @ [c]) None" and "h c = Some n" and "h q = Some m" "n_next m = None" and "q \<notin> set (xs @ [c])"
  shows "lseg (h(c \<mapsto> n\<lparr>n_next := Some q\<rparr>)) p (xs @ [c, q]) None"
proof -
  from lseg_distinct [OF assms(1)] have "c \<notin> set xs" by simp
  then have "lseg (h(c \<mapsto> n\<lparr>n_next := Some q\<rparr>)) p xs (Some c) = lseg h p xs (Some c)"
    by (intro lseg_cong) auto
  with assms show ?thesis by (auto simp: lseg_append)
qed

lemma lseg_unlink:
  assumes "lseg h p (xs @ b # c # ys) None" and "h b = Some m" and "h c = Some n"
  shows "lseg ((h(b \<mapsto> m\<lparr>n_next := n_next n\<rparr>))(c := None)) p (xs @ b # ys) None"
proof -
  let ?h = "(h(b \<mapsto> m\<lparr>n_next := n_next n\<rparr>))(c := None)"
  from lseg_distinct [OF assms(1)] have "b \<noteq> c" "b \<notin> set xs" "c \<notin> set xs" "b \<notin> set ys" "c \<notin> set ys" by auto
  then have "lseg ?h p xs (Some b) = lseg h p xs (Some b)" "lseg ?h (n_next n) ys None = lseg h (n_next n) ys None"
    by (auto intro!: lseg_cong)
  with assms \<open>b \<noteq> c\<close> show ?thesis by (auto simp: lseg_append)
qed

lemma lseg_unlink_head:
  assumes "lseg h p (c # ys) None" and "h c = Some n"
  shows "lseg (h(c := None)) (n_next n) ys None"
proof -
  from lseg_distinct [OF assms(1)] have "lseg (h(c := None)) (n_next n) ys None = lseg h (n_next n) ys None"
    by (intro lseg_cong) auto
  with assms show ?thesis by auto
qed

lemma lseg_tail: "lseg h p (xs @ [c]) None \<Longrightarrow> h c = Some n \<Longrightarrow> n_next n = None"
  by (auto simp: lseg_append)

lemma lseg_next:
  assumes "lseg h p (xs @ c # ys) None" and "h c = Some n"
  shows "n_next n = (case ys of [] \<Rightarrow> None | d # _ \<Rightarrow> Some d)"
  using assms by (cases ys) (auto simp: lseg_append)

subsection \<open>The invariant of the safe configurations\<close>

text \<open>A deleter is the only thread beside inserters.\<close>

definition safe_config :: "nat \<Rightarrow> (nat \<Rightarrow> lkind) \<Rightarrow> bool" where
  "safe_config n kind \<longleftrightarrow> (\<forall>i < n. kind i = Deleter \<longrightarrow> (\<forall>j < n. j \<noteq> i \<longrightarrow> kind j = Inserter))"

text \<open>The nodes of the list, in order.\<close>

definition lnodes :: "list_sys \<Rightarrow> nat list" where
  "lnodes s = (THE ps. lseg (l_heap s) (l_head s) ps None)"

lemma lnodes_eq: "lseg (l_heap s) (l_head s) ps None \<Longrightarrow> lnodes s = ps"
  unfolding lnodes_def by (blast intro: lseg_unique)

text \<open>Between \<open>malloc\<close> and the link an inserter owns a node.\<close>

fun pending :: "lpc \<Rightarrow> bool" where
  "pending Create_wait_ni = True" | "pending Create_wait_in = True" | "pending Create_test = True"
| "pending Create_first = True" | "pending Create_walk = True" | "pending Create_link = True" | "pending _ = False"

definition owns :: "list_sys \<Rightarrow> nat \<Rightarrow> bool" where
  "owns s i \<longleftrightarrow> (\<exists>p. th_new (l_thr s i) = Some p \<and> p \<notin> set (lnodes s) \<and>
     l_heap s p = Some \<lparr>n_data = th_val (l_thr s i), n_next = None\<rparr>)"

definition list_shared :: "nat \<Rightarrow> list_sys \<Rightarrow> bool" where
  "list_shared n s \<longleftrightarrow>
     lseg (l_heap s) (l_head s) (lnodes s) None \<and> l_tail s = None \<and>
     (\<forall>i < n. pending (pc_of s i) \<longrightarrow> owns s i) \<and>
     (\<forall>i < n. \<forall>j < n. i \<noteq> j \<longrightarrow> pending (pc_of s i) \<longrightarrow> pending (pc_of s j) \<longrightarrow>
        th_new (l_thr s i) \<noteq> th_new (l_thr s j)) \<and>
     l_no_inserter s + (\<Sum>i < n. of_bool (in_ni (pc_of s i))) = 1"

text \<open>What a thread knows at each program point, of the nodes \<open>ps\<close> of the list.\<close>

fun at_pc :: "lpc \<Rightarrow> nat list \<Rightarrow> heap \<Rightarrow> lthread \<Rightarrow> bool" where
  "at_pc Create_first ps h t \<longleftrightarrow> ps = []"
| "at_pc Create_walk ps h t \<longleftrightarrow> (\<exists>c \<in> set ps. th_cur t = Some c)"
| "at_pc Create_link ps h t \<longleftrightarrow> ps \<noteq> [] \<and> th_cur t = Some (last ps)"
| "at_pc Create_print ps h t \<longleftrightarrow> (\<forall>c. th_cur t = Some c \<longrightarrow> c \<in> set ps)"
| "at_pc Remov_print ps h t \<longleftrightarrow> (\<forall>c. th_cur t = Some c \<longrightarrow> c \<in> set ps)"
| "at_pc Find_wait ps h t \<longleftrightarrow> (\<forall>c. th_cur t = Some c \<longrightarrow> c \<in> set ps)"
| "at_pc Find_loop ps h t \<longleftrightarrow> (\<forall>c. th_cur t = Some c \<longrightarrow> c \<in> set ps)"
| "at_pc Remov_wait_ns ps h t \<longleftrightarrow> th_prev t = th_cur t \<and> (\<forall>c. th_cur t = Some c \<longrightarrow> (\<exists>cs. ps = c # cs))"
| "at_pc Remov_wait_ni ps h t \<longleftrightarrow> th_prev t = th_cur t \<and> (\<forall>c. th_cur t = Some c \<longrightarrow> (\<exists>cs. ps = c # cs))"
| "at_pc Remov_test ps h t \<longleftrightarrow> th_prev t = th_cur t \<and> (\<forall>c. th_cur t = Some c \<longrightarrow> (\<exists>cs. ps = c # cs))"
| "at_pc Remov_loop ps h t \<longleftrightarrow> (\<forall>c. th_cur t = Some c \<longrightarrow>
     (\<exists>xs ys. ps = xs @ c # ys \<and> (\<forall>x \<in> set xs. datum h x \<noteq> th_val t) \<and>
        th_prev t = Some (if xs = [] then c else last xs) \<and> (xs = [] \<longrightarrow> datum h c \<noteq> th_val t)))"
| "at_pc _ ps h t \<longleftrightarrow> True"

definition list_asrt :: "(nat \<Rightarrow> lkind) \<Rightarrow> nat \<Rightarrow> list_sys \<Rightarrow> bool" where
  "list_asrt kind i s \<longleftrightarrow> kind_of (pc_of s i) = kind i \<and> at_pc (pc_of s i) (lnodes s) (l_heap s) (l_thr s i)"

lemma lseg_hd: "lseg h p ps None \<Longrightarrow> p = (case ps of [] \<Rightarrow> None | c # _ \<Rightarrow> Some c)"
  by (cases ps) auto

text \<open>How a step of thread \<open>i\<close> from \<open>s\<close> to \<open>t\<close> changes the list.\<close>

definition kept :: "list_sys \<Rightarrow> list_sys \<Rightarrow> bool" where
  "kept s t \<longleftrightarrow> lseg (l_heap t) (l_head t) (lnodes s) None \<and> l_tail t = None \<and>
     (\<forall>x. l_heap s x \<noteq> None \<longrightarrow> l_heap t x = l_heap s x)"

definition appended :: "list_sys \<Rightarrow> nat \<Rightarrow> list_sys \<Rightarrow> bool" where
  "appended s i t \<longleftrightarrow> (\<exists>p. th_new (l_thr s i) = Some p \<and> p \<notin> set (lnodes s) \<and>
     lseg (l_heap t) (l_head t) (lnodes s @ [p]) None \<and> l_tail t = None \<and>
     pc_of s i \<in> {Create_first, Create_link} \<and> pc_of t i = Create_report \<and>
     (\<forall>x. datum (l_heap t) x = datum (l_heap s) x) \<and> (\<forall>x. x \<notin> set (lnodes s) \<longrightarrow> l_heap t x = l_heap s x) \<and>
     datum (l_heap t) p = th_val (l_thr s i))"

definition removed :: "list_sys \<Rightarrow> nat \<Rightarrow> list_sys \<Rightarrow> bool" where
  "removed s i t \<longleftrightarrow> (\<exists>xs c ys. lnodes s = xs @ c # ys \<and> lseg (l_heap t) (l_head t) (xs @ ys) None \<and> l_tail t = None \<and>
     pc_of s i \<in> {Remov_test, Remov_loop} \<and> pc_of t i = Remov_report \<and>
     datum (l_heap s) c = th_val (l_thr s i) \<and> (\<forall>x \<in> set xs. datum (l_heap s) x \<noteq> th_val (l_thr s i)) \<and>
     (\<forall>x. x \<noteq> c \<longrightarrow> datum (l_heap t) x = datum (l_heap s) x) \<and> (\<forall>x. x \<notin> set (lnodes s) \<longrightarrow> l_heap t x = l_heap s x))"

lemma removedI:
  assumes "lnodes s = xs @ c # ys" "lseg (l_heap t) (l_head t) (xs @ ys) None" "l_tail t = None"
    "pc_of s i \<in> {Remov_test, Remov_loop}" "pc_of t i = Remov_report"
    "datum (l_heap s) c = th_val (l_thr s i)" "\<forall>x \<in> set xs. datum (l_heap s) x \<noteq> th_val (l_thr s i)"
    "\<forall>x. x \<noteq> c \<longrightarrow> datum (l_heap t) x = datum (l_heap s) x" "\<forall>x. x \<notin> set (lnodes s) \<longrightarrow> l_heap t x = l_heap s x"
  shows "removed s i t"
  using assms unfolding removed_def by blast

lemma kept_same:
  assumes "list_shared n s" and "l_heap t = l_heap s" "l_head t = l_head s" "l_tail t = l_tail s"
  shows "kept s t"
  using assms by (simp add: kept_def list_shared_def)

lemma shared_owns:
  assumes "list_shared n s" and "i < n" and "pending (pc_of s i)"
  obtains p where "th_new (l_thr s i) = Some p" "p \<notin> set (lnodes s)"
    "l_heap s p = Some \<lparr>n_data = th_val (l_thr s i), n_next = None\<rparr>"
  using assms by (auto simp: list_shared_def owns_def)

lemma shared_new_distinct:
  assumes "list_shared n s" and "i < n" "j < n" "i \<noteq> j" and "pending (pc_of s i)" "pending (pc_of s j)"
  shows "th_new (l_thr s i) \<noteq> th_new (l_thr s j)"
  using assms by (simp add: list_shared_def)

lemma shared_alloc:
  assumes "list_shared n s" and "x \<in> set (lnodes s)" obtains n where "l_heap s x = Some n"
  using assms lseg_alloc unfolding list_shared_def by blast

lemma create_effect:
  assumes sh: "list_shared n s" and i: "i < n" and at: "at_pc (pc_of s i) (lnodes s) (l_heap s) (l_thr s i)"
    and inp: "inputs s r a" and st: "create i r a s = Some (Inr t)"
  shows "kept s t \<or> appended s i t"
proof -
  let ?ps = "lnodes s"
  from sh have l: "lseg (l_heap s) (l_head s) ?ps None" and tl: "l_tail s = None" by (auto simp: list_shared_def)
  consider (new) "pc_of s i = Create_new" | (first) "pc_of s i = Create_first" | (link) "pc_of s i = Create_link"
    | (other) "pc_of s i \<notin> {Create_new, Create_first, Create_link}" by blast
  then show ?thesis
  proof cases
    case new
    with st inp obtain p where p: "l_heap s p = None" "l_head t = l_head s" "l_tail t = l_tail s"
        "l_heap t = (l_heap s)(p \<mapsto> \<lparr>n_data = random_gen10 r, n_next = None\<rparr>)"
      by (auto simp: create_def Let_def list_defs inputs_def split: option.splits)
    with lseg_alloc [OF l] have "lseg (l_heap t) (l_head s) ?ps None"
      using l by (subst lseg_cong [of ?ps _ "l_heap s"]) force+
    with p tl show ?thesis by (auto simp: kept_def)
  next
    case first
    then have "pending (pc_of s i)" by simp
    then obtain p where p: "th_new (l_thr s i) = Some p" "p \<notin> set ?ps"
        "l_heap s p = Some \<lparr>n_data = th_val (l_thr s i), n_next = None\<rparr>" by (rule shared_owns [OF sh i])
    from first st have t: "l_heap t = l_heap s" "l_head t = Some p" "l_tail t = l_tail s" "pc_of t i = Create_report"
      by (auto simp: create_def Let_def list_defs p)
    from first at have "?ps = []" by simp
    with p t tl first show ?thesis by (auto simp: appended_def)
  next
    case link
    then have "pending (pc_of s i)" by simp
    then obtain p where p: "th_new (l_thr s i) = Some p" "p \<notin> set ?ps"
        "l_heap s p = Some \<lparr>n_data = th_val (l_thr s i), n_next = None\<rparr>" by (rule shared_owns [OF sh i])
    from link at obtain xs c where ps: "?ps = xs @ [c]" and c: "th_cur (l_thr s i) = Some c"
      by (cases ?ps rule: rev_cases) auto
    from lseg_alloc [OF l, of c] ps obtain n where n: "l_heap s c = Some n" by auto
    from link st c n have t: "l_heap t = (l_heap s)(c \<mapsto> n\<lparr>n_next := Some p\<rparr>)" "l_head t = l_head s"
        "l_tail t = l_tail s" "pc_of t i = Create_report" by (auto simp: create_def Let_def list_defs p)
    have "lseg (l_heap t) (l_head t) (?ps @ [p]) None"
      using lseg_link [of "l_heap s" "l_head s" xs c n p] l n p by (simp add: t ps)
    moreover have "datum (l_heap t) x = datum (l_heap s) x" for x using n by (simp add: t datum_def)
    ultimately show ?thesis using link p t tl ps by (auto simp: appended_def)
  next
    case other
    with st have "l_heap t = l_heap s" "l_head t = l_head s" "l_tail t = l_tail s"
      by (cases "pc_of s i"; auto simp: thread_defs list_defs split: option.splits if_splits)+
    with sh show ?thesis by (simp add: kept_same)
  qed
qed

lemma remov_test_effect:
  assumes sh: "list_shared n s" and pc: "pc_of s i = Remov_test" and st: "remov i r s = Some (Inr t)"
  shows "kept s t \<or> removed s i t"
proof -
  from sh have l: "lseg (l_heap s) (l_head s) (lnodes s) None" and tl: "l_tail s = None" by (auto simp: list_shared_def)
  consider (hit) c n where "l_head s = Some c" "l_heap s c = Some n" "n_data n = th_val (l_thr s i)"
    | (miss) "l_heap t = l_heap s" "l_head t = l_head s" "l_tail t = l_tail s"
    using pc st by (auto simp: remov_def Let_def list_defs split: if_splits)
  then show ?thesis
  proof cases
    case hit
    with l obtain ys where ps: "lnodes s = c # ys" by (cases "lnodes s") auto
    from hit pc st have t: "l_heap t = (l_heap s)(c := None)" "l_head t = n_next n" "l_tail t = l_tail s"
      "pc_of t i = Remov_report" by (auto simp: remov_def Let_def list_defs)
    have "lseg (l_heap t) (l_head t) ys None"
      using lseg_unlink_head [of "l_heap s" "l_head s" c ys n] l hit by (simp add: t ps)
    with hit pc t tl ps show ?thesis
      by (intro disjI2 removedI [of s "[]" c ys]) (auto simp: datum_def)
  qed (simp add: kept_same [OF sh])
qed

lemma remov_loop_effect:
  assumes sh: "list_shared n s" and pc: "pc_of s i = Remov_loop" and st: "remov i r s = Some (Inr t)"
    and at: "at_pc (pc_of s i) (lnodes s) (l_heap s) (l_thr s i)"
  shows "kept s t \<or> removed s i t"
proof -
  from sh have l: "lseg (l_heap s) (l_head s) (lnodes s) None" and tl: "l_tail s = None" by (auto simp: list_shared_def)
  show ?thesis
  proof (cases "\<exists>c n. th_cur (l_thr s i) = Some c \<and> l_heap s c = Some n \<and> n_data n = th_val (l_thr s i)")
    case True
    then obtain c n where hit: "th_cur (l_thr s i) = Some c" "l_heap s c = Some n" "n_data n = th_val (l_thr s i)"
      by blast
    with pc at obtain zs ys where zs: "lnodes s = zs @ c # ys" "zs \<noteq> []" "th_prev (l_thr s i) = Some (last zs)"
        and nf: "\<forall>x \<in> set zs. datum (l_heap s) x \<noteq> th_val (l_thr s i)"
      by (fastforce split: if_splits)
    then obtain xs b where "zs = xs @ [b]" by (cases zs rule: rev_cases) auto
    with zs have ps: "lnodes s = xs @ b # c # ys" and b: "th_prev (l_thr s i) = Some b" and "zs = xs @ [b]" by auto
    from lseg_alloc [OF l, of b] ps obtain m where m: "l_heap s b = Some m" by auto
    from pc st hit b m have t: "l_heap t = ((l_heap s)(b \<mapsto> m\<lparr>n_next := n_next n\<rparr>))(c := None)" "l_head t = l_head s"
        "l_tail t = (if l_tail s = Some c then Some b else l_tail s)" "pc_of t i = Remov_report"
      by (auto simp: remov_def Let_def list_defs)
    have "lseg (l_heap t) (l_head t) (xs @ b # ys) None"
      using lseg_unlink [of "l_heap s" "l_head s" xs b c ys m n] l m hit by (simp add: t ps)
    with pc nf hit m t tl ps \<open>zs = xs @ [b]\<close> show ?thesis
      by (intro disjI2 removedI [of s "xs @ [b]" c ys]) (auto simp: datum_def)
  next
    case False
    have "l_heap t = l_heap s \<and> l_head t = l_head s \<and> l_tail t = l_tail s"
    proof (cases "th_cur (l_thr s i)")
      case (Some c)
      with pc st obtain n where "l_heap s c = Some n" by (auto simp: remov_def Let_def)
      with False Some pc st show ?thesis by (auto simp: remov_def Let_def list_defs)
    qed (use pc st in \<open>auto simp: remov_def Let_def list_defs\<close>)
    with sh show ?thesis by (simp add: kept_same)
  qed
qed

lemma step_effect:
  assumes sh: "list_shared n s" and i: "i < n" and as: "list_asrt kind i s"
    and inp: "inputs s r a" and st: "thread kind i r a s = Some (Inr t)"
  shows "kept s t \<or> appended s i t \<or> removed s i t"
proof -
  from as have at: "at_pc (pc_of s i) (lnodes s) (l_heap s) (l_thr s i)" by (simp add: list_asrt_def)
  show ?thesis
  proof (cases "kind i")
    case Inserter
    with st have "create i r a s = Some (Inr t)" by (simp add: thread_def)
    from create_effect [OF sh i at inp this] show ?thesis by blast
  next
    case Searcher
    with st have "l_heap t = l_heap s" "l_head t = l_head s" "l_tail t = l_tail s"
      by (cases "pc_of s i"; auto simp: thread_defs list_defs split: option.splits if_splits)+
    with sh show ?thesis by (simp add: kept_same)
  next
    case Deleter
    with st have re: "remov i r s = Some (Inr t)" by (simp add: thread_def)
    consider (test) "pc_of s i = Remov_test" | (loop) "pc_of s i = Remov_loop"
      | (other) "pc_of s i \<notin> {Remov_test, Remov_loop}" by blast
    then show ?thesis
    proof cases
      case other
      with re have "l_heap t = l_heap s" "l_head t = l_head s" "l_tail t = l_tail s"
        by (cases "pc_of s i"; auto simp: thread_defs list_defs split: option.splits if_splits)+
      with sh show ?thesis by (simp add: kept_same)
    qed (use sh re at remov_test_effect remov_loop_effect in blast)+
  qed
qed

lemma lnodes_kept: "kept s t \<Longrightarrow> lnodes t = lnodes s"
  by (simp add: kept_def lnodes_eq)

lemma own_pending:
  assumes "thread kind i r a s = Some (Inr t)" and "pending (pc_of t i)"
  shows "(pc_of s i = Create_new \<and> (\<exists>p. a = Some p \<and> th_new (l_thr t i) = Some p \<and>
      l_heap t p = Some \<lparr>n_data = th_val (l_thr t i), n_next = None\<rparr>)) \<or>
    (pending (pc_of s i) \<and> th_new (l_thr t i) = th_new (l_thr s i) \<and> th_val (l_thr t i) = th_val (l_thr s i))"
proof -
  from assms(2) have "kind_of (pc_of t i) = Inserter" by (cases "pc_of t i") simp_all
  with thread_kind [OF assms(1)] have "kind i = Inserter" "kind_of (pc_of s i) = Inserter" by auto
  with assms show ?thesis
    by (cases "pc_of s i"; auto simp: thread_defs list_defs split: option.splits if_splits)
qed

lemma owns_other:
  assumes sh: "list_shared n s" and ij: "i < n" "j < n" "j \<noteq> i" and pj: "pending (pc_of s j)"
    and same: "l_thr t j = l_thr s j" and eff: "kept s t \<or> appended s i t \<or> removed s i t"
  shows "owns t j"
proof -
  obtain p where p: "th_new (l_thr s j) = Some p" "p \<notin> set (lnodes s)"
      "l_heap s p = Some \<lparr>n_data = th_val (l_thr s j), n_next = None\<rparr>" by (rule shared_owns [OF sh ij(2) pj])
  have "p \<notin> set (lnodes t) \<and> l_heap t p = l_heap s p"
    using eff
  proof (elim disjE)
    assume "kept s t"
    with p show ?thesis by (simp add: lnodes_kept) (simp add: kept_def)
  next
    assume ap: "appended s i t"
    then have "pending (pc_of s i)" by (auto simp: appended_def)
    with shared_new_distinct [OF sh ij(1,2)] ij(3) pj p(1) have "th_new (l_thr s i) \<noteq> Some p" by simp
    with ap p(2) show ?thesis by (auto simp: appended_def lnodes_eq)
  next
    assume "removed s i t"
    with p(2) show ?thesis by (auto simp: removed_def lnodes_eq)
  qed
  with p same show ?thesis by (simp add: owns_def)
qed

lemma list_keeps_shared:
  assumes sh: "list_shared n s" and i: "i < n" and as: "list_asrt kind i s" and "list_step kind i s t"
  shows "list_shared n t"
proof -
  from assms(4) obtain r a where inp: "inputs s r a" and st: "thread kind i r a s = Some (Inr t)"
    by (auto simp: list_step_iff)
  note eff = step_effect [OF sh i as inp st] and oth = thread_others [OF st]
  have l: "lseg (l_heap t) (l_head t) (lnodes t) None \<and> l_tail t = None"
    using eff by (auto simp: kept_def appended_def removed_def lnodes_eq)
  have own: "owns t i \<and> (\<forall>j < n. j \<noteq> i \<longrightarrow> pending (pc_of s j) \<longrightarrow> th_new (l_thr t i) \<noteq> th_new (l_thr s j))"
    if pt: "pending (pc_of t i)"
  proof -
    from eff pt have k: "kept s t" by (auto simp: appended_def removed_def)
    from own_pending [OF st pt] show ?thesis
    proof (elim disjE conjE exE)
      fix p assume p: "a = Some p" "th_new (l_thr t i) = Some p"
        "l_heap t p = Some \<lparr>n_data = th_val (l_thr t i), n_next = None\<rparr>"
      with inp have none: "l_heap s p = None" by (simp add: inputs_def)
      moreover have "p \<notin> set (lnodes s)" using none by (auto elim: shared_alloc [OF sh])
      ultimately have "owns t i" using p by (simp add: owns_def lnodes_kept [OF k])
      moreover have "th_new (l_thr s j) \<noteq> Some p" if "j < n" "pending (pc_of s j)" for j
        using shared_owns [OF sh that] none by force
      ultimately show ?thesis unfolding p(2) by metis
    next
      assume ps: "pending (pc_of s i)" "th_new (l_thr t i) = th_new (l_thr s i)" "th_val (l_thr t i) = th_val (l_thr s i)"
      obtain p where "th_new (l_thr s i) = Some p" "p \<notin> set (lnodes s)"
        "l_heap s p = Some \<lparr>n_data = th_val (l_thr s i), n_next = None\<rparr>" by (rule shared_owns [OF sh i ps(1)])
      moreover from this k have "l_heap t p = l_heap s p" by (simp add: kept_def)
      ultimately have "owns t i" by (simp add: owns_def ps(2,3) lnodes_kept [OF k])
      with shared_new_distinct [OF sh i] ps show ?thesis by simp
    qed
  qed
  have "owns t j" if "j < n" "pending (pc_of t j)" for j
  proof (cases "j = i")
    case False
    with that oth [OF False] show ?thesis by (intro owns_other [OF sh i _ False _ _ eff]) auto
  qed (use own that in blast)
  moreover have "th_new (l_thr t j) \<noteq> th_new (l_thr t k)"
    if "j < n" "k < n" "j \<noteq> k" "pending (pc_of t j)" "pending (pc_of t k)" for j k
  proof -
    consider "j = i" "k \<noteq> i" | "k = i" "j \<noteq> i" | "j \<noteq> i" "k \<noteq> i" using \<open>j \<noteq> k\<close> by blast
    then show ?thesis
    proof cases
      case 3 with that oth shared_new_distinct [OF sh] show ?thesis by simp
    qed (use that own oth in \<open>simp; metis\<close>)+
  qed
  moreover have "l_no_inserter t + (\<Sum>j < n. of_bool (in_ni (pc_of t j))) = 1"
    using sh by (intro ni.keeps_balance [OF i assms(4)]) (simp only: list_shared_def)
  ultimately show ?thesis using l unfolding list_shared_def by blast
qed

lemma at_pc_cong:
  assumes same: "\<And>x. x \<in> set ps \<Longrightarrow> datum h' x = datum h x" and at: "at_pc p ps h t" shows "at_pc p ps h' t"
proof (cases "p = Remov_loop")
  case True
  show ?thesis unfolding True at_pc.simps
  proof (intro allI impI)
    fix c assume "th_cur t = Some c"
    with at obtain xs ys where "ps = xs @ c # ys" "\<forall>x \<in> set xs. datum h x \<noteq> th_val t"
        "th_prev t = Some (if xs = [] then c else last xs)" "xs = [] \<longrightarrow> datum h c \<noteq> th_val t" by (auto simp: True)
    with same show "\<exists>xs ys. ps = xs @ c # ys \<and> (\<forall>x \<in> set xs. datum h' x \<noteq> th_val t) \<and>
        th_prev t = Some (if xs = [] then c else last xs) \<and> (xs = [] \<longrightarrow> datum h' c \<noteq> th_val t)"
      by (intro exI [of _ xs] exI [of _ ys]) simp
  qed
next
  case False
  with at show ?thesis by (cases p) simp_all
qed

lemma at_pc_append:
  assumes at: "at_pc p ps h t" and "p \<notin> {Create_first, Create_link}" shows "at_pc p (ps @ [q]) h t"
proof (cases "p = Remov_loop")
  case True
  show ?thesis unfolding True at_pc.simps
  proof (intro allI impI)
    fix c assume "th_cur t = Some c"
    with at obtain xs ys where "ps = xs @ c # ys" "\<forall>x \<in> set xs. datum h x \<noteq> th_val t"
        "th_prev t = Some (if xs = [] then c else last xs)" "xs = [] \<longrightarrow> datum h c \<noteq> th_val t" by (auto simp: True)
    then show "\<exists>xs ys. ps @ [q] = xs @ c # ys \<and> (\<forall>x \<in> set xs. datum h x \<noteq> th_val t) \<and>
        th_prev t = Some (if xs = [] then c else last xs) \<and> (xs = [] \<longrightarrow> datum h c \<noteq> th_val t)"
      by (intro exI [of _ xs] exI [of _ "ys @ [q]"]) simp
  qed
next
  case False
  with assms show ?thesis by (cases p) auto
qed

lemma at_pc_outside: "kind_of p = Inserter \<Longrightarrow> \<not> in_ni p \<Longrightarrow> at_pc p ps h t"
  by (cases p) auto

lemma list_interference_free:
  assumes safe: "safe_config n kind" and sh: "list_shared n s" and ij: "i < n" "j < n" "i \<noteq> j"
    and ai: "list_asrt kind i s" and aj: "list_asrt kind j s" and "list_step kind i s t"
  shows "list_asrt kind j t"
proof -
  from assms(8) obtain r a where inp: "inputs s r a" and st: "thread kind i r a s = Some (Inr t)"
    by (auto simp: list_step_iff)
  from thread_others [OF st] ij have same: "l_thr t j = l_thr s j" by simp
  have "(\<Sum>k < n. of_bool (in_ni (pc_of s k)) :: nat) \<le> 1" using sh by (auto simp: list_shared_def)
  from count_unique [OF this ij(1,2)] ij(3) have excl: "in_ni (pc_of s i) \<Longrightarrow> \<not> in_ni (pc_of s j)" by blast
  from aj have k: "kind_of (pc_of s j) = kind j" and at: "at_pc (pc_of s j) (lnodes s) (l_heap s) (l_thr s j)"
    by (auto simp: list_asrt_def)
  have "at_pc (pc_of s j) (lnodes t) (l_heap t) (l_thr s j)"
    using step_effect [OF sh ij(1) ai inp st]
  proof (elim disjE)
    assume ke: "kept s t"
    have "datum (l_heap t) x = datum (l_heap s) x" if "x \<in> set (lnodes s)" for x
      using ke by (auto simp: kept_def datum_def intro: shared_alloc [OF sh that])
    from at_pc_cong [OF this at] show ?thesis by (simp add: lnodes_kept [OF ke])
  next
    assume ap: "appended s i t"
    then have "in_ni (pc_of s i)" by (auto simp: appended_def)
    with excl have "pc_of s j \<notin> {Create_first, Create_link}" by auto
    note old = at_pc_append [OF at this]
    from ap have "datum (l_heap t) x = datum (l_heap s) x" for x by (auto simp: appended_def)
    with old have "at_pc (pc_of s j) (lnodes s @ [q]) (l_heap t) (l_thr s j)" for q by (metis at_pc_cong)
    moreover from ap obtain q where "lnodes t = lnodes s @ [q]" by (auto simp: appended_def lnodes_eq)
    ultimately show ?thesis by simp
  next
    assume re: "removed s i t"
    then have "pc_of s i = Remov_test \<or> pc_of s i = Remov_loop" by (auto simp: removed_def)
    moreover from ai have "kind i = kind_of (pc_of s i)" by (simp add: list_asrt_def)
    ultimately have "in_ni (pc_of s i)" and "kind i = Deleter" by (elim disjE; simp)+
    moreover from this safe ij have "kind j = Inserter" unfolding safe_config_def by blast
    ultimately show ?thesis using excl k by (intro at_pc_outside) simp_all
  qed
  with k same show ?thesis by (simp add: list_asrt_def)
qed

lemma lseg_next_in:
  assumes l: "lseg h p ps None" and c: "c \<in> set ps" and n: "h c = Some n"
  shows "n_next n = Some d \<Longrightarrow> d \<in> set ps" and "n_next n = None \<Longrightarrow> c = last ps"
proof -
  from c obtain xs ys where ps: "ps = xs @ c # ys" by (meson split_list)
  with lseg_next l n have "n_next n = (case ys of [] \<Rightarrow> None | d # _ \<Rightarrow> Some d)" by blast
  then show "n_next n = Some d \<Longrightarrow> d \<in> set ps" and "n_next n = None \<Longrightarrow> c = last ps"
    by (auto simp: ps split: list.splits)
qed

lemma lseg_head: "lseg h (Some c) ps None \<longleftrightarrow> (\<exists>cs. ps = c # cs \<and> lseg h (Some c) ps None)"
  by (cases ps) auto

lemma lseg_None [simp]: "lseg h None ps None \<longleftrightarrow> ps = []"
  by (cases ps) auto

text \<open>The program points whose assertion is not trivial are reached with the list unchanged.\<close>

lemma create_own:
  assumes l: "lseg (l_heap s) (l_head s) ps None" and at: "at_pc (pc_of s i) ps (l_heap s) (l_thr s i)"
    and st: "create i r a s = Some (Inr t)" and pc: "pc_of s i \<notin> {Create_new, Create_first, Create_link}"
  shows "at_pc (pc_of t i) ps (l_heap t) (l_thr t i)"
proof -
  have hd: "l_head s = Some c \<Longrightarrow> c \<in> set ps" "l_head s = None \<Longrightarrow> ps = []" for c using l by (cases ps; simp)+
  have nx: "d \<in> set ps" if "c \<in> set ps" "l_heap s c = Some n" "n_next n = Some d" for c n d
    using lseg_next_in(1) [OF l] that by blast
  have la: "last ps = c \<and> ps \<noteq> []" if "c \<in> set ps" "l_heap s c = Some n" "n_next n = None" for c n
    using lseg_next_in(2) [OF l that] that(1) by auto
  show ?thesis
  proof (cases "pc_of s i = Create_walk")
    case True
    with st at obtain c n where "th_cur (l_thr s i) = Some c" "c \<in> set ps" "l_heap s c = Some n"
      by (auto simp: create_def Let_def)
    with True st show ?thesis by (cases "n_next n") (auto simp: create_def Let_def list_defs la intro: nx)
  next
    case False
    with st at pc show ?thesis
      by (cases "pc_of s i")
        (auto simp: create_def print_list_def Let_def list_defs hd intro: nx split: option.splits if_splits)
  qed
qed

lemma find_own:
  assumes l: "lseg (l_heap s) (l_head s) ps None" and at: "at_pc (pc_of s i) ps (l_heap s) (l_thr s i)"
    and st: "find_list i r s = Some (Inr t)"
  shows "at_pc (pc_of t i) ps (l_heap t) (l_thr t i)"
proof -
  have hd: "l_head s = Some c \<Longrightarrow> c \<in> set ps" for c using l by (cases ps) auto
  have nx: "d \<in> set ps" if "c \<in> set ps" "l_heap s c = Some n" "n_next n = Some d" for c n d
    using lseg_next_in(1) [OF l] that by blast
  show ?thesis
    using st at
    by (cases "pc_of s i") (auto simp: find_list_def Let_def list_defs hd intro: nx split: option.splits if_splits)
qed

lemma remov_loop_own:
  assumes l: "lseg (l_heap s) (l_head s) ps None" and at: "at_pc (pc_of s i) ps (l_heap s) (l_thr s i)"
    and st: "remov i r s = Some (Inr t)" and pc: "pc_of s i = Remov_loop" "pc_of t i \<noteq> Remov_report"
  shows "at_pc (pc_of t i) ps (l_heap t) (l_thr t i)"
proof (cases "th_cur (l_thr s i)")
  case None
  with st pc show ?thesis by (auto simp: remov_def Let_def list_defs)
next
  case (Some c)
  with st pc(1) obtain n where n: "l_heap s c = Some n" by (auto simp: remov_def Let_def)
  have ne: "n_data n \<noteq> th_val (l_thr s i)" using Some st pc n by (auto simp: remov_def Let_def list_defs)
  with Some st pc n have t: "l_heap t = l_heap s" "pc_of t i = Remov_loop" "th_val (l_thr t i) = th_val (l_thr s i)"
      "th_prev (l_thr t i) = Some c" "th_cur (l_thr t i) = n_next n" by (auto simp: remov_def Let_def list_defs)
  from at Some pc obtain xs ys where ps: "ps = xs @ c # ys" and xs: "\<forall>x \<in> set xs. datum (l_heap s) x \<noteq> th_val (l_thr s i)"
    by auto
  have nx: "n_next n = (case ys of [] \<Rightarrow> None | d # _ \<Rightarrow> Some d)" using lseg_next l n unfolding ps by blast
  show ?thesis unfolding t at_pc.simps
  proof (intro allI impI)
    fix d assume "n_next n = Some d"
    with nx obtain zs where ys: "ys = d # zs" by (auto split: list.splits)
    show "\<exists>us vs. ps = us @ d # vs \<and> (\<forall>x \<in> set us. datum (l_heap s) x \<noteq> th_val (l_thr s i)) \<and>
        Some c = Some (if us = [] then d else last us) \<and> (us = [] \<longrightarrow> datum (l_heap s) d \<noteq> th_val (l_thr s i))"
      using xs ne n by (intro exI [of _ "xs @ [c]"] exI [of _ zs]) (auto simp: ps ys)
  qed
qed

lemma remov_test_own:
  assumes l: "lseg (l_heap s) (l_head s) ps None" and at: "at_pc (pc_of s i) ps (l_heap s) (l_thr s i)"
    and st: "remov i r s = Some (Inr t)" and pc: "pc_of s i = Remov_test" "pc_of t i \<noteq> Remov_report"
  shows "at_pc (pc_of t i) ps (l_heap t) (l_thr t i)"
proof -
  have t: "l_heap t = l_heap s \<and> l_thr t i = (l_thr s i)\<lparr>th_pc := Remov_loop\<rparr> \<and>
      (\<forall>c cs. ps = c # cs \<longrightarrow> datum (l_heap s) c \<noteq> th_val (l_thr s i))"
  proof (cases ps)
    case Nil
    with l st pc show ?thesis by (auto simp: remov_def Let_def list_defs)
  next
    case (Cons c cs)
    with l obtain n where "l_head s = Some c" "l_heap s c = Some n" by auto
    with Cons st pc show ?thesis
      by (cases "n_data n = th_val (l_thr s i)") (auto simp: remov_def Let_def list_defs)
  qed
  show ?thesis
  proof -
    have "th_cur (l_thr s i) = Some c \<longrightarrow> (\<exists>cs. ps = [] @ c # cs) \<and> th_prev (l_thr s i) = Some c" for c
      using at pc(1) by auto
    with t show ?thesis by (fastforce intro: exI [of _ "[]"])
  qed
qed

lemma remov_own:
  assumes l: "lseg (l_heap s) (l_head s) ps None" and at: "at_pc (pc_of s i) ps (l_heap s) (l_thr s i)"
    and st: "remov i r s = Some (Inr t)" and rep: "pc_of t i \<noteq> Remov_report"
  shows "at_pc (pc_of t i) ps (l_heap t) (l_thr t i)"
proof -
  have hd: "l_head s = Some c \<Longrightarrow> \<exists>cs. ps = c # cs" "l_head s = Some c \<Longrightarrow> c \<in> set ps" for c
    using l by (cases ps; simp)+
  have nx: "d \<in> set ps" if "c \<in> set ps" "l_heap s c = Some n" "n_next n = Some d" for c n d
    using lseg_next_in(1) [OF l] that by blast
  consider "pc_of s i = Remov_loop" | "pc_of s i = Remov_test" | "pc_of s i \<notin> {Remov_loop, Remov_test}" by blast
  then show ?thesis
  proof cases
    case 3
    with st at rep show ?thesis
      by (cases "pc_of s i")
        (auto simp: remov_def print_list_def Let_def list_defs intro: nx dest: hd(1) simp: hd(2) split: option.splits if_splits)
  qed (use assms remov_loop_own remov_test_own in blast)+
qed

lemma list_keeps_own:
  assumes sh: "list_shared n s" and i: "i < n" and as: "list_asrt kind i s" and "list_step kind i s t"
  shows "list_asrt kind i t"
proof -
  from assms(4) obtain r a where inp: "inputs s r a" and st: "thread kind i r a s = Some (Inr t)"
    by (auto simp: list_step_iff)
  from as have at: "at_pc (pc_of s i) (lnodes s) (l_heap s) (l_thr s i)" by (simp add: list_asrt_def)
  from sh have l: "lseg (l_heap s) (l_head s) (lnodes s) None" by (simp add: list_shared_def)
  have "at_pc (pc_of t i) (lnodes t) (l_heap t) (l_thr t i)"
  proof (cases "pc_of t i \<in> {Create_report, Remov_report, Create_wait_ni}")
    case False
    with step_effect [OF sh i as inp st] have "kept s t" by (auto simp: appended_def removed_def)
    moreover have "at_pc (pc_of t i) (lnodes s) (l_heap t) (l_thr t i)"
    proof (cases "kind i")
      case Inserter
      with st have c: "create i r a s = Some (Inr t)" by (simp add: thread_def)
      with False have "pc_of s i \<notin> {Create_new, Create_first, Create_link}"
        by (auto simp: create_def Let_def list_defs split: option.splits)
      with create_own [OF l at c] show ?thesis by blast
    next
      case Searcher
      with st find_own [OF l at] show ?thesis by (simp add: thread_def)
    next
      case Deleter
      with st remov_own [OF l at] False show ?thesis by (simp add: thread_def)
    qed
    ultimately show ?thesis by (simp add: lnodes_kept)
  qed auto
  with thread_kind [OF st] show ?thesis by (simp add: list_asrt_def)
qed

interpretation safe_list: owicki_gries n "\<lambda>s. safe_config n kind \<and> s = initialize kind" "list_step kind"
  "\<lambda>s. safe_config n kind \<and> list_shared n s" "list_asrt kind" for n kind
proof
  fix s i assume s: "safe_config n kind \<and> s = initialize kind"
  then have "lseg (l_heap s) (l_head s) [] None" by (simp add: initialize_def)
  then have ps: "lnodes s = []" by (rule lnodes_eq)
  have "\<not> pending (start_pc k)" for k by (cases k) auto
  with s ps ni.balance_start [of s kind n] show "safe_config n kind \<and> list_shared n s"
    by (simp only: list_shared_def) (simp add: initialize_def)
  have "at_pc (start_pc k) [] h t" for k h t by (cases k) auto
  with s ps show "list_asrt kind i s" by (simp add: list_asrt_def initialize_def)
qed (use list_keeps_shared list_keeps_own list_interference_free in blast)+

lemma list_reach_inv:
  assumes "safe_config n kind" and "list_reach n kind s"
  shows "list_shared n s" and "i < n \<Longrightarrow> list_asrt kind i s"
proof -
  from assms have "reach (\<lambda>s. safe_config n kind \<and> s = initialize kind) (interleave n (list_step kind)) s"
    by simp
  from safe_list.program.reach_inv [OF this] show "list_shared n s" and "i < n \<Longrightarrow> list_asrt kind i s" by auto
qed

text \<open>No program point dereferences a pointer that its assertion does not cover.\<close>

lemma no_fault:
  assumes sh: "list_shared n s" and as: "list_asrt kind i s" shows "\<not> list_fault kind i s"
proof
  let ?ps = "lnodes s" and ?t = "l_thr s i"
  assume "list_fault kind i s"
  then obtain r p where st: "thread kind i r (Some p) s = Some (Inl Wild)" by (auto simp: list_fault_def)
  from as have k: "kind_of (pc_of s i) = kind i" and at: "at_pc (pc_of s i) ?ps (l_heap s) ?t"
    by (auto simp: list_asrt_def)
  have al: "\<exists>n. l_heap s c = Some n" if "c \<in> set ?ps" for c using shared_alloc [OF sh that] by blast
  have hd: "\<exists>n. l_heap s c = Some n" if "l_head s = Some c" for c
    using sh that al by (cases ?ps) (auto simp: list_shared_def)
  show False
  proof (cases "pc_of s i = Remov_loop")
    case True
    with st k obtain c where c: "th_cur ?t = Some c" by (cases "th_cur ?t") (auto simp: thread_defs)
    with True at obtain xs ys where ps: "?ps = xs @ c # ys" "th_prev ?t = Some (if xs = [] then c else last xs)" by auto
    then have "c \<in> set ?ps" "(if xs = [] then c else last xs) \<in> set ?ps" by auto
    with al obtain n m where "l_heap s c = Some n" "l_heap s (if xs = [] then c else last xs) = Some m" by metis
    with True st k c ps(2) show False
      by (auto simp: thread_defs unlink_def deref_def map_sum_def split: if_splits)
  next
    case False
    have free: "l_heap s c = None \<Longrightarrow> c \<notin> set ?ps" "l_heap s c = None \<Longrightarrow> l_head s \<noteq> Some c" for c
      using al hd by force+
    with False st k at show False
      by (cases "pc_of s i") (auto simp: thread_defs dest: free split: if_splits option.splits)
  qed
qed

end
