(* ===== verification/Search_List_Props.thy ===== *)
theory Search_List_Props
  imports Search_List_Inv
begin

text \<open>
  Properties of the shared list. The semaphores give mutual exclusion and no deadlock for any
  number of threads. Where no deleter runs beside another deleter or a searcher, the list is well
  formed at every moment, no thread touches freed memory, and the list changes only by appending a
  new value or by removing the first occurrence of one. With the threads that \<open>main\<close> starts a
  searcher reads freed memory, because it reads \<open>lst->head\<close> before it waits for its semaphore.
\<close>

subsection \<open>The values of the list\<close>

text \<open>The list holds the values \<open>vs\<close>.\<close>

definition holds_list :: "list_sys \<Rightarrow> int list \<Rightarrow> bool" where
  "holds_list s vs \<longleftrightarrow> (\<exists>ps. lseg (l_heap s) (l_head s) ps None \<and> map (datum (l_heap s)) ps = vs)"

lemma shared_holds: "list_shared n s \<Longrightarrow> holds_list s vs \<longleftrightarrow> map (datum (l_heap s)) (lnodes s) = vs"
  unfolding holds_list_def list_shared_def using lnodes_eq by metis

lemma remove1_middle:
  assumes "f c = v" and "\<forall>x \<in> set xs. f x \<noteq> v"
  shows "map f (xs @ ys) = remove1 v (map f (xs @ c # ys))"
  using assms by (induction xs) auto

lemma list_step_holds:
  assumes sh: "list_shared n s" and i: "i < n" and as: "list_asrt kind i s" and step: "list_step kind i s t"
    and vs: "holds_list s vs"
  shows "holds_list t vs \<or> kind i = Inserter \<and> holds_list t (vs @ [th_val (l_thr s i)]) \<or>
    kind i = Deleter \<and> th_val (l_thr s i) \<in> set vs \<and> holds_list t (remove1 (th_val (l_thr s i)) vs)"
proof -
  from step obtain r a where inp: "inputs s r a" and st: "thread kind i r a s = Some (Inr t)"
    by (auto simp: list_step_iff)
  note v = shared_holds [OF sh, of vs, THEN iffD1, OF vs, symmetric]
  from as have k: "kind i = kind_of (pc_of s i)" by (simp add: list_asrt_def)
  from step_effect [OF sh i as inp st] show ?thesis
  proof (elim disjE)
    assume ke: "kept s t"
    have "datum (l_heap t) x = datum (l_heap s) x" if "x \<in> set (lnodes s)" for x
      using ke by (auto simp: kept_def datum_def intro: shared_alloc [OF sh that])
    with ke show ?thesis by (auto simp: kept_def holds_list_def v intro!: exI [of _ "lnodes s"])
  next
    assume ap: "appended s i t"
    then have "holds_list t (vs @ [th_val (l_thr s i)])"
      unfolding appended_def holds_list_def v by (metis (no_types, lifting) list.simps(8,9) map_append map_cong)
    moreover from ap k have "kind i = Inserter" by (auto simp: appended_def)
    ultimately show ?thesis by blast
  next
    assume re: "removed s i t"
    then obtain xs c ys where re': "lnodes s = xs @ c # ys" "lseg (l_heap t) (l_head t) (xs @ ys) None"
      "datum (l_heap s) c = th_val (l_thr s i)" "\<forall>x \<in> set xs. datum (l_heap s) x \<noteq> th_val (l_thr s i)"
      "\<forall>x. x \<noteq> c \<longrightarrow> datum (l_heap t) x = datum (l_heap s) x" by (auto simp: removed_def)
    from sh re'(1) lseg_distinct have "c \<notin> set (xs @ ys)" by (fastforce simp: list_shared_def)
    with re'(5) have "map (datum (l_heap t)) (xs @ ys) = map (datum (l_heap s)) (xs @ ys)" by (intro map_cong) auto
    also have "\<dots> = remove1 (th_val (l_thr s i)) vs"
      using remove1_middle [of "datum (l_heap s)" c _ xs ys] re'(3,4) by (simp add: v re'(1))
    finally have "holds_list t (remove1 (th_val (l_thr s i)) vs)" using re'(2) holds_list_def by blast
    moreover have "th_val (l_thr s i) \<in> set vs" using re'(1,3) by (auto simp: v)
    moreover from re k have "kind i = Deleter" by (auto simp: removed_def)
    ultimately show ?thesis by blast
  qed
qed

text \<open>Runs of the program given by a schedule: the thread, what \<open>rand\<close> and what \<open>malloc\<close> return.\<close>

fun run_list :: "(nat \<Rightarrow> lkind) \<Rightarrow> (nat \<times> int \<times> nat option) list \<Rightarrow> list_sys \<Rightarrow> list_sys option" where
  "run_list kind [] s = Some s"
| "run_list kind ((i, r, a) # w) s =
     (if inputs s r a then (case thread kind i r a s of Some (Inr t) \<Rightarrow> run_list kind w t | _ \<Rightarrow> None) else None)"

lemma run_list_reach:
  assumes "run_list kind w s = Some t" and "\<forall>x \<in> set w. fst x < n" and "list_reach n kind s"
  shows "list_reach n kind t"
  using assms
proof (induction w arbitrary: s)
  case (Cons x w)
  obtain i r a where x: "x = (i, r, a)" by (cases x)
  with Cons.prems(1) obtain s' where s': "inputs s r a" "thread kind i r a s = Some (Inr s')" "run_list kind w s' = Some t"
    by (auto split: if_splits option.splits sum.splits)
  then have "list_step kind i s s'" by (intro list_run)
  with Cons.prems(2) x have "interleave n (list_step kind) s s'" by (auto simp: interleave_def)
  with Cons.prems(3) have "list_reach n kind s'" by (rule reach_step)
  with Cons s'(3) show ?case by simp
qed simp

definition one_insert :: "nat \<Rightarrow> int \<Rightarrow> nat \<Rightarrow> (nat \<times> int \<times> nat option) list" where
  "one_insert i r p = (i, r, Some p) # replicate 9 (i, 0, None)"

definition stale_run :: "(nat \<times> int \<times> nat option) list" where
  "stale_run = one_insert 0 2 100 @ [(2, 0, None), (4, 2, None)] @ replicate 7 (4, 0, None) @ [(2, 0, None)]"

lemma stale_run_faults:
  "(case run_list main_kind stale_run (initialize main_kind) of None \<Rightarrow> False
    | Some s \<Rightarrow> inputs s 0 (Some 7) \<and> (case thread main_kind 2 0 (Some 7) s of Some (Inl Wild) \<Rightarrow> True | _ \<Rightarrow> False))"
  by code_simp

lemma initial_reach: "list_reach n kind (initialize kind)"
  by (simp add: reach_init)

text \<open>
  C15: Where a deleter runs beside inserters only, or there is no deleter, the shared list is a
  linearisable queue. In every reachable state the list is well formed, no thread accesses \<open>NULL\<close>
  or freed memory, and every step of every thread leaves the values of the list alone, appends the
  inserter's value, or removes the first occurrence of the deleter's value.
\<close>

theorem list_linearizes:
  assumes "safe_config n kind" and "list_reach n kind s"
  shows "\<exists>vs. holds_list s vs \<and> (\<forall>i < n. \<not> list_fault kind i s \<and> (\<forall>t. list_step kind i s t \<longrightarrow>
    holds_list t vs \<or> kind i = Inserter \<and> holds_list t (vs @ [th_val (l_thr s i)]) \<or>
    kind i = Deleter \<and> th_val (l_thr s i) \<in> set vs \<and> holds_list t (remove1 (th_val (l_thr s i)) vs)))"
proof -
  note inv = list_reach_inv [OF assms]
  have h: "holds_list s (map (datum (l_heap s)) (lnodes s))" using inv(1) by (simp add: shared_holds)
  with list_step_holds [OF inv(1) _ inv(2)] no_fault [OF inv(1) inv(2)] show ?thesis
    by (intro exI [of _ "map (datum (l_heap s)) (lnodes s)"]) blast
qed

text \<open>An inserter and a deleter, after one round of the inserter.\<close>

definition demo_kind :: "nat \<Rightarrow> lkind" where
  "demo_kind i = (if i = 0 then Inserter else Deleter)"

definition demo_list :: list_sys where
  "demo_list = the (run_list demo_kind (one_insert 0 2 100) (initialize demo_kind))"

lemma demo_runs: "run_list demo_kind (one_insert 0 2 100) (initialize demo_kind) \<noteq> None"
proof -
  have "(case run_list demo_kind (one_insert 0 2 100) (initialize demo_kind) of None \<Rightarrow> False | Some _ \<Rightarrow> True)"
    by code_simp
  then show ?thesis by (auto split: option.splits)
qed

lemma demo_reach: "list_reach 2 demo_kind demo_list"
proof (rule run_list_reach)
  show "run_list demo_kind (one_insert 0 2 100) (initialize demo_kind) = Some demo_list"
    using demo_runs by (simp add: demo_list_def)
qed (auto simp: one_insert_def initial_reach)

theorem list_linearizes_witness:
  "safe_config 2 demo_kind \<and> list_reach 2 demo_kind demo_list \<and>
    (\<exists>vs. holds_list demo_list vs \<and> \<not> list_fault demo_kind 0 demo_list \<and> \<not> list_fault demo_kind 1 demo_list)"
proof -
  have safe: "safe_config 2 demo_kind" by (auto simp: safe_config_def demo_kind_def)
  from list_linearizes [OF this demo_reach] show ?thesis using safe demo_reach by fastforce
qed

text \<open>
  C21: The semaphores do their work for any set of threads. No two threads are in sections that the
  same semaphore guards, so a deleter that changes the list runs beside no searcher, inserter or
  other deleter at work on it; and there is always a thread that can run.
\<close>

theorem list_excludes:
  assumes "list_reach n kind s"
  shows "(\<forall>i < n. \<forall>j < n. i \<noteq> j \<longrightarrow> \<not> (in_ns (pc_of s i) \<and> in_ns (pc_of s j)) \<and>
      \<not> (in_ni (pc_of s i) \<and> in_ni (pc_of s j)) \<and> \<not> (in_in (pc_of s i) \<and> in_in (pc_of s j))) \<and>
    (0 < n \<longrightarrow> (\<exists>i < n. \<forall>r a. thread kind i r a s \<noteq> None))"
proof -
  from kinds.reach_inv [OF assms] have "thread kind i r a s = None \<longleftrightarrow> blocked (pc_of s i) s" for i r a
    by (intro thread_blocked) blast
  moreover note ns.exclusive [OF assms] ni.exclusive [OF assms] ins.exclusive [OF assms] some_thread_runs [OF assms]
  ultimately show ?thesis by blast
qed

theorem list_excludes_witness:
  "list_reach 6 main_kind (initialize main_kind) \<and> (\<exists>i < 6. \<forall>r a. thread main_kind i r a (initialize main_kind) \<noteq> None)"
  using list_excludes [OF initial_reach, of 6 main_kind] by (simp add: initial_reach)

text \<open>
  C23: The six threads that \<open>main\<close> starts reach a state in which a searcher dereferences freed
  memory: it has read \<open>lst->head\<close> before waiting for \<open>no_searcher\<close>, and a deleter has freed that node
  in the meantime.
\<close>

theorem list_use_after_free:
  "\<exists>s. list_reach main_threads main_kind s \<and> list_fault main_kind 2 s"
proof -
  from stale_run_faults obtain s where s: "run_list main_kind stale_run (initialize main_kind) = Some s"
    "inputs s 0 (Some 7)" "thread main_kind 2 0 (Some 7) s = Some (Inl Wild)"
    by (auto split: option.splits sum.splits fault.splits)
  from run_list_reach [OF s(1) _ initial_reach, of main_threads] have "list_reach main_threads main_kind s"
    by (auto simp: stale_run_def one_insert_def main_threads_def)
  with s(2,3) show ?thesis unfolding list_fault_def by blast
qed

end
