(* ===== verification/Producer.thy ===== *)
theory Producer
  imports Threads Mersenne
begin

text \<open>
  The producer/consumer program \<open>assignments/a1/producer.c\<close>: the buffer, the random items, the
  consumer and producer threads and \<open>main\<close>. A step of a thread is one statement that reads or
  writes shared data, or one call of the thread library; \<open>None\<close> means that it blocks, \<open>Inl Wild\<close>
  that it indexes the array out of bounds. What \<open>cpuid\<close> and \<open>rdrand\<close> answer and what the
  uninitialised variable \<open>seed\<close> holds are inputs of \<open>random_gen\<close>.
\<close>

unbundle bit_operations_syntax

subsection \<open>Random items\<close>

record buff_item =
  b_item :: int
  b_wait :: int

text \<open>The answers of the machine: \<open>ecx\<close> of \<open>cpuid\<close>, the number that \<open>rdrand\<close> stores, the word in \<open>seed\<close>.\<close>

record machine =
  cpuid_ecx :: "32 word"
  rdrand :: "32 word"
  seed :: "64 word"

text \<open>\<open>abs\<close> of an \<open>unsigned long\<close>: the argument is converted to \<open>int\<close> and the result back.\<close>

definition abs_int :: "64 word \<Rightarrow> 64 word" where
  "abs_int w = (let i = (ucast w :: 32 word) in scast (if sint i < 0 then - i else i))"

definition random_gen :: "machine \<Rightarrow> mt_state \<Rightarrow> 64 word \<times> mt_state" where
  "random_gen g st =
     (if cpuid_ecx g AND 0x40000000 \<noteq> 0 then (ucast (rdrand g), st)
      else (let (w, st') = genrand_int32 (init_genrand (seed g) st) in (abs_int w, st')))"

definition produce_item :: "machine \<Rightarrow> machine \<Rightarrow> mt_state \<Rightarrow> buff_item \<times> mt_state" where
  "produce_item g g' st =
     (let (w, st1) = random_gen g st; (v, st2) = random_gen g' st1
      in (\<lparr>b_item = uint (v mod 50 + 1), b_wait = uint (w mod 8 + 2)\<rparr>, st2))"

subsection \<open>State\<close>

text \<open>Where a thread is; the names give the function and the statement that comes next.\<close>

datatype ppc =
    Not_started
  | Cons_test | Cons_show | Cons_sleep | Cons_consumed | Cons_lock | Cons_item | Cons_wait | Cons_dec
  | Cons_signal | Cons_unlock
  | Prod_sleep | Prod_lock | Prod_while | Prod_asleep | Prod_relock | Prod_store | Prod_inc | Prod_show | Prod_unlock
  | Exited

datatype mpc = Main_loop | Main_create | Main_join_producer | Main_join_consumer | Main_done

datatype prod_event = Cons_sleeping int | Consumed int int | Prod_sleeping int | Produced int int

record prod_sys =
  p_items :: "buff_item list"
  p_last :: int
  p_lock :: mutex
  p_pc :: "nat \<Rightarrow> ppc"
  p_main :: mpc
  p_i :: int
  p_started :: nat
  p_mt :: mt_state
  p_out :: "prod_event list"

definition BUFSIZE :: nat where "BUFSIZE = 32"

definition empty_item :: buff_item where "empty_item = \<lparr>b_item = 0, b_wait = 0\<rparr>"

text \<open>\<open>main\<close> up to the creation of threads.\<close>

definition prod_init :: prod_sys where
  "prod_init = \<lparr>p_items = replicate BUFSIZE empty_item, p_last = -1, p_lock = None, p_pc = (\<lambda>_. Not_started),
     p_main = Main_loop, p_i = 0, p_started = 0, p_mt = mt_start, p_out = []\<rparr>"

subsection \<open>Steps\<close>

definition go_pc :: "nat \<Rightarrow> ppc \<Rightarrow> prod_sys \<Rightarrow> prod_sys" where
  "go_pc k p s = s\<lparr>p_pc := (p_pc s)(k := p)\<rparr>"

definition emit :: "prod_event \<Rightarrow> prod_sys \<Rightarrow> prod_sys" where
  "emit e s = s\<lparr>p_out := p_out s @ [e]\<rparr>"

text \<open>\<open>buffer.items[j]\<close>, read and written.\<close>

definition in_buffer :: "int \<Rightarrow> bool" where
  "in_buffer j \<longleftrightarrow> 0 \<le> j \<and> j < int BUFSIZE"

definition with_item :: "int \<Rightarrow> prod_sys \<Rightarrow> (buff_item \<Rightarrow> prod_sys) \<Rightarrow> prod_sys result option" where
  "with_item j s f = Some (if in_buffer j then Inr (f (p_items s ! nat j)) else Inl Wild)"

definition set_item :: "int \<Rightarrow> buff_item \<Rightarrow> prod_sys \<Rightarrow> prod_sys" where
  "set_item j b s = s\<lparr>p_items := (p_items s)[nat j := b]\<rparr>"

text \<open>The consumer; \<open>w\<close> is the waiting producer that \<open>pthread_cond_signal\<close> wakes, if any.\<close>

definition consumer :: "nat \<Rightarrow> nat option \<Rightarrow> prod_sys \<Rightarrow> prod_sys result option" where
  "consumer k w s =
     (case p_pc s k of
        Cons_test \<Rightarrow> Some (Inr (go_pc k (if p_last s > -1 then Cons_show else Cons_test) s))
      | Cons_show \<Rightarrow> with_item (p_last s) s (\<lambda>b. go_pc k Cons_sleep (emit (Cons_sleeping (b_wait b)) s))
      | Cons_sleep \<Rightarrow> with_item (p_last s) s (\<lambda>b. go_pc k Cons_consumed s)
      | Cons_consumed \<Rightarrow> with_item (p_last s) s (\<lambda>b. go_pc k Cons_lock (emit (Consumed (b_item b) (b_wait b)) s))
      | Cons_lock \<Rightarrow> map_option (\<lambda>m. Inr (go_pc k Cons_item (s\<lparr>p_lock := m\<rparr>))) (mutex_lock k (p_lock s))
      | Cons_item \<Rightarrow> with_item (p_last s) s (\<lambda>b. go_pc k Cons_wait (set_item (p_last s) (b\<lparr>b_item := 0\<rparr>) s))
      | Cons_wait \<Rightarrow> with_item (p_last s) s (\<lambda>b. go_pc k Cons_dec (set_item (p_last s) (b\<lparr>b_wait := 0\<rparr>) s))
      | Cons_dec \<Rightarrow> Some (Inr (go_pc k Cons_signal (s\<lparr>p_last := p_last s - 1\<rparr>)))
      | Cons_signal \<Rightarrow> Some (Inr (go_pc k Cons_unlock (case w of None \<Rightarrow> s | Some t \<Rightarrow> go_pc t Prod_relock s)))
      | Cons_unlock \<Rightarrow> Some (Inr (go_pc k Cons_test (s\<lparr>p_lock := None\<rparr>)))
      | _ \<Rightarrow> None)"

text \<open>
  The producer. \<open>pthread_cond_wait\<close> releases the lock and sleeps (\<open>Prod_asleep\<close>) until it is woken,
  then takes the lock again.
\<close>

definition producer :: "nat \<Rightarrow> machine \<Rightarrow> machine \<Rightarrow> prod_sys \<Rightarrow> prod_sys result option" where
  "producer k g g' s =
     (case p_pc s k of
        Prod_sleep \<Rightarrow>
          (let (w, st) = random_gen g (p_mt s)
           in Some (Inr (go_pc k Prod_lock (emit (Prod_sleeping (uint (w mod 5 + 3))) (s\<lparr>p_mt := st\<rparr>)))))
      | Prod_lock \<Rightarrow> map_option (\<lambda>m. Inr (go_pc k Prod_while (s\<lparr>p_lock := m\<rparr>))) (mutex_lock k (p_lock s))
      | Prod_while \<Rightarrow> Some (Inr
          (if p_last s = 31 then go_pc k Prod_asleep (s\<lparr>p_lock := None\<rparr>) else go_pc k Prod_store s))
      | Prod_relock \<Rightarrow> map_option (\<lambda>m. Inr (go_pc k Prod_while (s\<lparr>p_lock := m\<rparr>))) (mutex_lock k (p_lock s))
      | Prod_store \<Rightarrow>
          (let (b, st) = produce_item g g' (p_mt s)
           in with_item (p_last s + 1) s (\<lambda>_. go_pc k Prod_inc (set_item (p_last s + 1) b (s\<lparr>p_mt := st\<rparr>))))
      | Prod_inc \<Rightarrow> Some (Inr (go_pc k Prod_show (s\<lparr>p_last := p_last s + 1\<rparr>)))
      | Prod_show \<Rightarrow> with_item (p_last s) s (\<lambda>b. go_pc k Prod_unlock (emit (Produced (b_item b) (b_wait b)) s))
      | Prod_unlock \<Rightarrow> Some (Inr (go_pc k Prod_sleep (s\<lparr>p_lock := None\<rparr>)))
      | _ \<Rightarrow> None)"

text \<open>
  \<open>main\<close>: the loop of lines 71 to 78. Round \<open>i\<close> creates the consumer as thread \<open>2 i\<close> and the producer
  as thread \<open>2 i + 1\<close>, and joins both before the next round.
\<close>

definition main_step :: "int \<Rightarrow> prod_sys \<Rightarrow> prod_sys option" where
  "main_step num_threads s =
     (let c = nat (2 * p_i s); p = c + 1 in
      case p_main s of
        Main_loop \<Rightarrow>
          Some (if p_i s < num_threads
                then go_pc c Cons_test (s\<lparr>p_started := p_started s + 1, p_main := Main_create\<rparr>)
                else s\<lparr>p_main := Main_done\<rparr>)
      | Main_create \<Rightarrow>
          Some (go_pc p Prod_sleep (s\<lparr>p_started := p_started s + 1, p_main := Main_join_producer\<rparr>))
      | Main_join_producer \<Rightarrow> (if p_pc s p = Exited then Some (s\<lparr>p_main := Main_join_consumer\<rparr>) else None)
      | Main_join_consumer \<Rightarrow>
          (if p_pc s c = Exited then Some (s\<lparr>p_main := Main_loop, p_i := p_i s + 1\<rparr>) else None)
      | Main_done \<Rightarrow> None)"

text \<open>\<open>argc <= 1\<close> gives two pairs of threads, otherwise \<open>atoi(argv[1])\<close>.\<close>

definition num_threads_of :: "int option \<Rightarrow> int" where
  "num_threads_of arg = (case arg of None \<Rightarrow> 2 | Some n \<Rightarrow> n)"

definition sleepers :: "prod_sys \<Rightarrow> nat list" where
  "sleepers s = filter (\<lambda>k. p_pc s k = Prod_asleep) [0 ..< p_started s]"

definition wakes :: "prod_sys \<Rightarrow> nat option \<Rightarrow> bool" where
  "wakes s w \<longleftrightarrow> (case w of None \<Rightarrow> sleepers s = [] | Some t \<Rightarrow> t \<in> set (sleepers s))"

text \<open>The program: \<open>main\<close>, the threads, and wake-ups without a signal, which the library allows.\<close>

inductive prod_step :: "int \<Rightarrow> prod_sys \<Rightarrow> prod_sys \<Rightarrow> bool" for n :: int where
  step_main: "main_step n s = Some t \<Longrightarrow> prod_step n s t"
| step_consumer: "wakes s w \<Longrightarrow> consumer k w s = Some (Inr t) \<Longrightarrow> prod_step n s t"
| step_producer: "producer k g g' s = Some (Inr t) \<Longrightarrow> prod_step n s t"
| step_spurious: "p_pc s k = Prod_asleep \<Longrightarrow> prod_step n s (go_pc k Prod_relock s)"

abbreviation prod_reach :: "int \<Rightarrow> prod_sys \<Rightarrow> bool" where
  "prod_reach n \<equiv> reach (\<lambda>s. s = prod_init) (prod_step n)"

end
