(* ===== verification/Producer_Props.thy ===== *)
theory Producer_Props
  imports Producer
begin

text \<open>
  Properties of the producer/consumer program: the ranges of the random items, the buffer as a stack
  that no thread indexes out of bounds, no lost wake-up and no deadlock, and two things that go
  wrong: \<open>main\<close> never starts a second pair of threads, and the consumer reports an item that it does
  not remove.
\<close>

subsection \<open>Random items\<close>

definition valid_item :: "buff_item \<Rightarrow> bool" where
  "valid_item b \<longleftrightarrow> 1 \<le> b_item b \<and> b_item b \<le> 50 \<and> 2 \<le> b_wait b \<and> b_wait b \<le> 9"

lemma uint_mod_range:
  fixes w :: "64 word"
  assumes "0 < m" and "m < 2 ^ 32" and "0 \<le> a" and "a < 2 ^ 32"
  shows "a \<le> uint (w mod word_of_int m + word_of_int a) \<and> uint (w mod word_of_int m + word_of_int a) < m + a"
proof -
  have m: "uint (word_of_int m :: 64 word) = m" "uint (word_of_int a :: 64 word) = a"
    using assms by (simp_all add: uint_word_of_int take_bit_int_eq_self_iff)
  then have r: "0 \<le> uint (w mod word_of_int m)" "uint (w mod word_of_int m) < m"
    using assms(1) by (simp_all add: uint_mod_distrib)
  then have "uint (w mod word_of_int m + word_of_int a) = uint (w mod word_of_int m) + a"
    using assms m(2) by (subst uint_add_lem [THEN iffD1]) auto
  with r show ?thesis by simp
qed

lemma produce_item_valid: "valid_item (fst (produce_item g g' st))"
proof -
  obtain w st1 where w: "random_gen g st = (w, st1)" by fastforce
  obtain v st2 where v: "random_gen g' st1 = (v, st2)" by fastforce
  have "fst (produce_item g g' st) = \<lparr>b_item = uint (v mod 50 + 1), b_wait = uint (w mod 8 + 2)\<rparr>"
    by (simp add: produce_item_def w v)
  with uint_mod_range [of 50 1 v] uint_mod_range [of 8 2 w] show ?thesis by (simp add: valid_item_def)
qed

subsection \<open>Invariant\<close>

fun is_cons :: "ppc \<Rightarrow> bool" where
  "is_cons Cons_test = True" | "is_cons Cons_show = True" | "is_cons Cons_sleep = True" | "is_cons Cons_consumed = True"
| "is_cons Cons_lock = True" | "is_cons Cons_item = True" | "is_cons Cons_wait = True" | "is_cons Cons_dec = True"
| "is_cons Cons_signal = True" | "is_cons Cons_unlock = True" | "is_cons _ = False"

fun is_prod :: "ppc \<Rightarrow> bool" where
  "is_prod Prod_sleep = True" | "is_prod Prod_lock = True" | "is_prod Prod_while = True" | "is_prod Prod_asleep = True"
| "is_prod Prod_relock = True" | "is_prod Prod_store = True" | "is_prod Prod_inc = True" | "is_prod Prod_show = True"
| "is_prod Prod_unlock = True" | "is_prod _ = False"

text \<open>Points at which a thread holds the lock, relies on a nonempty buffer, or has begun to clear the top.\<close>

fun cons_locked :: "ppc \<Rightarrow> bool" where
  "cons_locked Cons_item = True" | "cons_locked Cons_wait = True" | "cons_locked Cons_dec = True"
| "cons_locked Cons_signal = True" | "cons_locked Cons_unlock = True" | "cons_locked _ = False"

fun prod_locked :: "ppc \<Rightarrow> bool" where
  "prod_locked Prod_while = True" | "prod_locked Prod_store = True" | "prod_locked Prod_inc = True"
| "prod_locked Prod_show = True" | "prod_locked Prod_unlock = True" | "prod_locked _ = False"

fun cons_needs :: "ppc \<Rightarrow> bool" where
  "cons_needs Cons_show = True" | "cons_needs Cons_sleep = True" | "cons_needs Cons_consumed = True"
| "cons_needs Cons_lock = True" | "cons_needs Cons_item = True" | "cons_needs Cons_wait = True"
| "cons_needs Cons_dec = True" | "cons_needs _ = False"

fun popped :: "ppc \<Rightarrow> bool" where
  "popped Cons_wait = True" | "popped Cons_dec = True" | "popped _ = False"

definition depth :: "prod_sys \<Rightarrow> nat" where
  "depth s = nat (p_last s + 1 - of_bool (popped (p_pc s 0)))"

text \<open>The items in the buffer. An item leaves it when the consumer begins to clear it.\<close>

definition stack :: "prod_sys \<Rightarrow> buff_item list" where
  "stack s = take (depth s) (p_items s)"

definition main_ok :: "int \<Rightarrow> prod_sys \<Rightarrow> bool" where
  "main_ok n s \<longleftrightarrow> p_i s = 0 \<and> (\<forall>k. 2 \<le> k \<longrightarrow> p_pc s k = Not_started) \<and>
     (case p_main s of
        Main_loop \<Rightarrow> p_started s = 0 \<and> p_pc s 0 = Not_started \<and> p_pc s 1 = Not_started
      | Main_create \<Rightarrow> p_started s = 1 \<and> is_cons (p_pc s 0) \<and> p_pc s 1 = Not_started
      | Main_join_producer \<Rightarrow> p_started s = 2 \<and> is_cons (p_pc s 0) \<and> is_prod (p_pc s 1)
      | Main_join_consumer \<Rightarrow> False
      | Main_done \<Rightarrow> p_started s = 0 \<and> p_pc s 0 = Not_started \<and> p_pc s 1 = Not_started \<and> n \<le> 0)"

definition lock_ok :: "prod_sys \<Rightarrow> bool" where
  "lock_ok s \<longleftrightarrow> \<not> (cons_locked (p_pc s 0) \<and> prod_locked (p_pc s 1)) \<and>
     p_lock s = (if cons_locked (p_pc s 0) then Some 0 else if prod_locked (p_pc s 1) then Some 1 else None)"

definition buf_ok :: "prod_sys \<Rightarrow> bool" where
  "buf_ok s \<longleftrightarrow> length (p_items s) = BUFSIZE \<and> -1 \<le> p_last s \<and> p_last s \<le> 31 \<and>
     (cons_needs (p_pc s 0) \<longrightarrow> 0 \<le> p_last s) \<and>
     (p_pc s 1 = Prod_store \<or> p_pc s 1 = Prod_inc \<longrightarrow> p_last s \<le> 30) \<and>
     (p_pc s 1 = Prod_show \<longrightarrow> 0 \<le> p_last s) \<and>
     (\<forall>j < depth s. valid_item (p_items s ! j)) \<and>
     (p_pc s 1 = Prod_inc \<longrightarrow> valid_item (p_items s ! nat (p_last s + 1)))"

definition wake_ok :: "prod_sys \<Rightarrow> bool" where
  "wake_ok s \<longleftrightarrow> (p_pc s 1 = Prod_asleep \<longrightarrow> p_last s = 31 \<or> p_pc s 0 = Cons_signal)"

definition prod_inv :: "int \<Rightarrow> prod_sys \<Rightarrow> bool" where
  "prod_inv n s \<longleftrightarrow> main_ok n s \<and> lock_ok s \<and> buf_ok s \<and> wake_ok s"

named_theorems prod_defs
declare go_pc_def [prod_defs] and emit_def [prod_defs] and set_item_def [prod_defs] and BUFSIZE_def [prod_defs]
  and in_buffer_def [prod_defs]

lemma consumer_is_0:
  assumes "main_ok n s" and "consumer k w s = Some r"
  shows "k = 0 \<and> is_cons (p_pc s 0)"
proof -
  have "is_cons (p_pc s k)" using assms(2) by (cases "p_pc s k") (auto simp: consumer_def)
  with assms(1) show ?thesis
    by (cases k; cases "k - 1") (auto simp: main_ok_def numeral_2_eq_2 split: mpc.splits elim: is_prod.elims)
qed

lemma producer_is_1:
  assumes "main_ok n s" and "producer k g g' s = Some r"
  shows "k = 1 \<and> is_prod (p_pc s 1)"
proof -
  have "is_prod (p_pc s k)" using assms(2) by (cases "p_pc s k") (auto simp: producer_def)
  with assms(1) show ?thesis
    by (cases k; cases "k - 1") (auto simp: main_ok_def numeral_2_eq_2 split: mpc.splits elim: is_cons.elims)
qed

lemma with_item_Inr [simp]:
  "with_item j s f = Some (Inr t) \<longleftrightarrow> in_buffer j \<and> t = f (p_items s ! nat j)"
  by (auto simp: with_item_def)

lemma with_item_Inl [simp]: "with_item j s f = Some (Inl e) \<longleftrightarrow> \<not> in_buffer j \<and> e = Wild"
  by (auto simp: with_item_def)

lemma wakes_cases:
  assumes "main_ok n s" and "wakes s w" and "is_cons (p_pc s 0)"
  shows "w = (if p_pc s 1 = Prod_asleep then Some 1 else None)"
proof -
  from assms(1) have "p_pc s 0 \<noteq> Prod_asleep" "p_started s \<le> 2" "p_pc s 1 = Prod_asleep \<Longrightarrow> p_started s = 2"
    using assms(3) by (auto simp: main_ok_def split: mpc.splits)
  then have "set (sleepers s) = (if p_pc s 1 = Prod_asleep then {1} else {})"
    by (auto simp: sleepers_def le_Suc_eq numeral_2_eq_2 less_Suc_eq)
  with assms(2) show ?thesis
    by (auto simp: wakes_def split: option.splits if_splits simp flip: set_empty)
qed

lemma consumer_cases:
  assumes "consumer 0 w s = Some (Inr t)" and "is_cons (p_pc s 0)"
  obtains (look) p out where "\<not> cons_locked (p_pc s 0)" "\<not> cons_locked p" "is_cons p" "p = Cons_test \<or> 0 \<le> p_last s"
      "t = s\<lparr>p_pc := (p_pc s)(0 := p), p_out := out\<rparr>"
  | (lock) "p_pc s 0 = Cons_lock" "p_lock s = None" "t = s\<lparr>p_pc := (p_pc s)(0 := Cons_item), p_lock := Some 0\<rparr>"
  | (clear) p b where "(p_pc s 0, p) \<in> {(Cons_item, Cons_wait), (Cons_wait, Cons_dec)}" "0 \<le> p_last s"
      "t = s\<lparr>p_pc := (p_pc s)(0 := p), p_items := (p_items s)[nat (p_last s) := b]\<rparr>"
  | (dec) "p_pc s 0 = Cons_dec" "t = s\<lparr>p_pc := (p_pc s)(0 := Cons_signal), p_last := p_last s - 1\<rparr>"
  | (signal) "p_pc s 0 = Cons_signal"
      "t = s\<lparr>p_pc := (case w of None \<Rightarrow> p_pc s | Some k \<Rightarrow> (p_pc s)(k := Prod_relock))(0 := Cons_unlock)\<rparr>"
  | (unlock) "p_pc s 0 = Cons_unlock" "t = s\<lparr>p_pc := (p_pc s)(0 := Cons_test), p_lock := None\<rparr>"
proof (cases "p_pc s 0")
  case Cons_test
  with assms show thesis
    by (intro look [of "if p_last s > -1 then Cons_show else Cons_test" "p_out s"])
      (auto simp: consumer_def prod_defs)
next
  case Cons_show
  with assms show thesis by (intro look [of Cons_sleep "p_out t"]) (auto simp: consumer_def prod_defs)
next
  case Cons_sleep
  with assms show thesis by (intro look [of Cons_consumed "p_out t"]) (auto simp: consumer_def prod_defs)
next
  case Cons_consumed
  with assms show thesis by (intro look [of Cons_lock "p_out t"]) (auto simp: consumer_def prod_defs)
next
  case Cons_item
  with assms show thesis
    by (intro clear [of Cons_wait "(p_items s ! nat (p_last s))\<lparr>b_item := 0\<rparr>"]) (auto simp: consumer_def prod_defs)
next
  case Cons_wait
  with assms show thesis
    by (intro clear [of Cons_dec "(p_items s ! nat (p_last s))\<lparr>b_wait := 0\<rparr>"]) (auto simp: consumer_def prod_defs)
next
  case Cons_lock
  with assms show thesis by (intro lock) (auto simp: consumer_def prod_defs)
next
  case Cons_dec
  with assms show thesis by (intro dec) (auto simp: consumer_def prod_defs)
next
  case Cons_signal
  with assms show thesis by (intro signal) (auto simp: consumer_def prod_defs split: option.splits)
next
  case Cons_unlock
  with assms show thesis by (intro unlock) (auto simp: consumer_def prod_defs)
qed (insert assms(2), simp_all only: is_cons.simps)

lemma locked_pcs:
  "cons_needs p \<Longrightarrow> is_cons p" "popped p \<Longrightarrow> cons_locked p" "\<not> prod_locked p \<Longrightarrow> p \<noteq> Prod_inc \<and> p \<noteq> Prod_store \<and> p \<noteq> Prod_show"
  by (cases p; simp)+

lemma consumer_main_lock:
  assumes "main_ok n s" "lock_ok s" and c: "consumer 0 w s = Some (Inr t)" "is_cons (p_pc s 0)"
    and w: "w = (if p_pc s 1 = Prod_asleep then Some 1 else None)"
  shows "main_ok n t \<and> lock_ok t"
  using c by (cases rule: consumer_cases; insert assms(1,2,4))
    (auto simp: main_ok_def lock_ok_def w split: mpc.splits)

lemma consumer_buf_ok:
  assumes "lock_ok s" "buf_ok s" and c: "consumer 0 w s = Some (Inr t)" "is_cons (p_pc s 0)"
    and w: "w = (if p_pc s 1 = Prod_asleep then Some 1 else None)"
  shows "buf_ok t"
  using c
proof (cases rule: consumer_cases)
  case (look p out)
  then have "\<not> popped p" "\<not> popped (p_pc s 0)" using locked_pcs(2) by blast+
  with look assms(2) show ?thesis by (cases p) (auto simp: buf_ok_def depth_def)
next
  case lock
  with assms(1,2) show ?thesis by (auto simp: buf_ok_def depth_def)
next
  case (clear p b)
  then have "\<not> prod_locked (p_pc s 1)" using assms(1) by (auto simp: lock_ok_def)
  note pc1 = locked_pcs(3) [OF this]
  with clear assms(2) show ?thesis by (auto simp: buf_ok_def depth_def nth_list_update)
next
  case dec
  then have "\<not> prod_locked (p_pc s 1)" using assms(1) by (auto simp: lock_ok_def)
  note pc1 = locked_pcs(3) [OF this]
  with dec assms(2) show ?thesis by (auto simp: buf_ok_def depth_def)
next
  case signal
  with assms(2) show ?thesis by (auto simp: buf_ok_def depth_def w)
next
  case unlock
  with assms(2) show ?thesis by (auto simp: buf_ok_def depth_def)
qed

lemma consumer_wake_ok:
  assumes "wake_ok s" and c: "consumer 0 w s = Some (Inr t)" "is_cons (p_pc s 0)"
    and w: "w = (if p_pc s 1 = Prod_asleep then Some 1 else None)"
  shows "wake_ok t"
  using c by (cases rule: consumer_cases; insert assms(1)) (auto simp: wake_ok_def w)

lemma consumer_stack:
  assumes "buf_ok s" and c: "consumer 0 w s = Some (Inr t)" "is_cons (p_pc s 0)"
  shows "stack t = stack s \<or> stack s \<noteq> [] \<and> stack t = butlast (stack s)"
  using c
proof (cases rule: consumer_cases)
  case (look p out)
  then have "\<not> popped p" "\<not> popped (p_pc s 0)" using locked_pcs(2) by blast+
  with look show ?thesis by (simp add: stack_def depth_def)
next
  case (clear p b)
  show ?thesis
  proof (cases "p_pc s 0 = Cons_item")
    case True
    with clear assms(1) have "stack t = take (nat (p_last s)) (p_items s)" "stack s = take (nat (p_last s) + 1) (p_items s)"
        "nat (p_last s) < length (p_items s)"
      by (auto simp: stack_def depth_def buf_ok_def BUFSIZE_def nat_add_distrib)
    then show ?thesis by (auto simp: butlast_take)
  next
    case False
    with clear show ?thesis by (auto simp: stack_def depth_def)
  qed
qed (auto simp: stack_def depth_def split: option.splits)

lemma producer_cases:
  assumes "producer 1 g g' s = Some (Inr t)" and "is_prod (p_pc s 1)"
  obtains (sleep) st out where "p_pc s 1 = Prod_sleep" "t = s\<lparr>p_pc := (p_pc s)(1 := Prod_lock), p_mt := st, p_out := out\<rparr>"
  | (lock) "p_pc s 1 = Prod_lock \<or> p_pc s 1 = Prod_relock" "p_lock s = None"
      "t = s\<lparr>p_pc := (p_pc s)(1 := Prod_while), p_lock := Some 1\<rparr>"
  | (full) "p_pc s 1 = Prod_while" "p_last s = 31" "t = s\<lparr>p_pc := (p_pc s)(1 := Prod_asleep), p_lock := None\<rparr>"
  | (room) "p_pc s 1 = Prod_while" "p_last s \<noteq> 31" "t = s\<lparr>p_pc := (p_pc s)(1 := Prod_store)\<rparr>"
  | (store) b st where "p_pc s 1 = Prod_store" "valid_item b"
      "t = s\<lparr>p_pc := (p_pc s)(1 := Prod_inc), p_items := (p_items s)[nat (p_last s + 1) := b], p_mt := st\<rparr>"
  | (inc) "p_pc s 1 = Prod_inc" "t = s\<lparr>p_pc := (p_pc s)(1 := Prod_show), p_last := p_last s + 1\<rparr>"
  | (report) out where "p_pc s 1 = Prod_show" "t = s\<lparr>p_pc := (p_pc s)(1 := Prod_unlock), p_out := out\<rparr>"
  | (unlock) "p_pc s 1 = Prod_unlock" "t = s\<lparr>p_pc := (p_pc s)(1 := Prod_sleep), p_lock := None\<rparr>"
proof (cases "p_pc s 1")
  case Prod_sleep
  obtain w st where "random_gen g (p_mt s) = (w, st)" by fastforce
  with Prod_sleep assms show thesis by (intro sleep [of "p_out t" st]) (auto simp: producer_def prod_defs)
next
  case Prod_store
  obtain b st where b: "produce_item g g' (p_mt s) = (b, st)" by fastforce
  with produce_item_valid [of g g' "p_mt s"] have "valid_item b" by simp
  with b Prod_store assms show thesis by (intro store [of b st]) (auto simp: producer_def prod_defs)
next
  case Prod_show
  with assms show thesis by (intro report [of "p_out t"]) (auto simp: producer_def prod_defs)
next
  case Prod_while
  with assms show thesis by (cases "p_last s = 31") (auto simp: producer_def prod_defs intro: full room)
next
  case Prod_inc
  with assms show thesis by (intro inc) (auto simp: producer_def prod_defs)
next
  case Prod_unlock
  with assms show thesis by (intro unlock) (auto simp: producer_def prod_defs)
next
  case Prod_lock
  with assms show thesis by (intro lock) (auto simp: producer_def prod_defs)
next
  case Prod_relock
  with assms show thesis by (intro lock) (auto simp: producer_def prod_defs)
next
  case Prod_asleep
  with assms show thesis by (simp add: producer_def)
qed (insert assms(2), simp_all only: is_prod.simps)

lemma producer_main_lock:
  assumes "main_ok n s" "lock_ok s" and c: "producer 1 g g' s = Some (Inr t)" "is_prod (p_pc s 1)"
  shows "main_ok n t \<and> lock_ok t"
  using c by (cases rule: producer_cases; insert assms(1,2))
    (auto simp: main_ok_def lock_ok_def split: mpc.splits if_splits)

lemma prod_not_popped:
  assumes "lock_ok s" and "prod_locked (p_pc s 1)" shows "\<not> popped (p_pc s 0)"
  using assms locked_pcs(2) by (auto simp: lock_ok_def)

lemma producer_buf_ok:
  assumes "lock_ok s" "buf_ok s" and c: "producer 1 g g' s = Some (Inr t)" "is_prod (p_pc s 1)"
  shows "buf_ok t"
  using c
proof (cases rule: producer_cases)
  case (store b st)
  moreover from this prod_not_popped [OF assms(1)] have "\<not> popped (p_pc s 0)" by simp
  ultimately show ?thesis using assms(2) by (auto simp: buf_ok_def depth_def BUFSIZE_def nth_list_update)
next
  case inc
  moreover from this prod_not_popped [OF assms(1)] have np: "\<not> popped (p_pc s 0)" by simp
  moreover have "valid_item (p_items s ! j)" if "j < nat (p_last s + 2)" for j
  proof (cases "j < nat (p_last s + 1)")
    case False
    with that have "j = nat (p_last s + 1)" by simp
    with inc assms(2) show ?thesis by (simp add: buf_ok_def)
  qed (use assms(2) np in \<open>simp add: buf_ok_def depth_def\<close>)
  ultimately show ?thesis using assms(2) by (auto simp: buf_ok_def depth_def)
qed (use assms(2) in \<open>auto simp: buf_ok_def depth_def\<close>)

lemma producer_wake_ok:
  assumes "wake_ok s" and c: "producer 1 g g' s = Some (Inr t)" "is_prod (p_pc s 1)"
  shows "wake_ok t"
  using c by (cases rule: producer_cases; insert assms(1)) (auto simp: wake_ok_def)

lemma producer_stack:
  assumes "lock_ok s" "buf_ok s" and c: "producer 1 g g' s = Some (Inr t)" "is_prod (p_pc s 1)"
  shows "stack t = stack s \<or> length (stack s) < BUFSIZE \<and> (\<exists>b. valid_item b \<and> stack t = stack s @ [b])"
  using c
proof (cases rule: producer_cases)
  case (store b st)
  moreover from this prod_not_popped [OF assms(1)] have "\<not> popped (p_pc s 0)" by simp
  ultimately show ?thesis by (simp add: stack_def depth_def)
next
  case inc
  moreover from this prod_not_popped [OF assms(1)] have "\<not> popped (p_pc s 0)" by simp
  moreover from inc assms(2) have "nat (p_last s + 1) < length (p_items s)" "valid_item (p_items s ! nat (p_last s + 1))"
      "nat (2 + p_last s) = Suc (nat (p_last s + 1))" "length (p_items s) = BUFSIZE"
    by (auto simp: buf_ok_def BUFSIZE_def)
  ultimately show ?thesis by (auto simp: stack_def depth_def take_Suc_conv_app_nth)
qed (simp_all add: stack_def depth_def)

text \<open>The steps of \<open>main\<close> and spurious wake-ups.\<close>

lemma start_keeps:
  assumes "lock_ok s" "buf_ok s" "wake_ok s" and "p_items t = p_items s" "p_last t = p_last s" "p_lock t = p_lock s"
    and "p_pc t 0 = p_pc s 0 \<or> p_pc s 0 = Not_started \<and> p_pc t 0 = Cons_test"
    and "p_pc t 1 = p_pc s 1 \<or> p_pc s 1 \<in> {Not_started, Prod_asleep} \<and> p_pc t 1 \<in> {Prod_sleep, Prod_relock}"
  shows "lock_ok t \<and> buf_ok t \<and> wake_ok t \<and> stack t = stack s"
proof -
  have "cons_locked (p_pc t 0) = cons_locked (p_pc s 0)" "cons_needs (p_pc t 0) = cons_needs (p_pc s 0)"
    "popped (p_pc t 0) = popped (p_pc s 0)" "p_pc t 0 = Cons_signal \<longleftrightarrow> p_pc s 0 = Cons_signal"
    "prod_locked (p_pc t 1) = prod_locked (p_pc s 1)" "p_pc t 1 = Prod_asleep \<Longrightarrow> p_pc s 1 = Prod_asleep"
    "p_pc t 1 = Prod_store \<Longrightarrow> p_pc s 1 = Prod_store" "p_pc t 1 = Prod_inc \<Longrightarrow> p_pc s 1 = Prod_inc"
    "p_pc t 1 = Prod_show \<Longrightarrow> p_pc s 1 = Prod_show"
    using assms(7,8) by auto
  with assms(1-6) show ?thesis
    by (simp add: lock_ok_def buf_ok_def wake_ok_def stack_def depth_def)
qed

lemma main_keeps:
  assumes "prod_inv n s" and "main_step n s = Some t" shows "prod_inv n t \<and> stack t = stack s"
proof -
  from assms have "main_ok n t"
    by (cases "p_main s") (auto simp: prod_inv_def main_ok_def main_step_def prod_defs Let_def split: if_splits)
  moreover from assms have "lock_ok t \<and> buf_ok t \<and> wake_ok t \<and> stack t = stack s"
    by (intro start_keeps)
      (auto simp: prod_inv_def main_ok_def main_step_def prod_defs Let_def split: if_splits mpc.splits)
  ultimately show ?thesis by (simp add: prod_inv_def)
qed

lemma spurious_keeps:
  assumes "prod_inv n s" and "p_pc s k = Prod_asleep"
  shows "prod_inv n (go_pc k Prod_relock s) \<and> stack (go_pc k Prod_relock s) = stack s"
proof -
  from assms have k: "k = 1"
    by (cases k; cases "k - 1") (auto simp: prod_inv_def main_ok_def numeral_2_eq_2 split: mpc.splits)
  with assms have "main_ok n (go_pc k Prod_relock s)"
    by (auto simp: prod_inv_def main_ok_def go_pc_def split: mpc.splits)
  moreover from assms k have "lock_ok (go_pc k Prod_relock s) \<and> buf_ok (go_pc k Prod_relock s) \<and>
      wake_ok (go_pc k Prod_relock s) \<and> stack (go_pc k Prod_relock s) = stack s"
    by (intro start_keeps) (auto simp: prod_inv_def go_pc_def)
  ultimately show ?thesis by (simp add: prod_inv_def)
qed

text \<open>What a step does to the items in the buffer.\<close>

definition stack_step :: "buff_item list \<Rightarrow> buff_item list \<Rightarrow> bool" where
  "stack_step xs ys \<longleftrightarrow> ys = xs \<or> length xs < BUFSIZE \<and> (\<exists>b. valid_item b \<and> ys = xs @ [b]) \<or> xs \<noteq> [] \<and> ys = butlast xs"

lemma prod_step_keeps:
  assumes inv: "prod_inv n s" and "prod_step n s t" shows "prod_inv n t \<and> stack_step (stack s) (stack t)"
  using assms(2)
proof cases
  case step_main
  with main_keeps [OF inv] show ?thesis by (simp add: stack_step_def)
next
  case (step_consumer w k)
  from inv step_consumer(2) have k: "k = 0" "is_cons (p_pc s 0)"
    using consumer_is_0 unfolding prod_inv_def by blast+
  note c = step_consumer(2) [unfolded k(1)] k(2)
  have w: "w = (if p_pc s 1 = Prod_asleep then Some 1 else None)"
    using inv step_consumer(1) k(2) by (intro wakes_cases) (auto simp: prod_inv_def)
  show ?thesis
    using inv consumer_main_lock [OF _ _ c w] consumer_buf_ok [OF _ _ c w] consumer_wake_ok [OF _ c w] consumer_stack [OF _ c]
    unfolding prod_inv_def stack_step_def by blast
next
  case (step_producer k g g')
  from inv step_producer have k: "k = 1" "is_prod (p_pc s 1)"
    using producer_is_1 unfolding prod_inv_def by blast+
  note c = step_producer [unfolded k(1)] k(2)
  show ?thesis
    using inv producer_main_lock [OF _ _ c] producer_buf_ok [OF _ _ c] producer_wake_ok [OF _ c] producer_stack [OF _ _ c]
    unfolding prod_inv_def stack_step_def by blast
next
  case (step_spurious k)
  with spurious_keeps [OF inv] show ?thesis by (simp add: stack_step_def)
qed

interpretation prod_sys: invariant_system "\<lambda>s. s = prod_init" "prod_step n" "prod_inv n" for n
proof
  fix s assume "s = prod_init"
  then show "prod_inv n s"
    by (simp add: prod_inv_def main_ok_def lock_ok_def buf_ok_def wake_ok_def depth_def prod_init_def)
qed (use prod_step_keeps in blast)

lemma prod_no_wild:
  assumes inv: "prod_inv n s" shows "consumer k w s \<noteq> Some (Inl e)" and "producer k g g' s \<noteq> Some (Inl e)"
proof -
  from inv have m: "main_ok n s" and b: "buf_ok s" by (auto simp: prod_inv_def)
  show "consumer k w s \<noteq> Some (Inl e)"
  proof
    assume c: "consumer k w s = Some (Inl e)"
    with consumer_is_0 [OF m c] b show False
      by (cases "p_pc s 0") (auto simp: consumer_def buf_ok_def prod_defs split: option.splits)
  qed
  show "producer k g g' s \<noteq> Some (Inl e)"
  proof
    assume c: "producer k g g' s = Some (Inl e)"
    with producer_is_1 [OF m c] b show False
      by (cases "p_pc s 1") (auto simp: producer_def buf_ok_def prod_defs split: option.splits prod.splits)
  qed
qed

lemma stack_valid:
  assumes "buf_ok s" shows "length (stack s) \<le> BUFSIZE" and "b \<in> set (stack s) \<Longrightarrow> valid_item b"
  using assms by (auto simp: stack_def buf_ok_def in_set_conv_nth)

lemma init_genrand_forgets:
  assumes "length (mt st) = N" and "length (mt st') = N" shows "init_genrand w st = init_genrand w st'"
proof -
  let ?f = "\<lambda>m. foldl init_step (m[0 := w AND 0xffffffff]) [1 ..< N]"
  have s: "seeded (?f m) N" "?f m ! 0 = w AND 0xffffffff" "length (?f m) = N" if "length m = N" for m
    using foldl_init_seeded [of "m[0 := w AND 0xffffffff]" N] that by (auto simp: N_def length_init)
  have "?f (mt st) ! i = ?f (mt st') ! i" if "i < N" for i
    using that
  proof (induction i)
    case (Suc i)
    with s(1) [OF assms(1)] s(1) [OF assms(2)] show ?case by (simp add: seeded_def)
  next
    case 0
    show ?case using s(2) [OF assms(1)] s(2) [OF assms(2)] by simp
  qed
  then have "?f (mt st) = ?f (mt st')" by (intro nth_equalityI) (auto simp: length_init assms)
  then show ?thesis by (simp add: init_genrand_def)
qed

lemma random_gen_fallback:
  assumes "cpuid_ecx g AND 0x40000000 = 0" and "length (mt st) = N" and "length (mt st') = N"
  shows "random_gen g st = random_gen g st'" and "length (mt (snd (random_gen g st))) = N"
proof -
  show "random_gen g st = random_gen g st'"
    using assms init_genrand_forgets [OF assms(2,3)] by (simp add: random_gen_def)
  have "mt_wf (snd (genrand_int32 (init_genrand (seed g) st)))"
    using genrand_int32_wf init_genrand_wf(1) [OF assms(2)] by blast
  then show "length (mt (snd (random_gen g st))) = N"
    using assms(1) by (auto simp: random_gen_def mt_wf_def mt_ok_def split: prod.splits)
qed

subsection \<open>Main properties\<close>

text \<open>
  C16: The buffer is a bounded stack. Whatever the number of threads asked for and however they
  interleave, the buffer holds at most 32 items, all in the ranges of \<open>produce_item\<close>; every step leaves
  the items alone, pushes a new item where there is room, or pops the top one; and no thread indexes
  the array out of bounds, although the consumer reads it without the lock.
\<close>

theorem buffer_refines_stack:
  assumes "prod_reach n s"
  shows "length (stack s) \<le> BUFSIZE \<and> (\<forall>b \<in> set (stack s). valid_item b) \<and>
    (\<forall>t. prod_step n s t \<longrightarrow> stack_step (stack s) (stack t)) \<and>
    (\<forall>k w e. consumer k w s \<noteq> Some (Inl e)) \<and> (\<forall>k g g' e. producer k g g' s \<noteq> Some (Inl e))"
proof -
  from prod_sys.reach_inv [OF assms] have inv: "prod_inv n s" .
  then have "buf_ok s" by (simp add: prod_inv_def)
  with stack_valid prod_step_keeps [OF inv] prod_no_wild [OF inv] show ?thesis by blast
qed

text \<open>
  C22: No wake-up is lost and the threads do not deadlock. A producer sleeps only while the buffer is
  full or the consumer, which holds the lock, is about to signal; and once both threads run, one of
  them can always take a step.
\<close>

theorem prod_no_deadlock:
  assumes "prod_reach n s" and "p_started s = 2"
  shows "(p_pc s 1 = Prod_asleep \<longrightarrow> p_last s = 31 \<or> p_pc s 0 = Cons_signal \<and> p_lock s = Some 0) \<and>
    (consumer 0 w s \<noteq> None \<or> producer 1 g g' s \<noteq> None)"
proof -
  from prod_sys.reach_inv [OF assms(1)] have inv: "main_ok n s" "lock_ok s" "wake_ok s" by (auto simp: prod_inv_def)
  have pcs: "is_cons (p_pc s 0)" "is_prod (p_pc s 1)" using inv(1) assms(2) by (auto simp: main_ok_def split: mpc.splits)
  have "producer 1 g g' s \<noteq> None" if "consumer 0 w s = None"
  proof -
    from that pcs(1) have "p_pc s 0 = Cons_lock" "p_lock s \<noteq> None"
      by (cases "p_pc s 0"; auto simp: consumer_def with_item_def)+
    with inv(2) have "prod_locked (p_pc s 1)" by (auto simp: lock_ok_def split: if_splits)
    then show ?thesis by (cases "p_pc s 1") (auto simp: producer_def with_item_def split: prod.splits)
  qed
  moreover have "p_pc s 1 = Prod_asleep \<longrightarrow> p_last s = 31 \<or> p_pc s 0 = Cons_signal \<and> p_lock s = Some 0"
    using inv(2,3) by (auto simp: wake_ok_def lock_ok_def)
  ultimately show ?thesis by blast
qed

text \<open>
  C26: \<open>main\<close> joins a pair of threads before it creates the next, and threads never end: whatever number
  of threads is asked for, at most one consumer and one producer are ever started, and if that number
  is positive \<open>main\<close> never finishes.
\<close>

theorem main_single_pair:
  assumes "prod_reach n s"
  shows "p_started s \<le> 2 \<and> (\<forall>k. 2 \<le> k \<longrightarrow> p_pc s k = Not_started) \<and> (0 < n \<longrightarrow> p_main s \<noteq> Main_done)"
  using prod_sys.reach_inv [OF assms] by (auto simp: prod_inv_def main_ok_def split: mpc.splits)

text \<open>
  The items are in range. Whatever the machine answers, an item is between 1 and 50 and its waiting
  time between 2 and 9 seconds, also for the word whose absolute value is not an \<open>int\<close>.
\<close>

lemma produce_item_ranges: "valid_item (fst (produce_item g g' st))"
  by (rule produce_item_valid)

text \<open>
  Without \<open>rdrand\<close> the items are not random. \<open>random_gen\<close> seeds the generator anew at each call, from
  a variable that is never set: while that holds the same word, every item produced is the same,
  whatever has been drawn before.
\<close>

lemma fallback_repeats:
  assumes "cpuid_ecx g AND 0x40000000 = 0" and "length (mt st) = N" and "length (mt st') = N"
  shows "random_gen g st = random_gen g st' \<and> produce_item g g st = produce_item g g st'"
proof -
  have r: "random_gen g st = random_gen g st'" using random_gen_fallback [OF assms] by blast
  then show ?thesis by (simp add: produce_item_def)
qed

text \<open>A machine without \<open>rdrand\<close>, and two with it.\<close>

definition old_machine :: machine where
  "old_machine = \<lparr>cpuid_ecx = 0, rdrand = 0, seed = 5489\<rparr>"

definition new_machine :: "32 word \<Rightarrow> machine" where
  "new_machine x = \<lparr>cpuid_ecx = 0x40000000, rdrand = x, seed = 0\<rparr>"

lemma fallback_repeats_witness:
  "random_gen old_machine mt_start = random_gen old_machine (init_genrand 1 mt_start)"
proof -
  have "length (mt mt_start) = N" by (simp add: mt_start_def)
  then show ?thesis
    using fallback_repeats [of old_machine mt_start "init_genrand 1 mt_start"] init_genrand_wf(1) [of mt_start 1]
    by (simp add: old_machine_def mt_wf_def mt_ok_def)
qed

text \<open>Runs given by a schedule.\<close>

datatype action = Main | Cons "nat option" | Prod machine

fun run_prod :: "int \<Rightarrow> action list \<Rightarrow> prod_sys \<Rightarrow> prod_sys option" where
  "run_prod n [] s = Some s"
| "run_prod n (Main # w) s = (case main_step n s of Some t \<Rightarrow> run_prod n w t | None \<Rightarrow> None)"
| "run_prod n (Cons v # w) s =
     (if wakes s v then (case consumer 0 v s of Some (Inr t) \<Rightarrow> run_prod n w t | _ \<Rightarrow> None) else None)"
| "run_prod n (Prod g # w) s = (case producer 1 g g s of Some (Inr t) \<Rightarrow> run_prod n w t | _ \<Rightarrow> None)"

lemma run_prod_reach: "run_prod n w s = Some t \<Longrightarrow> prod_reach n s \<Longrightarrow> prod_reach n t"
proof (induction n w s rule: run_prod.induct)
  case (2 n w s)
  then show ?case by (auto split: option.splits intro: reach_step step_main)
next
  case (3 n v w s)
  then show ?case by (auto split: option.splits sum.splits if_splits intro: reach_step step_consumer)
next
  case (4 n g w s)
  then show ?case by (auto split: option.splits sum.splits intro: reach_step step_producer)
qed simp

text \<open>
  An item is produced, the consumer reports it, another item is produced, and the consumer takes the
  lock.
\<close>

definition late_run :: "action list" where
  "late_run = (let p = Prod (new_machine 0); q = Prod (new_machine 7); c = Cons None
     in [Main, Main, p, p, p, p, p, p, p, c, c, c, c, q, q, q, q, q, q, q, c])"

lemma new_machine_gen: "random_gen (new_machine x) st = (ucast x, st)"
  by (simp add: random_gen_def new_machine_def)

lemma new_machine_items:
  "produce_item (new_machine 0) (new_machine 0) st = (\<lparr>b_item = 1, b_wait = 2\<rparr>, st)"
  "produce_item (new_machine 7) (new_machine 7) st = (\<lparr>b_item = 8, b_wait = 9\<rparr>, st)"
  by (simp_all add: produce_item_def new_machine_gen)

lemma late_run_state:
  "\<exists>s. run_prod 2 late_run prod_init = Some s \<and> p_pc s 0 = Cons_item \<and>
     Consumed 1 2 \<in> set (p_out s) \<and> Consumed 8 9 \<notin> set (p_out s) \<and> p_last s = 1 \<and>
     p_items s ! 1 = \<lparr>b_item = 8, b_wait = 9\<rparr>"
  by (simp add: late_run_def Let_def mutex_lock_def prod_init_def main_step_def producer_def consumer_def new_machine_gen new_machine_items
    with_item_def prod_defs wakes_def sleepers_def)

lemma late_run_reach:
  obtains s where "run_prod 2 late_run prod_init = Some s" "prod_reach 2 s" "p_pc s 0 = Cons_item"
    "Consumed 1 2 \<in> set (p_out s)" "Consumed 8 9 \<notin> set (p_out s)" "p_last s = 1"
    "p_items s ! 1 = \<lparr>b_item = 8, b_wait = 9\<rparr>"
proof -
  from late_run_state obtain s where s: "run_prod 2 late_run prod_init = Some s" "p_pc s 0 = Cons_item"
    "Consumed 1 2 \<in> set (p_out s)" "Consumed 8 9 \<notin> set (p_out s)" "p_last s = 1"
    "p_items s ! 1 = \<lparr>b_item = 8, b_wait = 9\<rparr>" by blast
  have "prod_reach 2 prod_init" by (simp add: reach_init)
  from run_prod_reach [OF s(1) this] s show thesis by (intro that) auto
qed

text \<open>
  C27: The consumer reports one item and removes another. It reads and prints the top item before it
  takes the lock; an item produced in between is the one that it clears, unreported, while the
  reported one stays in the buffer. With the number of threads that is the default the program reaches
  such a state.
\<close>

theorem consumer_reports_other:
  "\<exists>s. prod_reach (num_threads_of None) s \<and> p_pc s 0 = Cons_item \<and> Consumed 1 2 \<in> set (p_out s) \<and>
     Consumed 8 9 \<notin> set (p_out s) \<and> p_items s ! nat (p_last s) = \<lparr>b_item = 8, b_wait = 9\<rparr>"
proof -
  obtain s where s: "run_prod 2 late_run prod_init = Some s" "prod_reach 2 s" "p_pc s 0 = Cons_item"
    "Consumed 1 2 \<in> set (p_out s)" "Consumed 8 9 \<notin> set (p_out s)" "p_last s = 1"
    "p_items s ! 1 = \<lparr>b_item = 8, b_wait = 9\<rparr>" by (rule late_run_reach)
  then show ?thesis by (intro exI [of _ s]) (simp add: num_threads_of_def)
qed

definition late_state :: prod_sys where
  "late_state = the (run_prod 2 late_run prod_init)"

lemma late_state: "prod_reach 2 late_state" "p_started late_state = 2" "length (stack late_state) = 2"
proof -
  obtain s where s: "run_prod 2 late_run prod_init = Some s" "prod_reach 2 s" "p_pc s 0 = Cons_item" "p_last s = 1"
    by (rule late_run_reach) blast
  then have eq: "late_state = s" by (simp add: late_state_def)
  show "prod_reach 2 late_state" by (simp add: eq s(2))
  from prod_sys.reach_inv [OF s(2)] have inv: "main_ok 2 s" "buf_ok s" "lock_ok s" by (auto simp: prod_inv_def)
  show "length (stack late_state) = 2"
    using inv(2) s(3,4) by (simp add: eq stack_def depth_def buf_ok_def BUFSIZE_def)
  show "p_started late_state = 2"
    using s(1) unfolding eq
    by (simp add: late_run_def Let_def mutex_lock_def prod_init_def main_step_def producer_def consumer_def
      new_machine_gen new_machine_items with_item_def prod_defs wakes_def sleepers_def)
      (auto simp: prod_defs)
qed

theorem buffer_refines_stack_witness:
  "prod_reach 2 late_state \<and> length (stack late_state) = 2 \<and> set (stack late_state) \<subseteq> Collect valid_item"
  using buffer_refines_stack [OF late_state(1)] late_state by blast

theorem prod_no_deadlock_witness:
  "prod_reach 2 late_state \<and> p_started late_state = 2 \<and>
    \<not> (consumer 0 None late_state = None \<and> producer 1 old_machine old_machine late_state = None)"
  using prod_no_deadlock [OF late_state(1,2)] late_state by blast

theorem main_single_pair_witness:
  "prod_reach 2 late_state \<and> p_started late_state \<le> 2 \<and> p_main late_state \<noteq> Main_done"
  using main_single_pair [OF late_state(1)] late_state(1) by simp

end
