(* ===== verification/Barber.thy ===== *)
theory Barber
  imports Threads
begin

text \<open>
  The sleeping barber of \<open>recitations/concurrency4.c\<close>: the thread that makes customers, the customers
  (\<open>waitingRoom\<close> and \<open>checkQueue\<close>) and the barber. Thread 0 is the barber, thread \<open>k > 0\<close> the customer
  made with \<open>i = k\<close>. A step is one call of the thread library or one access to a shared variable;
  \<open>current++\<close> and \<open>current--\<close> are a read and a write, since \<open>current\<close> is a plain \<open>int\<close> that the barber
  changes without a lock. \<open>printf\<close> and \<open>sleep\<close> take no step. \<open>None\<close>: the thread blocks.
\<close>

subsection \<open>State\<close>

definition seats :: int where "seats = 4"

datatype bpc =
    No_thread
  | Cust_lock | Cust_load | Cust_store | Cust_test | Cust_wake | Cust_signal | Cust_unlock | Cust_lock_w | Cust_wait | Cust_asleep
  | Cust_relock_w | Cust_unlock_w | Cust_test_full | Cust_load_leave | Cust_store_leave | Cust_unlock_leave
  | Barb_test | Barb_lock | Barb_set | Barb_wait | Barb_asleep | Barb_relock | Barb_clear | Barb_unlock
  | Barb_load | Barb_store | Barb_signal

datatype maker_pc = Maker_loop | Maker_rand | Maker_exit

record shop =
  s_current :: int
  s_sleeping :: int
  s_queue :: mutex
  s_wait :: mutex
  s_sleep :: mutex
  s_pc :: "nat \<Rightarrow> bpc"
  s_reg :: "nat \<Rightarrow> int"
  s_maker :: maker_pc
  s_i :: int

text \<open>\<open>main\<close>: no customer yet, the barber about to look for one.\<close>

definition shop_init :: shop where
  "shop_init = \<lparr>s_current = 0, s_sleeping = 0, s_queue = None, s_wait = None, s_sleep = None,
     s_pc = (\<lambda>_. No_thread)(0 := Barb_test), s_reg = (\<lambda>_. 0), s_maker = Maker_loop, s_i = 0\<rparr>"

subsection \<open>Steps\<close>

definition at :: "nat \<Rightarrow> bpc \<Rightarrow> shop \<Rightarrow> shop" where
  "at k p s = s\<lparr>s_pc := (s_pc s)(k := p)\<rparr>"

definition load :: "nat \<Rightarrow> shop \<Rightarrow> shop" where
  "load k s = s\<lparr>s_reg := (s_reg s)(k := s_current s)\<rparr>"

text \<open>\<open>pthread_cond_signal\<close>: wakes the thread \<open>w\<close>, if one waits.\<close>

definition signal :: "nat option \<Rightarrow> bpc \<Rightarrow> shop \<Rightarrow> shop" where
  "signal w p s = (case w of None \<Rightarrow> s | Some k \<Rightarrow> at k p s)"

text \<open>\<open>waitingRoom\<close> and \<open>checkQueue\<close>; on return the customer goes back to line 84.\<close>

definition customer :: "nat \<Rightarrow> shop \<Rightarrow> shop option" where
  "customer k s =
     (case s_pc s k of
        Cust_lock \<Rightarrow> map_option (\<lambda>m. at k Cust_load (s\<lparr>s_queue := m\<rparr>)) (mutex_lock k (s_queue s))
      | Cust_load \<Rightarrow> Some (at k Cust_store (load k s))
      | Cust_store \<Rightarrow> Some (at k Cust_test (s\<lparr>s_current := s_reg s k + 1\<rparr>))
      | Cust_test \<Rightarrow> Some (at k (if s_current s < seats then Cust_wake else Cust_test_full) s)
      | Cust_wake \<Rightarrow> Some (at k (if s_sleeping s = 1 then Cust_signal else Cust_unlock) s)
      | Cust_signal \<Rightarrow> Some (at k Cust_unlock
          (signal (if s_pc s 0 = Barb_asleep then Some 0 else None) Barb_relock s))
      | Cust_unlock \<Rightarrow> Some (at k Cust_lock_w (s\<lparr>s_queue := None\<rparr>))
      | Cust_lock_w \<Rightarrow> map_option (\<lambda>m. at k Cust_wait (s\<lparr>s_wait := m\<rparr>)) (mutex_lock k (s_wait s))
      | Cust_wait \<Rightarrow> Some (at k Cust_asleep (s\<lparr>s_wait := None\<rparr>))
      | Cust_relock_w \<Rightarrow> map_option (\<lambda>m. at k Cust_unlock_w (s\<lparr>s_wait := m\<rparr>)) (mutex_lock k (s_wait s))
      | Cust_unlock_w \<Rightarrow> Some (at k Cust_lock (s\<lparr>s_wait := None\<rparr>))
      | Cust_test_full \<Rightarrow> Some (at k (if s_current s \<ge> seats then Cust_load_leave else Cust_lock) s)
      | Cust_load_leave \<Rightarrow> Some (at k Cust_store_leave (load k s))
      | Cust_store_leave \<Rightarrow> Some (at k Cust_unlock_leave (s\<lparr>s_current := s_reg s k - 1\<rparr>))
      | Cust_unlock_leave \<Rightarrow> Some (at k Cust_lock (s\<lparr>s_queue := None\<rparr>))
      | _ \<Rightarrow> None)"

text \<open>\<open>barber_shop\<close>; \<open>w\<close> is the waiting customer that the signal of line 120 wakes, if any.\<close>

definition barber :: "nat option \<Rightarrow> shop \<Rightarrow> shop option" where
  "barber w s =
     (case s_pc s 0 of
        Barb_test \<Rightarrow> Some (at 0 (if s_current s = 0 then Barb_lock else Barb_load) s)
      | Barb_lock \<Rightarrow> map_option (\<lambda>m. at 0 Barb_set (s\<lparr>s_sleep := m\<rparr>)) (mutex_lock 0 (s_sleep s))
      | Barb_set \<Rightarrow> Some (at 0 Barb_wait (s\<lparr>s_sleeping := 1\<rparr>))
      | Barb_wait \<Rightarrow> Some (at 0 Barb_asleep (s\<lparr>s_sleep := None\<rparr>))
      | Barb_relock \<Rightarrow> map_option (\<lambda>m. at 0 Barb_clear (s\<lparr>s_sleep := m\<rparr>)) (mutex_lock 0 (s_sleep s))
      | Barb_clear \<Rightarrow> Some (at 0 Barb_unlock (s\<lparr>s_sleeping := 0\<rparr>))
      | Barb_unlock \<Rightarrow> Some (at 0 Barb_test (s\<lparr>s_sleep := None\<rparr>))
      | Barb_load \<Rightarrow> Some (at 0 Barb_store (load 0 s))
      | Barb_store \<Rightarrow> Some (at 0 Barb_signal (s\<lparr>s_current := s_reg s 0 - 1\<rparr>))
      | Barb_signal \<Rightarrow> Some (at 0 Barb_test (signal w Cust_relock_w s))
      | _ \<Rightarrow> None)"

text \<open>
  \<open>customer_thread_func\<close>: the arrays have \<open>seats + 1\<close> elements and are used at \<open>i\<close> after \<open>i++\<close>. \<open>r\<close> is what
  \<open>rand\<close> returns.
\<close>

definition maker :: "int \<Rightarrow> shop \<Rightarrow> shop result option" where
  "maker r s =
     (case s_maker s of
        Maker_loop \<Rightarrow> Some
          (if s_i s < seats + 1
           then (let i = s_i s + 1 in if i < seats + 1 then Inr (s\<lparr>s_i := i, s_maker := Maker_rand\<rparr>) else Inl Wild)
           else Inr (s\<lparr>s_maker := Maker_exit\<rparr>))
      | Maker_rand \<Rightarrow> Some
          (if r mod 2 \<noteq> 1 then Inr s
           else if s_i s < seats + 1 then Inr (at (nat (s_i s)) Cust_lock (s\<lparr>s_maker := Maker_loop\<rparr>)) else Inl Wild)
      | Maker_exit \<Rightarrow> None)"

definition waiting :: "shop \<Rightarrow> nat list" where
  "waiting s = filter (\<lambda>k. s_pc s k = Cust_asleep) [1 ..< nat seats + 1]"

definition wakes_customer :: "shop \<Rightarrow> nat option \<Rightarrow> bool" where
  "wakes_customer s w \<longleftrightarrow> (case w of None \<Rightarrow> waiting s = [] | Some k \<Rightarrow> k \<in> set (waiting s))"

text \<open>The program; with \<open>sp\<close> the library may also wake a waiting thread without a signal.\<close>

inductive shop_step :: "bool \<Rightarrow> shop \<Rightarrow> shop \<Rightarrow> bool" for sp :: bool where
  step_customer: "0 < k \<Longrightarrow> customer k s = Some t \<Longrightarrow> shop_step sp s t"
| step_barber: "wakes_customer s w \<Longrightarrow> barber w s = Some t \<Longrightarrow> shop_step sp s t"
| step_maker: "maker r s = Some (Inr t) \<Longrightarrow> shop_step sp s t"
| spurious_customer: "sp \<Longrightarrow> 0 < k \<Longrightarrow> s_pc s k = Cust_asleep \<Longrightarrow> shop_step sp s (at k Cust_relock_w s)"
| spurious_barber: "sp \<Longrightarrow> s_pc s 0 = Barb_asleep \<Longrightarrow> shop_step sp s (at 0 Barb_relock s)"

abbreviation shop_reach :: "bool \<Rightarrow> shop \<Rightarrow> bool" where
  "shop_reach sp \<equiv> reach (\<lambda>s. s = shop_init) (shop_step sp)"

subsection \<open>Invariant\<close>

text \<open>The points at which a customer holds \<open>queue_mutex\<close>, and those at which it may have counted itself beyond the seats.\<close>

fun in_queue :: "bpc \<Rightarrow> bool" where
  "in_queue Cust_load = True" | "in_queue Cust_store = True" | "in_queue Cust_test = True" | "in_queue Cust_wake = True"
| "in_queue Cust_signal = True" | "in_queue Cust_unlock = True" | "in_queue Cust_test_full = True" | "in_queue Cust_load_leave = True"
| "in_queue Cust_store_leave = True" | "in_queue Cust_unlock_leave = True" | "in_queue _ = False"

fun over :: "bpc \<Rightarrow> bool" where
  "over Cust_test = True" | "over Cust_test_full = True" | "over Cust_load_leave = True" | "over Cust_store_leave = True"
| "over _ = False"

fun barb_pc :: "bpc \<Rightarrow> bool" where
  "barb_pc Barb_test = True" | "barb_pc Barb_lock = True" | "barb_pc Barb_set = True" | "barb_pc Barb_wait = True"
| "barb_pc Barb_asleep = True" | "barb_pc Barb_relock = True" | "barb_pc Barb_clear = True" | "barb_pc Barb_unlock = True"
| "barb_pc Barb_load = True" | "barb_pc Barb_store = True" | "barb_pc Barb_signal = True" | "barb_pc _ = False"

definition threads_ok :: "shop \<Rightarrow> bool" where
  "threads_ok s \<longleftrightarrow> barb_pc (s_pc s 0) \<and> (\<forall>k > 0. \<not> barb_pc (s_pc s k)) \<and>
     s_maker s \<noteq> Maker_exit \<and> 0 \<le> s_i s \<and> s_i s \<le> seats \<and> (s_maker s = Maker_rand \<longrightarrow> 1 \<le> s_i s \<and> s_pc s (nat (s_i s)) = No_thread) \<and>
     (\<forall>k > nat (s_i s). s_pc s k = No_thread)"

definition queue_ok :: "shop \<Rightarrow> bool" where
  "queue_ok s \<longleftrightarrow> (\<forall>k. in_queue (s_pc s k) \<longrightarrow> s_queue s = Some k)"

definition count_ok :: "shop \<Rightarrow> bool" where
  "count_ok s \<longleftrightarrow> s_current s \<le> seats \<and> (s_current s = seats \<longrightarrow> (\<exists>k. over (s_pc s k))) \<and>
     (\<forall>k. s_pc s k = Cust_store \<longrightarrow> s_reg s k < seats) \<and> (\<forall>k. s_pc s k = Cust_store_leave \<longrightarrow> s_reg s k \<le> seats) \<and>
     (s_pc s 0 = Barb_store \<longrightarrow> s_reg s 0 \<le> seats)"

definition shop_inv :: "shop \<Rightarrow> bool" where
  "shop_inv s \<longleftrightarrow> threads_ok s \<and> queue_ok s \<and> count_ok s"

named_theorems shop_defs
declare at_def [shop_defs] and load_def [shop_defs]

lemma signal_fields [simp]:
  "s_current (signal w p s) = s_current s" "s_sleeping (signal w p s) = s_sleeping s" "s_queue (signal w p s) = s_queue s"
  "s_wait (signal w p s) = s_wait s" "s_sleep (signal w p s) = s_sleep s" "s_reg (signal w p s) = s_reg s"
  "s_maker (signal w p s) = s_maker s" "s_i (signal w p s) = s_i s"
  "s_pc (signal w p s) j = (if w = Some j then p else s_pc s j)"
  by (auto simp: signal_def at_def split: option.splits)

lemma over_in_queue: "over p \<Longrightarrow> in_queue p"
  by (cases p) simp_all

lemma in_queue_not_barb: "in_queue p \<Longrightarrow> \<not> barb_pc p"
  by (cases p) simp_all

text \<open>A step of a customer changes its own program counter, and perhaps wakes the barber.\<close>

lemma customer_frame:
  assumes "customer k s = Some t" and "0 < k"
  shows "(\<forall>j. j \<noteq> k \<longrightarrow> s_pc t j = s_pc s j \<or> j = 0 \<and> s_pc s 0 = Barb_asleep \<and> s_pc t 0 = Barb_relock) \<and>
    s_i t = s_i s \<and> s_maker t = s_maker s \<and> (\<forall>j. j \<noteq> k \<longrightarrow> s_reg t j = s_reg s j) \<and>
    s_pc s k \<noteq> No_thread \<and> s_pc t k \<noteq> No_thread \<and> \<not> barb_pc (s_pc t k)"
  using assms
  by (cases "s_pc s k") (auto simp: customer_def shop_defs split: if_splits)

lemma customer_queue_step:
  assumes "customer k s = Some t" and "0 < k"
  shows "s_queue s = None \<and> s_queue t = Some k \<or> s_queue t = s_queue s \<and> (in_queue (s_pc t k) \<longrightarrow> in_queue (s_pc s k)) \<or>
    s_queue t = None \<and> in_queue (s_pc s k) \<and> \<not> in_queue (s_pc t k)"
  using assms
  by (cases "s_pc s k") (auto simp: customer_def shop_defs split: if_splits)

lemma customer_threads:
  assumes s: "threads_ok s" and "0 < k" and "customer k s = Some t" shows "threads_ok t"
proof -
  note f = customer_frame [OF assms(3,2)]
  have "barb_pc (s_pc t 0)" using f s assms(2) by (auto simp: threads_ok_def)
  moreover have "\<not> barb_pc (s_pc t j)" if "0 < j" for j using f s that by (cases "j = k") (auto simp: threads_ok_def)
  moreover have "s_pc t j = No_thread" if "s_pc s j = No_thread" for j using f that by (metis bpc.distinct)
  ultimately show ?thesis using f s by (simp add: threads_ok_def)
qed

lemma customer_queue:
  assumes s: "queue_ok s" and "0 < k" and "customer k s = Some t" shows "queue_ok t"
proof -
  have same: "in_queue (s_pc t j) \<Longrightarrow> in_queue (s_pc s j)" if "j \<noteq> k" for j
    using customer_frame [OF assms(3,2)] that by (metis in_queue.simps)
  show ?thesis
    unfolding queue_ok_def
  proof (intro allI impI)
    fix j assume j: "in_queue (s_pc t j)"
    from customer_queue_step [OF assms(3,2)] show "s_queue t = Some j"
      using s j same [of j] unfolding queue_ok_def by (cases "j = k") (auto, metis option.inject)
  qed
qed

lemma queue_unique: "queue_ok s \<Longrightarrow> in_queue (s_pc s k) \<Longrightarrow> over (s_pc s j) \<Longrightarrow> j = k"
  unfolding queue_ok_def using over_in_queue option.inject by metis

lemma customer_count_step:
  assumes "customer k s = Some t" and "0 < k"
  shows "s_pc s k = Cust_store \<and> s_current t = s_reg s k + 1 \<and> s_pc t k = Cust_test \<or>
    s_pc s k = Cust_store_leave \<and> s_current t = s_reg s k - 1 \<and> s_pc t k = Cust_unlock_leave \<or>
    s_current t = s_current s \<and> (over (s_pc s k) \<longrightarrow> over (s_pc t k) \<or> s_current s < seats) \<and>
      (s_pc t k = Cust_store \<longrightarrow> s_reg t k = s_current s \<and> s_pc s k = Cust_load) \<and>
      (s_pc t k = Cust_store_leave \<longrightarrow> s_reg t k = s_current s)"
  using assms
  by (cases "s_pc s k") (auto simp: customer_def shop_defs split: if_splits)

lemma customer_count:
  assumes q: "queue_ok s" and c: "count_ok s" and k: "0 < k" and st: "customer k s = Some t" shows "count_ok t"
proof -
  note f = customer_frame [OF st k]
  have other: "s_pc t j = p \<Longrightarrow> s_pc s j = p \<and> s_reg t j = s_reg s j" if "j \<noteq> k" "p \<noteq> Barb_relock" for j p
    using f that by metis
  have barb: "s_pc t 0 = Barb_store \<longrightarrow> s_reg t 0 \<le> seats" using other [of 0 Barb_store] c k by (auto simp: count_ok_def)
  have o1: "s_reg t j < seats" if "s_pc t j = Cust_store" "j \<noteq> k" for j
    using other [of j Cust_store] that c by (auto simp: count_ok_def)
  have o2: "s_reg t j \<le> seats" if "s_pc t j = Cust_store_leave" "j \<noteq> k" for j
    using other [of j Cust_store_leave] that c by (auto simp: count_ok_def)
  have stay: "over (s_pc t j)" if "over (s_pc s j)" "j \<noteq> k" for j using f that by (metis over.simps)
  from customer_count_step [OF st k] show ?thesis
  proof (elim disjE conjE)
    assume "s_pc s k = Cust_store" "s_current t = s_reg s k + 1" "s_pc t k = Cust_test"
    moreover from this c have "s_reg s k < seats" by (simp add: count_ok_def)
    ultimately show ?thesis using barb o1 o2
      by (auto simp: count_ok_def intro: exI [of _ k]) (metis bpc.distinct)+
  next
    assume "s_pc s k = Cust_store_leave" "s_current t = s_reg s k - 1" "s_pc t k = Cust_unlock_leave"
    moreover from this c have "s_reg s k \<le> seats" by (simp add: count_ok_def)
    ultimately show ?thesis using barb o1 o2
      by (auto simp: count_ok_def) (metis bpc.distinct)+
  next
    assume e: "s_current t = s_current s" "over (s_pc s k) \<longrightarrow> over (s_pc t k) \<or> s_current s < seats"
      "s_pc t k = Cust_store \<longrightarrow> s_reg t k = s_current s \<and> s_pc s k = Cust_load"
      "s_pc t k = Cust_store_leave \<longrightarrow> s_reg t k = s_current s"
    have "\<exists>j. over (s_pc t j)" if "s_current t = seats"
    proof -
      from that e(1) c obtain j where "over (s_pc s j)" by (auto simp: count_ok_def)
      with that e(1,2) stay show ?thesis by (metis less_irrefl)
    qed
    moreover have "s_reg t k < seats" if "s_pc t k = Cust_store"
    proof (rule ccontr)
      assume "\<not> ?thesis"
      with that e(3) c have "s_current s = seats" "s_pc s k = Cust_load" by (auto simp: count_ok_def)
      moreover from this c obtain j where "over (s_pc s j)" by (auto simp: count_ok_def)
      ultimately show False using queue_unique [OF q, of k j] by simp
    qed
    moreover have "s_reg t k \<le> seats" if "s_pc t k = Cust_store_leave" using e(4) that c by (simp add: count_ok_def)
    ultimately show ?thesis using barb o1 o2 e(1) c unfolding count_ok_def by metis
  qed
qed

lemma barber_frame:
  assumes "barber w s = Some t" and "wakes_customer s w"
  shows "(\<forall>j. j \<noteq> 0 \<longrightarrow> s_pc t j = s_pc s j \<or> s_pc s j = Cust_asleep \<and> s_pc t j = Cust_relock_w) \<and>
    (\<forall>j. j \<noteq> 0 \<longrightarrow> s_reg t j = s_reg s j) \<and> barb_pc (s_pc t 0) \<and> s_queue t = s_queue s \<and> s_i t = s_i s \<and> s_maker t = s_maker s \<and>
    (s_current t = s_current s \<or> s_pc s 0 = Barb_store \<and> s_current t = s_reg s 0 - 1) \<and>
    (s_pc t 0 = Barb_store \<longrightarrow> s_reg t 0 = s_current s)"
  using assms
  by (cases "s_pc s 0") (auto simp: barber_def shop_defs wakes_customer_def waiting_def split: if_splits)

text \<open>The steps that move no customer in or out of the queue.\<close>

lemma frame_keeps:
  assumes inv: "shop_inv s" and b: "barb_pc (s_pc t 0)"
    and pcs: "\<And>j. j \<noteq> 0 \<Longrightarrow> s_pc t j = s_pc s j \<or> s_pc s j = Cust_asleep \<and> s_pc t j = Cust_relock_w"
    and regs: "\<And>j. j \<noteq> 0 \<Longrightarrow> s_reg t j = s_reg s j"
    and same: "s_queue t = s_queue s" "s_i t = s_i s" "s_maker t = s_maker s"
    and cur: "s_current t = s_current s \<or> s_current t < seats" and st: "s_pc t 0 = Barb_store \<longrightarrow> s_reg t 0 \<le> seats"
  shows "shop_inv t"
proof -
  from inv have th: "threads_ok s" and q: "queue_ok s" and c: "count_ok s" by (auto simp: shop_inv_def)
  have b0: "barb_pc (s_pc s 0)" using th by (simp add: threads_ok_def)
  have notb: "barb_pc (s_pc t j) \<Longrightarrow> j = 0" for j using pcs [of j] th by (cases "j = 0") (auto simp: threads_ok_def)
  have eq: "s_pc t j = p \<longleftrightarrow> s_pc s j = p" if "p \<notin> {Cust_asleep, Cust_relock_w}" "\<not> barb_pc p" for j p
    using pcs [of j] that b b0 by (cases "j = 0") auto
  have "threads_ok t" using th b notb eq [of No_thread] same by (auto simp: threads_ok_def)
  moreover have iq: "in_queue (s_pc t j) \<longleftrightarrow> in_queue (s_pc s j)" "over (s_pc t j) \<longleftrightarrow> over (s_pc s j)" for j
    using pcs [of j] b b0 in_queue_not_barb over_in_queue by (cases "j = 0"; force)+
  then have "queue_ok t" using q same by (simp add: queue_ok_def)
  moreover have "count_ok t"
  proof -
    have nz: "j \<noteq> 0" if "s_pc t j = Cust_store \<or> s_pc t j = Cust_store_leave" for j using b that by (cases j) auto
    have "s_reg t j < seats" if "s_pc t j = Cust_store" for j
      using that nz [of j] regs [of j] eq [of Cust_store j] c by (simp add: count_ok_def)
    moreover have "s_reg t j \<le> seats" if "s_pc t j = Cust_store_leave" for j
      using that nz [of j] regs [of j] eq [of Cust_store_leave j] c by (simp add: count_ok_def)
    ultimately show ?thesis using c cur st iq(2) by (auto simp: count_ok_def)
  qed
  ultimately show ?thesis by (simp add: shop_inv_def)
qed

lemma barber_keeps:
  assumes inv: "shop_inv s" and "wakes_customer s w" and "barber w s = Some t" shows "shop_inv t"
proof -
  note f = barber_frame [OF assms(3,2)]
  from inv have c: "count_ok s" by (simp add: shop_inv_def)
  show ?thesis
    using f c by (intro frame_keeps [OF inv]) (auto simp: count_ok_def)
qed

lemma maker_frame:
  assumes "maker r s = Some (Inr t)"
  shows "s_current t = s_current s" "s_queue t = s_queue s" "s_reg t = s_reg s"
  using assms by (auto simp: maker_def at_def Let_def split: maker_pc.splits if_splits)

lemma maker_keeps:
  assumes inv: "shop_inv s" and st: "maker r s = Some (Inr t)" shows "shop_inv t"
proof (cases "s_pc t = s_pc s")
  case True
  from st inv True have "threads_ok t"
    by (auto simp: shop_inv_def threads_ok_def maker_def at_def Let_def split: maker_pc.splits if_splits)
  with inv True maker_frame [OF st] show ?thesis by (simp add: shop_inv_def queue_ok_def count_ok_def)
next
  case False
  with st inv have i: "1 \<le> s_i s" "s_i s \<le> seats" "s_pc s (nat (s_i s)) = No_thread"
    and t: "t = at (nat (s_i s)) Cust_lock (s\<lparr>s_maker := Maker_loop\<rparr>)"
    by (auto simp: shop_inv_def threads_ok_def maker_def Let_def split: maker_pc.splits if_splits)
  have ov: "over (s_pc t j) \<longleftrightarrow> over (s_pc s j)" "in_queue (s_pc t j) \<longleftrightarrow> in_queue (s_pc s j)"
    "s_pc t j = Cust_store \<longleftrightarrow> s_pc s j = Cust_store" "s_pc t j = Cust_store_leave \<longleftrightarrow> s_pc s j = Cust_store_leave" for j
    using i by (auto simp: t at_def)
  have "threads_ok t" using inv i by (auto simp: shop_inv_def threads_ok_def t at_def)
  with inv ov i show ?thesis by (simp add: shop_inv_def queue_ok_def count_ok_def) (simp add: t at_def)
qed

interpretation shop: invariant_system "\<lambda>s. s = shop_init" "shop_step sp" shop_inv for sp
proof
  fix s assume "s = shop_init"
  then show "shop_inv s"
    by (auto simp: shop_inv_def threads_ok_def queue_ok_def count_ok_def shop_init_def seats_def)
next
  fix s t assume inv: "shop_inv s" and "shop_step sp s t"
  from this(2) show "shop_inv t"
  proof cases
    case (step_customer k)
    then show ?thesis using inv customer_threads customer_queue customer_count unfolding shop_inv_def by blast
  next
    case (spurious_customer k)
    with inv show ?thesis
      by (intro frame_keeps [OF inv]) (auto simp: at_def shop_inv_def threads_ok_def count_ok_def)
  next
    case spurious_barber
    with inv show ?thesis
      by (intro frame_keeps [OF inv]) (auto simp: at_def shop_inv_def threads_ok_def count_ok_def)
  qed (use inv barber_keeps maker_keeps in blast)+
qed

end
