(* ===== verification/Barber_Props.thy ===== *)
theory Barber_Props
  imports Barber
begin

text \<open>
  Properties of the sleeping barber: the count of customers never exceeds the seats, and at most one
  customer is at work on it; but a haircut that ends between the two tests of \<open>checkQueue\<close> leaves
  \<open>queue_mutex\<close> locked for ever, customers that arrive before the barber has set \<open>sleeping\<close> leave him
  asleep for ever, and the fifth customer is written outside the arrays.
\<close>

subsection \<open>Runs\<close>

datatype saction = Cust nat | Barb "nat option" | Maker int

fun run_shop :: "saction list \<Rightarrow> shop \<Rightarrow> shop option" where
  "run_shop [] s = Some s"
| "run_shop (Cust k # w) s = (if 0 < k then (case customer k s of Some t \<Rightarrow> run_shop w t | None \<Rightarrow> None) else None)"
| "run_shop (Barb v # w) s = (if wakes_customer s v then (case barber v s of Some t \<Rightarrow> run_shop w t | None \<Rightarrow> None) else None)"
| "run_shop (Maker r # w) s = (case maker r s of Some (Inr t) \<Rightarrow> run_shop w t | _ \<Rightarrow> None)"

lemma run_shop_reach: "run_shop w s = Some t \<Longrightarrow> shop_reach sp s \<Longrightarrow> shop_reach sp t"
proof (induction w s rule: run_shop.induct)
  case (2 k w s)
  then show ?case by (auto split: option.splits if_splits intro: reach_step step_customer)
next
  case (3 v w s)
  then show ?case by (auto split: option.splits if_splits intro: reach_step step_barber)
next
  case (4 r w s)
  then show ?case by (auto split: option.splits sum.splits intro: reach_step step_maker)
qed simp

definition make_four :: "saction list" where
  "make_four = concat (replicate 4 [Maker 0, Maker 1])"

definition take_seat :: "nat \<Rightarrow> saction list" where
  "take_seat k = replicate 8 (Cust k)"

lemma init_reach: "shop_reach sp shop_init"
  by (simp add: reach_init)

subsection \<open>The lock that stays locked\<close>

text \<open>A customer that waits for the lock it holds.\<close>

definition self_locked :: "nat \<Rightarrow> shop \<Rightarrow> bool" where
  "self_locked k s \<longleftrightarrow> 0 < k \<and> s_queue s = Some k \<and> s_pc s k = Cust_lock \<and> shop_inv s"

lemma self_locked_step:
  assumes l: "self_locked k s" and "shop_step sp s t" shows "self_locked k t"
proof -
  from l have inv: "shop_inv s" and q: "s_queue s = Some k" and k: "0 < k" "s_pc s k = Cust_lock"
    by (auto simp: self_locked_def)
  have it: "shop_inv t" using shop.inv_step [OF inv assms(2)] .
  from assms(2) have "s_queue t = Some k \<and> s_pc t k = Cust_lock"
  proof cases
    case (step_customer j)
    have "j \<noteq> k" using step_customer k(2) q by (auto simp: customer_def)
    with customer_frame [OF step_customer(2,1)] k have "s_pc t k = Cust_lock" by (metis bpc.distinct)
    moreover have "s_queue t = Some k"
      using customer_queue_step [OF step_customer(2,1)] q inv \<open>j \<noteq> k\<close> by (auto simp: shop_inv_def queue_ok_def)
    ultimately show ?thesis by simp
  next
    case (step_barber w)
    from barber_frame [OF step_barber(2,1)] k(1) have "s_pc t k = s_pc s k \<or> s_pc s k = Cust_asleep" "s_queue t = s_queue s"
      by auto
    with k q show ?thesis by auto
  next
    case (step_maker r)
    with inv k q show ?thesis
      by (auto simp: maker_def at_def Let_def shop_inv_def threads_ok_def split: maker_pc.splits if_splits)
  qed (use k q in \<open>auto simp: at_def\<close>)
  with it k show ?thesis by (simp add: self_locked_def)
qed

lemma self_locked_for_ever: "(shop_step sp)\<^sup>*\<^sup>* s t \<Longrightarrow> self_locked k s \<Longrightarrow> self_locked k t"
  by (induction rule: rtranclp_induct) (auto intro: self_locked_step)

text \<open>Three customers sit, the fourth has counted itself as the fourth, and a haircut ends.\<close>

definition leak_run :: "saction list" where
  "leak_run = make_four @ take_seat 1 @ take_seat 2 @ take_seat 3 @ replicate 4 (Cust 4) @ replicate 3 (Barb (Some 1)) @ [Cust 4]"

lemma leak_run_state:
  "case run_shop leak_run shop_init of None \<Rightarrow> False | Some s \<Rightarrow> s_queue s = Some 4 \<and> s_pc s 4 = Cust_lock"
  by code_simp

subsection \<open>The barber that is not woken\<close>

text \<open>
  The barber and three customers wait for each other's signal; what the fourth customer can do then
  does not bring the count below the seats, where it would signal.
\<close>

fun fourth :: "bpc \<Rightarrow> int \<Rightarrow> int \<Rightarrow> bool" where
  "fourth No_thread c r \<longleftrightarrow> c = 3"
| "fourth Cust_lock c r \<longleftrightarrow> c = 3"
| "fourth Cust_load c r \<longleftrightarrow> c = 3"
| "fourth Cust_store c r \<longleftrightarrow> c = 3 \<and> r = 3"
| "fourth Cust_test c r \<longleftrightarrow> c = 4"
| "fourth Cust_test_full c r \<longleftrightarrow> c = 4"
| "fourth Cust_load_leave c r \<longleftrightarrow> c = 4"
| "fourth Cust_store_leave c r \<longleftrightarrow> c = 4 \<and> r = 4"
| "fourth Cust_unlock_leave c r \<longleftrightarrow> c = 3"
| "fourth _ c r \<longleftrightarrow> False"

definition all_asleep :: "shop \<Rightarrow> bool" where
  "all_asleep s \<longleftrightarrow> s_pc s 0 = Barb_asleep \<and> s_pc s 1 = Cust_asleep \<and> s_pc s 2 = Cust_asleep \<and> s_pc s 3 = Cust_asleep"

definition forgotten :: "shop \<Rightarrow> bool" where
  "forgotten s \<longleftrightarrow> shop_inv s \<and> all_asleep s \<and> fourth (s_pc s 4) (s_current s) (s_reg s 4)"

lemma customers_1_to_4:
  assumes "shop_inv s" and "s_pc s k \<noteq> No_thread" shows "k \<le> 4"
proof (rule ccontr)
  assume "\<not> k \<le> 4"
  with assms(1) have "k > nat (s_i s)" by (auto simp: shop_inv_def threads_ok_def seats_def)
  with assms show False by (auto simp: shop_inv_def threads_ok_def)
qed

lemma forgotten_step:
  assumes f: "forgotten s" and "shop_step False s t" shows "forgotten t"
proof -
  from f have inv: "shop_inv s" and sl: "all_asleep s" and c: "fourth (s_pc s 4) (s_current s) (s_reg s 4)"
    by (auto simp: forgotten_def)
  have it: "shop_inv t" using shop.inv_step [OF inv assms(2)] .
  from assms(2) have "all_asleep t \<and> fourth (s_pc t 4) (s_current t) (s_reg t 4)"
  proof cases
    case (step_customer k)
    have "s_pc s k \<noteq> No_thread" using step_customer(2) by (auto simp: customer_def)
    from customers_1_to_4 [OF inv this] step_customer(1) have "k = 1 \<or> k = 2 \<or> k = 3 \<or> k = 4" by auto
    moreover have "k \<notin> {1, 2, 3}" using step_customer(2) sl by (auto simp: customer_def all_asleep_def)
    ultimately have "k = 4" by blast
    with step_customer(2) sl c show ?thesis
      by (cases "s_pc s 4") (auto simp: customer_def shop_defs all_asleep_def seats_def)
  next
    case (step_barber w)
    with sl show ?thesis by (simp add: barber_def all_asleep_def)
  next
    case (step_maker r)
    show ?thesis
    proof (cases "s_pc t = s_pc s")
      case True
      with maker_frame [OF step_maker] sl c show ?thesis by (simp add: all_asleep_def)
    next
      case False
      with step_maker inv have i: "1 \<le> s_i s" "s_i s \<le> 4" "s_pc s (nat (s_i s)) = No_thread"
        and t: "t = at (nat (s_i s)) Cust_lock (s\<lparr>s_maker := Maker_loop\<rparr>)"
        by (auto simp: shop_inv_def threads_ok_def maker_def Let_def seats_def split: maker_pc.splits if_splits)
      then have "s_i s = 1 \<or> s_i s = 2 \<or> s_i s = 3 \<or> s_i s = 4" by auto
      with i(3) sl have "s_i s = 4" by (auto simp: all_asleep_def)
      with i(3) sl c show ?thesis by (simp add: t at_def all_asleep_def)
    qed
  qed simp_all
  with it show ?thesis by (simp add: forgotten_def)
qed

lemma forgotten_for_ever: "(shop_step False)\<^sup>*\<^sup>* s t \<Longrightarrow> forgotten s \<Longrightarrow> forgotten t"
  by (induction rule: rtranclp_induct) (auto intro: forgotten_step)

text \<open>The barber sees no customer, three arrive while he is not yet asleep, then he falls asleep.\<close>

definition lost_run :: "saction list" where
  "lost_run = make_four @ [Barb None] @ take_seat 1 @ take_seat 2 @ take_seat 3 @ replicate 3 (Barb (Some 1))"

lemma lost_run_state:
  "case run_shop lost_run shop_init of None \<Rightarrow> False
   | Some s \<Rightarrow> all_asleep s \<and> s_pc s 4 = Cust_lock \<and> s_current s = 3"
  by code_simp

subsection \<open>Main properties\<close>

text \<open>
  C17: The shop is never overfull. However the threads interleave, also with lost updates of \<open>current\<close> and
  spurious wake-ups, the count of customers is at most the number of seats, and less whenever no
  customer holds \<open>queue_mutex\<close>; at most one customer is between the lock and the unlock of \<open>checkQueue\<close>.
\<close>

theorem barber_seat_bound:
  assumes "shop_reach sp s"
  shows "s_current s \<le> seats \<and> (s_queue s = None \<longrightarrow> s_current s < seats) \<and>
    (\<forall>j k. in_queue (s_pc s j) \<and> in_queue (s_pc s k) \<longrightarrow> j = k)"
proof -
  from shop.reach_inv [OF assms] have q: "queue_ok s" and c: "count_ok s" by (auto simp: shop_inv_def)
  have "s_current s < seats" if "s_queue s = None"
    using that q c over_in_queue unfolding queue_ok_def count_ok_def by (metis option.distinct(1) order_le_imp_less_or_eq)
  moreover have "j = k" if "in_queue (s_pc s j)" "in_queue (s_pc s k)" for j k
    using that q unfolding queue_ok_def by (metis option.inject)
  ultimately show ?thesis using c by (auto simp: count_ok_def)
qed

text \<open>
  C24: A race between the two tests of \<open>checkQueue\<close> locks the shop. A haircut that ends after a customer has
  found \<open>current < seats\<close> false and before it tests \<open>current >= seats\<close> makes both tests fail, and the customer
  returns with \<open>queue_mutex\<close> locked. The program reaches a state from which, whatever happens, that
  customer waits for its own lock and no customer ever looks for a chair again.
\<close>

theorem barber_lock_leak:
  "\<exists>s. shop_reach False s \<and>
     (\<forall>sp. {t. (shop_step sp)\<^sup>*\<^sup>* s t} \<subseteq> {t. s_queue t = Some 4 \<and> s_pc t 4 = Cust_lock \<and> (\<forall>k. \<not> in_queue (s_pc t k))})"
proof -
  from leak_run_state obtain s where s: "run_shop leak_run shop_init = Some s" "s_queue s = Some 4" "s_pc s 4 = Cust_lock"
    by (auto split: option.splits)
  have r: "shop_reach False s" by (rule run_shop_reach [OF s(1) init_reach])
  with shop.reach_inv s have "self_locked 4 s" by (simp add: self_locked_def)
  have "s_queue t = Some 4 \<and> s_pc t 4 = Cust_lock \<and> (\<forall>k. \<not> in_queue (s_pc t k))" if "(shop_step sp)\<^sup>*\<^sup>* s t" for sp t
    using self_locked_for_ever [OF that \<open>self_locked 4 s\<close>]
    by (auto simp: self_locked_def shop_inv_def queue_ok_def)
  with r show ?thesis by blast
qed

text \<open>
  C25: A wake-up is lost. Customers that arrive after the barber has found no customer and before he has
  set \<open>sleeping\<close> do not signal him: the program reaches a state with three customers in their chairs and
  the barber asleep, and without spurious wake-ups they all stay so for ever, since a fourth customer
  finds the shop full and does not signal either.
\<close>

theorem barber_lost_wakeup:
  "\<exists>s. shop_reach False s \<and> s_current s = 3 \<and> {t. (shop_step False)\<^sup>*\<^sup>* s t} \<subseteq> Collect all_asleep"
proof -
  from lost_run_state obtain s where s: "run_shop lost_run shop_init = Some s" "all_asleep s" "s_pc s 4 = Cust_lock"
    "s_current s = 3" by (auto split: option.splits)
  have r: "shop_reach False s" by (rule run_shop_reach [OF s(1) init_reach])
  with shop.reach_inv s have "forgotten s" by (simp add: forgotten_def)
  with forgotten_for_ever have "all_asleep t" if "(shop_step False)\<^sup>*\<^sup>* s t" for t using that by (auto simp: forgotten_def)
  with r s(4) show ?thesis by blast
qed

text \<open>
  The maker of customers does not get to its fifth customer. It increments \<open>i\<close> before it uses it, so
  that the elements used are 1 to 5 of arrays of five: in every reachable state at most four customers
  exist, the loop has not ended, and the only step that can go wrong is the fifth round, which always
  does.
\<close>

lemma customer_overrun:
  assumes "shop_reach sp s"
  shows "s_maker s \<noteq> Maker_exit \<and> (\<forall>k. s_pc s k \<noteq> No_thread \<longrightarrow> k \<le> 4) \<and>
    (maker r s = Some (Inl Wild) \<longleftrightarrow> s_maker s = Maker_loop \<and> s_i s = seats)"
proof -
  from shop.reach_inv [OF assms] have inv: "shop_inv s" .
  then have "maker r s = Some (Inl Wild) \<longleftrightarrow> s_maker s = Maker_loop \<and> s_i s = seats" and "s_maker s \<noteq> Maker_exit"
    by (auto simp: shop_inv_def threads_ok_def maker_def Let_def split: maker_pc.splits if_splits)
  with customers_1_to_4 [OF inv] show ?thesis by blast
qed

definition lost_state :: shop where
  "lost_state = the (run_shop lost_run shop_init)"

lemma lost_state: "shop_reach sp lost_state" "s_current lost_state = 3" "s_queue lost_state = None" "s_i lost_state = 4"
    "s_maker lost_state = Maker_loop"
proof -
  have run: "case run_shop lost_run shop_init of None \<Rightarrow> False
     | Some s \<Rightarrow> s_current s = 3 \<and> s_queue s = None \<and> s_i s = 4 \<and> s_maker s = Maker_loop" by code_simp
  then have e: "run_shop lost_run shop_init = Some lost_state" by (auto simp: lost_state_def split: option.splits)
  show "shop_reach sp lost_state" by (rule run_shop_reach [OF e init_reach])
  from run show "s_current lost_state = 3" "s_queue lost_state = None" "s_i lost_state = 4"
    "s_maker lost_state = Maker_loop" by (simp_all add: e)
qed

theorem barber_seat_bound_witness:
  "shop_reach True lost_state \<and> s_queue lost_state = None \<and> s_current lost_state < seats"
  using barber_seat_bound [OF lost_state(1)] lost_state by blast

lemma customer_overrun_witness:
  "shop_reach True lost_state \<and> maker 1 lost_state = Some (Inl Wild)"
  using customer_overrun [OF lost_state(1) [of True], of 1] lost_state by (simp add: seats_def)

end
