(* ===== verification/Smokers.thy ===== *)
theory Smokers
  imports Threads
begin

text \<open>
  The cigarette smokers of \<open>recitations/concurrency5.cpp\<close>: six smokers, three agents, and three
  \<open>admin\<close> threads that combine the items on the table. A step is one semaphore call, or the section
  that an admin runs under \<open>admin_lock\<close>. \<open>None\<close>: the thread blocks. \<open>k_now\<close> is the clock that
  \<open>sem_timedwait\<close> compares the absolute time \<open>ts\<close> with, in seconds since the epoch; it advances by
  itself, as a thread of its own. The smokers ignore what \<open>sem_timedwait\<close> returns.
\<close>

subsection \<open>State\<close>

datatype smoker_pc = Smoke_wait | Smoke_make | Smoke_smoke

datatype agent_pc = Agent_wait | Agent_post | Agent_post_next

datatype admin_pc = Admin_wait | Admin_lock | Admin_table | Admin_unlock

text \<open>\<open>ts\<close>, as \<open>main\<close> sets it (line 140; the nanoseconds of a global variable are 0).\<close>

definition ts_sec :: nat where "ts_sec = 10"

record smoke_sys =
  k_smoker :: "nat \<Rightarrow> nat"
  k_admin :: "nat \<Rightarrow> nat"
  k_agent :: nat
  k_lock :: nat
  k_avail :: "nat \<Rightarrow> bool"
  k_spc :: "nat \<Rightarrow> smoker_pc"
  k_gpc :: "nat \<Rightarrow> agent_pc"
  k_apc :: "nat \<Rightarrow> admin_pc"
  k_now :: nat

text \<open>The semaphores as \<open>main\<close> initialises them at time \<open>t0\<close>, with all threads at their start.\<close>

definition smoke_init :: "nat \<Rightarrow> smoke_sys" where
  "smoke_init t0 = \<lparr>k_smoker = (\<lambda>_. 0), k_admin = (\<lambda>_. 0), k_agent = 1, k_lock = 1, k_avail = (\<lambda>_. False),
     k_spc = (\<lambda>_. Smoke_wait), k_gpc = (\<lambda>_. Agent_wait), k_apc = (\<lambda>_. Admin_wait),
     k_now = t0\<rparr>"

subsection \<open>Threads\<close>

definition post_smoker :: "nat \<Rightarrow> smoke_sys \<Rightarrow> smoke_sys" where
  "post_smoker j s = s\<lparr>k_smoker := (k_smoker s)(j := sem_post (k_smoker s j))\<rparr>"

definition post_admin :: "nat \<Rightarrow> smoke_sys \<Rightarrow> smoke_sys" where
  "post_admin j s = s\<lparr>k_admin := (k_admin s)(j := sem_post (k_admin s j))\<rparr>"

definition set_avail :: "nat \<Rightarrow> bool \<Rightarrow> smoke_sys \<Rightarrow> smoke_sys" where
  "set_avail j b s = s\<lparr>k_avail := (k_avail s)(j := b)\<rparr>"

definition smoker :: "nat \<Rightarrow> smoke_sys \<Rightarrow> smoke_sys option" where
  "smoker i s =
     (let j = i mod 3; go = \<lambda>p s. s\<lparr>k_spc := (k_spc s)(i := p)\<rparr> in
      case k_spc s i of
        Smoke_wait \<Rightarrow> map_option (\<lambda>v. go Smoke_make (s\<lparr>k_smoker := (k_smoker s)(j := v)\<rparr>))
          (sem_timedwait (k_now s) ts_sec (k_smoker s j))
      | Smoke_make \<Rightarrow> Some (go Smoke_smoke (s\<lparr>k_agent := sem_post (k_agent s)\<rparr>))
      | Smoke_smoke \<Rightarrow> Some (go Smoke_wait s))"

definition agent :: "nat \<Rightarrow> smoke_sys \<Rightarrow> smoke_sys option" where
  "agent j s =
     (let go = \<lambda>p s. s\<lparr>k_gpc := (k_gpc s)(j := p)\<rparr> in
      case k_gpc s j of
        Agent_wait \<Rightarrow> map_option (\<lambda>v. go Agent_post (s\<lparr>k_agent := v\<rparr>)) (sem_wait (k_agent s))
      | Agent_post \<Rightarrow> Some (go Agent_post_next (post_admin j s))
      | Agent_post_next \<Rightarrow> Some (go Agent_wait (post_admin ((j + 1) mod 3) s)))"

text \<open>The section of \<open>admin\<close> under \<open>admin_lock\<close>: lines 107 to 119.\<close>

definition admin_table :: "nat \<Rightarrow> smoke_sys \<Rightarrow> smoke_sys" where
  "admin_table j s =
     (if k_avail s ((j + 1) mod 3) then post_smoker ((j + 2) mod 3) (set_avail ((j + 1) mod 3) False s)
      else if k_avail s ((j + 2) mod 3) then post_smoker ((j + 1) mod 3) (set_avail ((j + 2) mod 3) False s)
      else set_avail j True s)"

definition admin :: "nat \<Rightarrow> smoke_sys \<Rightarrow> smoke_sys option" where
  "admin j s =
     (let go = \<lambda>p s. s\<lparr>k_apc := (k_apc s)(j := p)\<rparr> in
      case k_apc s j of
        Admin_wait \<Rightarrow> map_option (\<lambda>v. go Admin_lock (s\<lparr>k_admin := (k_admin s)(j := v)\<rparr>)) (sem_wait (k_admin s j))
      | Admin_lock \<Rightarrow> map_option (\<lambda>v. go Admin_table (s\<lparr>k_lock := v\<rparr>)) (sem_wait (k_lock s))
      | Admin_table \<Rightarrow> Some (go Admin_unlock (admin_table j s))
      | Admin_unlock \<Rightarrow> Some (go Admin_wait (s\<lparr>k_lock := sem_post (k_lock s)\<rparr>)))"

text \<open>
  The twelve threads that \<open>main\<close> starts: smokers 0 to 5, agents 6 to 8, admins 9 to 11; and the clock,
  12.
\<close>

definition smoke_run :: "nat \<Rightarrow> smoke_sys \<Rightarrow> smoke_sys option" where
  "smoke_run i s =
     (if i < 6 then smoker i s else if i < 9 then agent (i - 6) s else if i < 12 then admin (i - 9) s
      else if i = 12 then Some (s\<lparr>k_now := k_now s + 1\<rparr>) else None)"

definition smoke_thread :: "nat \<Rightarrow> smoke_sys \<Rightarrow> smoke_sys \<Rightarrow> bool" where
  "smoke_thread i s t \<longleftrightarrow> smoke_run i s = Some t"

abbreviation smoke_reach :: "nat \<Rightarrow> smoke_sys \<Rightarrow> bool" where
  "smoke_reach t0 \<equiv> reach (\<lambda>s. s = smoke_init t0) (interleave 13 smoke_thread)"

named_theorems smoke_defs
declare post_smoker_def [smoke_defs] and post_admin_def [smoke_defs] and set_avail_def [smoke_defs]

lemma smoke_thread_cases:
  assumes "smoke_thread i s t"
  obtains (Smoker) "i < 6" "smoker i s = Some t"
  | (Agent) j where "j < 3" "i = j + 6" "agent j s = Some t"
  | (Admin) j where "j < 3" "i = j + 9" "admin j s = Some t"
  | (Clock) "i = 12" "t = s\<lparr>k_now := k_now s + 1\<rparr>"
proof -
  from assms consider "i < 6" | "6 \<le> i" "i < 9" | "9 \<le> i" "i < 12" | "i = 12"
    by (fastforce simp: smoke_thread_def smoke_run_def split: if_splits)
  then show thesis
  proof cases
    case 1
    with assms show ?thesis by (intro Smoker) (simp_all add: smoke_thread_def smoke_run_def)
  next
    case 2
    with assms show ?thesis by (intro Agent [of "i - 6"]) (simp_all add: smoke_thread_def smoke_run_def)
  next
    case 3
    with assms show ?thesis by (intro Admin [of "i - 9"]) (simp_all add: smoke_thread_def smoke_run_def)
  next
    case 4
    with assms show ?thesis by (intro Clock) (simp_all add: smoke_thread_def smoke_run_def)
  qed
qed

subsection \<open>The admin lock\<close>

fun has_lock :: "admin_pc \<Rightarrow> bool" where
  "has_lock Admin_table = True" | "has_lock Admin_unlock = True" | "has_lock _ = False"

definition admin_inside :: "smoke_sys \<Rightarrow> nat \<Rightarrow> bool" where
  "admin_inside s i \<longleftrightarrow> 9 \<le> i \<and> i < 12 \<and> has_lock (k_apc s (i - 9))"

lemma admin_table_fields [simp]:
  "k_lock (admin_table j s) = k_lock s" "k_apc (admin_table j s) = k_apc s" "k_gpc (admin_table j s) = k_gpc s"
  "k_spc (admin_table j s) = k_spc s" "k_agent (admin_table j s) = k_agent s" "k_admin (admin_table j s) = k_admin s"
  "k_now (admin_table j s) = k_now s"
  by (simp_all add: admin_table_def smoke_defs)

lemma smoker_fields:
  assumes "smoker i s = Some t" shows "k_apc t = k_apc s" "k_lock t = k_lock s" "k_gpc t = k_gpc s" "k_avail t = k_avail s"
    "k_admin t = k_admin s" "k_now t = k_now s"
  using assms by (auto simp: smoker_def Let_def split: smoker_pc.splits)

lemma agent_fields:
  assumes "agent j s = Some t" shows "k_apc t = k_apc s" "k_lock t = k_lock s" "k_spc t = k_spc s" "k_avail t = k_avail s"
    "k_smoker t = k_smoker s" "k_now t = k_now s"
  using assms by (auto simp: agent_def smoke_defs Let_def split: agent_pc.splits)

lemma admin_fields:
  assumes "admin j s = Some t" shows "i \<noteq> j \<Longrightarrow> k_apc t i = k_apc s i"
    "k_lock s \<le> 1 \<Longrightarrow> k_lock t + of_bool (has_lock (k_apc t j)) = k_lock s + of_bool (has_lock (k_apc s j))"
    "k_spc t = k_spc s" "k_gpc t = k_gpc s" "k_agent t = k_agent s" "k_now t = k_now s"
  using assms by (auto simp: admin_def smoke_defs sem_post_binary Let_def split: admin_pc.splits)

interpretation admin_lock: sem_guard 13 "\<lambda>s. s = smoke_init t0" smoke_thread k_lock admin_inside for t0
proof
  fix s t i j assume "smoke_thread i s t" and "j \<noteq> i"
  then show "admin_inside t j = admin_inside s j"
    by (cases rule: smoke_thread_cases) (auto simp: admin_inside_def smoker_fields agent_fields admin_fields)
next
  fix s t i assume "smoke_thread i s t" and "k_lock s \<le> 1"
  then show "k_lock t + of_bool (admin_inside t i) = k_lock s + of_bool (admin_inside s i)"
    by (cases rule: smoke_thread_cases) (auto simp: admin_inside_def smoker_fields agent_fields admin_fields(2))
qed (simp_all add: smoke_init_def admin_inside_def)

end
