(* ===== verification/Smokers_Props.thy ===== *)
theory Smokers_Props
  imports Smokers
begin

text \<open>
  Properties of the cigarette smokers: what the two admins of one round do in either order; that the
  table and its lock are used properly and that no thread is ever stuck for good; and what the timeout
  that has always passed does: smokers make cigarettes from nothing, rounds overlap, and items of
  different rounds are combined and lost.
\<close>

subsection \<open>The table\<close>

lemma all3: "(\<forall>j < (3::nat). P j) \<longleftrightarrow> P 0 \<and> P 1 \<and> P 2"
  by (auto simp: less_Suc_eq eval_nat_numeral)

lemma all6: "(\<forall>i < (6::nat). P i) \<longleftrightarrow> P 0 \<and> P 1 \<and> P 2 \<and> P 3 \<and> P 4 \<and> P 5"
  by (simp add: eval_nat_numeral All_less_Suc) blast

lemma two: "Suc (Suc 0) = 2"
  by simp

lemma cases3: "(j :: nat) < 3 \<Longrightarrow> j = 0 \<or> j = 1 \<or> j = 2"
  by auto

lemma other_items:
  assumes j: "j < 3" and i: "i < 3" and "\<not> k_avail s ((j + 1) mod 3)" "\<not> k_avail s ((j + 2) mod 3)" "k_avail s i"
  shows "i = j"
  using cases3 [OF i] cases3 [OF j] assms(3-) by (elim disjE) (simp_all add: two)

lemma admin_table_items: "k_avail (admin_table j s) i \<Longrightarrow> k_avail s i \<or> i = j"
  by (auto simp: admin_table_def smoke_defs split: if_splits)

text \<open>At most one item lies on the table.\<close>

definition table_ok :: "smoke_sys \<Rightarrow> bool" where
  "table_ok s \<longleftrightarrow> (\<forall>i < 3. \<forall>j < 3. k_avail s i \<and> k_avail s j \<longrightarrow> i = j)"

lemma admin_table_ok:
  assumes ok: "table_ok s" and j: "j < 3" shows "table_ok (admin_table j s)"
proof (cases "k_avail s ((j + 1) mod 3) \<or> k_avail s ((j + 2) mod 3)")
  case True
  then have "k_avail (admin_table j s) i \<Longrightarrow> k_avail s i" for i
    by (auto simp: admin_table_def smoke_defs split: if_splits)
  with ok show ?thesis by (auto simp: table_ok_def)
next
  case False
  then have "i = j" if "k_avail (admin_table j s) i" "i < 3" for i
    using that other_items [OF j] admin_table_items [OF that(1)] by blast
  then show ?thesis by (auto simp: table_ok_def)
qed

interpretation table: invariant_system "\<lambda>s. s = smoke_init t0" "interleave 13 smoke_thread" "\<lambda>s. table_ok s \<and> t0 \<le> k_now s" for t0
proof
  fix s t assume inv: "table_ok s \<and> t0 \<le> k_now s" and "interleave 13 smoke_thread s t"
  then obtain i where "smoke_thread i s t" by (auto simp: interleave_def)
  then show "table_ok t \<and> t0 \<le> k_now t"
  proof (cases rule: smoke_thread_cases)
    case (Admin j)
    with inv admin_table_ok [OF _ Admin(1), of s] admin_fields(6) [OF Admin(3)] show ?thesis
      by (auto simp: table_ok_def admin_def Let_def split: admin_pc.splits)
  qed (use inv in \<open>simp_all add: table_ok_def smoker_fields agent_fields\<close>)
qed (simp add: smoke_init_def table_ok_def)

text \<open>
  The two admins of a round serve the right smoker. From a table with no item on it, the admins of the
  two items that agent \<open>j\<close> gives out, in either order, leave the table empty and wake the smokers that
  wait for those two items, number \<open>j + 2\<close>.
\<close>

lemma smokers_round:
  assumes "j < 3" and "\<forall>i < 3. \<not> k_avail s i"
  shows "admin_table ((j + 1) mod 3) (admin_table j s) = post_smoker ((j + 2) mod 3) s \<and>
    admin_table j (admin_table ((j + 1) mod 3) s) = post_smoker ((j + 2) mod 3) s"
proof -
  have "(k_avail s)(i := False) = k_avail s" if "i < 3" for i using assms(2) that by (simp add: fun_upd_idem)
  with cases3 [OF assms(1)] assms(2) show ?thesis
    by (elim disjE) (simp_all add: admin_table_def smoke_defs all3 two)
qed

lemma smokers_round_witness:
  "admin_table 0 (admin_table 2 (smoke_init 0)) = post_smoker 1 (smoke_init 0) \<and>
    admin_table 2 (admin_table 0 (smoke_init 0)) = post_smoker 1 (smoke_init 0)"
  using smokers_round [of 2 "smoke_init 0"] by (simp add: smoke_init_def two)

subsection \<open>Progress\<close>

text \<open>What the threads, without the clock, can do from a state.\<close>

abbreviation smoke_runs :: "smoke_sys \<Rightarrow> smoke_sys \<Rightarrow> bool" where
  "smoke_runs \<equiv> rtranclp (interleave 12 smoke_thread)"

lemma smoke_runs_step:
  assumes "smoke_runs s t" and "i < 12" and "smoke_run i t = Some u" shows "smoke_runs s u"
proof -
  have "interleave 12 smoke_thread t u" using assms(2,3) by (auto simp: interleave_def smoke_thread_def)
  with assms(1) show ?thesis by (rule rtranclp.rtrancl_into_rtrancl)
qed

lemma smoke_run_threads:
  "i < 6 \<Longrightarrow> smoke_run i s = smoker i s" "j < 3 \<Longrightarrow> smoke_run (j + 6) s = agent j s" "j < 3 \<Longrightarrow> smoke_run (j + 9) s = admin j s"
  by (simp_all add: smoke_run_def)

text \<open>Once the timeout has passed a smoker can always step.\<close>

lemma smoker_steps: "ts_sec \<le> k_now s \<Longrightarrow> \<exists>t. smoker i s = Some t"
  by (cases "k_spc s i"; cases "k_smoker s (i mod 3)") (auto simp: smoker_def sem_timedwait_def sem_wait_def Let_def)

lemma smoker_posts:
  assumes "ts_sec \<le> k_now s"
  shows "\<exists>t. smoke_runs s t \<and> 0 < k_agent t \<and> k_gpc t = k_gpc s \<and> k_apc t = k_apc s \<and> k_now t = k_now s"
proof -
  have make: "\<exists>t. smoke_runs s t \<and> 0 < k_agent t \<and> k_gpc t = k_gpc u \<and> k_apc t = k_apc u \<and> k_now t = k_now u"
    if "smoke_runs s u" "k_spc u 0 = Smoke_make" for u
    using smoke_runs_step [OF that(1), of 0 "u\<lparr>k_agent := sem_post (k_agent u), k_spc := (k_spc u)(0 := Smoke_smoke)\<rparr>"] that(2)
    by (auto simp: smoke_run_threads smoker_def Let_def)
  have wait: "\<exists>t. smoke_runs s t \<and> 0 < k_agent t \<and> k_gpc t = k_gpc u \<and> k_apc t = k_apc u \<and> k_now t = k_now u"
    if u: "smoke_runs s u" "k_spc u 0 = Smoke_wait" "ts_sec \<le> k_now u" for u
  proof -
    obtain v where v: "smoker 0 u = Some v" using smoker_steps [OF u(3)] by blast
    then have "k_spc v 0 = Smoke_make" using u(2) by (auto simp: smoker_def Let_def)
    moreover have "smoke_runs s v" using smoke_runs_step [OF u(1), of 0 v] v by (simp add: smoke_run_threads)
    ultimately show ?thesis using make smoker_fields [OF v] by metis
  qed
  show ?thesis
  proof (cases "k_spc s 0")
    case Smoke_smoke
    define u where "u = s\<lparr>k_spc := (k_spc s)(0 := Smoke_wait)\<rparr>"
    have u: "k_spc u 0 = Smoke_wait" "k_gpc u = k_gpc s" "k_apc u = k_apc s" "k_now u = k_now s" by (simp_all add: u_def)
    have "smoke_run 0 s = Some u" using Smoke_smoke by (simp add: smoke_run_threads smoker_def Let_def u_def)
    with smoke_runs_step [OF rtranclp.rtrancl_refl, of 0] have "smoke_runs s u" by simp
    from wait [OF this u(1)] u(2-4) assms show ?thesis by metis
  next
    case Smoke_wait
    from wait [OF rtranclp.rtrancl_refl this assms] show ?thesis .
  next
    case Smoke_make
    from make [OF rtranclp.rtrancl_refl this] show ?thesis .
  qed
qed

lemma agent_starts:
  assumes "ts_sec \<le> k_now s" and "k_gpc s j = Agent_wait"
  shows "\<exists>t u. smoke_runs s t \<and> agent j t = Some u \<and> k_gpc u j = Agent_post \<and> k_apc u = k_apc s"
proof -
  from smoker_posts [OF assms(1)] obtain t where "smoke_runs s t" "0 < k_agent t" "k_gpc t = k_gpc s" "k_apc t = k_apc s" by blast
  moreover from this assms(2) have "\<exists>u. agent j t = Some u \<and> k_gpc u j = Agent_post \<and> k_apc u = k_apc t"
    by (auto simp: agent_def sem_wait_def Let_def)
  ultimately show ?thesis by auto
qed

lemma agent_runs:
  assumes "ts_sec \<le> k_now s" shows "\<exists>t u. smoke_runs s t \<and> agent j t = Some u"
proof (cases "k_gpc s j = Agent_wait")
  case False
  then have "\<exists>u. agent j s = Some u" by (cases "k_gpc s j") (simp_all add: agent_def Let_def)
  then show ?thesis by blast
qed (use agent_starts [OF assms] in blast)

lemma agent_posts:
  assumes now: "ts_sec \<le> k_now s" and j: "j < 3"
  shows "\<exists>t. smoke_runs s t \<and> 0 < k_admin t j \<and> k_apc t = k_apc s"
proof -
  have post: "\<exists>t. smoke_runs s t \<and> 0 < k_admin t j \<and> k_apc t = k_apc u" if "smoke_runs s u" "k_gpc u j = Agent_post" for u
    using smoke_runs_step [OF that(1), of "j + 6"] that(2) j by (auto simp: smoke_run_threads agent_def smoke_defs Let_def)
  have start: "\<exists>t. smoke_runs s t \<and> 0 < k_admin t j \<and> k_apc t = k_apc u"
    if u: "smoke_runs s u" "k_gpc u j = Agent_wait" "ts_sec \<le> k_now u" for u
  proof -
    from agent_starts [OF u(3,2)] obtain t v where tv: "smoke_runs u t" "agent j t = Some v" "k_gpc v j = Agent_post" "k_apc v = k_apc u"
      by blast
    have "smoke_runs s t" using u(1) tv(1) by simp
    then have "smoke_runs s v" using smoke_runs_step [of s t "j + 6" v] tv(2) j by (simp add: smoke_run_threads)
    from post [OF this tv(3)] tv(4) show ?thesis by simp
  qed
  show ?thesis
  proof (cases "k_gpc s j")
    case Agent_post_next
    define u where "u = (post_admin ((j + 1) mod 3) s)\<lparr>k_gpc := (k_gpc s)(j := Agent_wait)\<rparr>"
    have u: "k_gpc u j = Agent_wait" "k_apc u = k_apc s" "k_now u = k_now s" by (simp_all add: u_def smoke_defs)
    have "smoke_run (j + 6) s = Some u" using Agent_post_next j by (simp add: smoke_run_threads agent_def smoke_defs Let_def u_def)
    with smoke_runs_step [OF rtranclp.rtrancl_refl, of "j + 6"] j have "smoke_runs s u" by simp
    from start [OF this u(1)] u(2,3) now show ?thesis by metis
  next
    case Agent_wait
    from start [OF rtranclp.rtrancl_refl this now] show ?thesis .
  next
    case Agent_post
    from post [OF rtranclp.rtrancl_refl this] show ?thesis .
  qed
qed

lemma holder_posts:
  assumes "l < 3" and "has_lock (k_apc s l)"
  shows "\<exists>t. smoke_runs s t \<and> 0 < k_lock t \<and> (\<forall>j. j \<noteq> l \<longrightarrow> k_apc t j = k_apc s j)"
proof -
  have unlock: "\<exists>t. smoke_runs s t \<and> 0 < k_lock t \<and> (\<forall>j. j \<noteq> l \<longrightarrow> k_apc t j = k_apc u j)"
    if "smoke_runs s u" "k_apc u l = Admin_unlock" for u
    using smoke_runs_step [OF that(1), of "l + 9"] that(2) assms(1) by (auto simp: smoke_run_threads admin_def Let_def)
  show ?thesis
  proof (cases "k_apc s l")
    case Admin_table
    define u where "u = (admin_table l s)\<lparr>k_apc := (k_apc s)(l := Admin_unlock)\<rparr>"
    have u: "k_apc u l = Admin_unlock" "\<forall>j. j \<noteq> l \<longrightarrow> k_apc u j = k_apc s j" by (simp_all add: u_def)
    have "smoke_run (l + 9) s = Some u" using Admin_table assms(1) by (simp add: smoke_run_threads admin_def Let_def u_def)
    with smoke_runs_step [OF rtranclp.rtrancl_refl, of "l + 9"] assms(1) have "smoke_runs s u" by simp
    from unlock [OF this u(1)] u(2) show ?thesis by metis
  next
    case Admin_unlock
    from unlock [OF rtranclp.rtrancl_refl this] show ?thesis .
  qed (use assms(2) in simp_all)
qed

lemma admin_runs:
  assumes r: "smoke_reach t0 s" and now: "ts_sec \<le> k_now s" and j: "j < 3"
  shows "\<exists>t u. smoke_runs s t \<and> admin j t = Some u"
proof (cases "k_apc s j")
  case Admin_wait
  from agent_posts [OF now j] obtain t where "smoke_runs s t" "0 < k_admin t j" "k_apc t = k_apc s" by blast
  moreover from this Admin_wait have "\<exists>u. admin j t = Some u" by (simp add: admin_def sem_wait_def Let_def)
  ultimately show ?thesis by blast
next
  case Admin_lock
  have "\<exists>t. smoke_runs s t \<and> 0 < k_lock t \<and> k_apc t j = Admin_lock"
  proof (cases "0 < k_lock s")
    case False
    then obtain l where l: "9 \<le> l" "l < 12" "has_lock (k_apc s (l - 9))"
      using admin_lock.holder [OF r] by (auto simp: admin_inside_def)
    with Admin_lock have "l - 9 < 3" "j \<noteq> l - 9" by auto
    with holder_posts [OF _ l(3)] Admin_lock show ?thesis by metis
  qed (use Admin_lock in auto)
  then obtain t where "smoke_runs s t" "0 < k_lock t" "k_apc t j = Admin_lock" by blast
  moreover from this have "\<exists>u. admin j t = Some u" by (simp add: admin_def sem_wait_def Let_def)
  ultimately show ?thesis by blast
next
  case Admin_table
  then have "\<exists>u. admin j s = Some u" by (simp add: admin_def Let_def)
  then show ?thesis by blast
next
  case Admin_unlock
  then have "\<exists>u. admin j s = Some u" by (simp add: admin_def Let_def)
  then show ?thesis by blast
qed

subsection \<open>Runs\<close>

primrec run_smoke :: "nat list \<Rightarrow> smoke_sys \<Rightarrow> smoke_sys option" where
  "run_smoke [] s = Some s"
| "run_smoke (i # w) s = (case smoke_run i s of Some t \<Rightarrow> run_smoke w t | None \<Rightarrow> None)"

lemma run_smoke_reach:
  assumes "run_smoke w s = Some t" and "\<forall>i \<in> set w. i < 13" and "smoke_reach t0 s" shows "smoke_reach t0 t"
  using assms
proof (induction w arbitrary: s)
  case (Cons i w)
  then obtain u where u: "smoke_run i s = Some u" "run_smoke w u = Some t" by (auto split: option.splits)
  then have "interleave 13 smoke_thread s u" using Cons.prems(2) by (auto simp: interleave_def smoke_thread_def)
  with Cons.prems(3) have "smoke_reach t0 u" by (rule reach_step)
  with Cons u(2) show ?case by simp
qed simp

lemma run_smoke_init:
  "run_smoke w (smoke_init t0) = Some t \<Longrightarrow> \<forall>i \<in> set w. i < 13 \<Longrightarrow> smoke_reach t0 t"
  by (rule run_smoke_reach) (auto intro: reach_init)

lemma timed_out: "ts_sec \<le> t0 \<Longrightarrow> sem_timedwait t0 ts_sec 0 = Some 0"
  by (simp add: sem_timedwait_def sem_wait_def)

lemmas smoke_eval = smoke_run_def smoker_def agent_def admin_def admin_table_def post_smoker_def post_admin_def set_avail_def
  sem_wait_def sem_post_binary smoke_init_def Let_def

text \<open>
  Two rounds at a time. Agent 0 gives out items 0 and 1; smoker 0 times out and raises \<open>agent_lock\<close>; agent
  1 gives out items 1 and 2; then admin 0, admin 2 and, twice, admin 1 work at the table.
\<close>

definition mixed_rounds :: "nat list" where
  "mixed_rounds = [6, 6, 6, 0, 0, 7, 7, 7] @ [9, 9, 9, 9] @ [11, 11, 11, 11] @ [10, 10, 10, 10] @ [10, 10, 10, 10]"

definition mixed_state :: "nat \<Rightarrow> smoke_sys" where
  "mixed_state t0 = (smoke_init t0)\<lparr>k_agent := 0, k_smoker := (\<lambda>_. 0)(1 := 1), k_avail := (\<lambda>_. False)(1 := True),
     k_spc := (\<lambda>_. Smoke_wait)(0 := Smoke_smoke)\<rparr>"

lemma mixed_given:
  assumes "ts_sec \<le> t0"
  shows "run_smoke ([6, 6, 6, 0, 0, 7, 7, 7] @ w) (smoke_init t0) =
    run_smoke w ((smoke_init t0)\<lparr>k_agent := 0, k_admin := (\<lambda>_. 0)(0 := 1, 1 := 2, 2 := 1), k_spc := (\<lambda>_. Smoke_wait)(0 := Smoke_smoke)\<rparr>)"
  by (simp add: smoke_eval timed_out [OF assms] fun_upd_idem fun_upd_twist numeral_2_eq_2)

lemma mixed_combined:
  "run_smoke ([9, 9, 9, 9] @ [11, 11, 11, 11] @ [10, 10, 10, 10] @ [10, 10, 10, 10])
     ((smoke_init t0)\<lparr>k_agent := 0, k_admin := (\<lambda>_. 0)(0 := 1, 1 := 2, 2 := 1), k_spc := (\<lambda>_. Smoke_wait)(0 := Smoke_smoke)\<rparr>) =
   Some (mixed_state t0)"
  by (simp add: smoke_eval mixed_state_def fun_upd_idem fun_upd_twist numeral_2_eq_2)

lemma mixed_run: "ts_sec \<le> t0 \<Longrightarrow> run_smoke mixed_rounds (smoke_init t0) = Some (mixed_state t0)"
  unfolding mixed_rounds_def using mixed_given mixed_combined by simp

text \<open>All smokers time out.\<close>

lemma all_make:
  assumes "ts_sec \<le> t0"
  shows "run_smoke [0, 1, 2, 3, 4, 5] (smoke_init t0) = Some ((smoke_init t0)\<lparr>k_spc :=
    (\<lambda>_. Smoke_wait)(0 := Smoke_make, 1 := Smoke_make, 2 := Smoke_make, 3 := Smoke_make, 4 := Smoke_make, 5 := Smoke_make)\<rparr>)"
  by (simp add: smoke_eval timed_out [OF assms] fun_upd_idem)

text \<open>A smoker that times out again and again.\<close>

lemma agent_lock_rises:
  assumes "ts_sec \<le> t0" and "n < SEM_VALUE_MAX" shows "smoke_reach t0 ((smoke_init t0)\<lparr>k_agent := n + 1\<rparr>)"
  using assms(2)
proof (induction n)
  case 0
  show ?case by (rule reach_init) (simp add: smoke_init_def)
next
  case (Suc n)
  have "run_smoke [0, 0, 0] ((smoke_init t0)\<lparr>k_agent := n + 1\<rparr>) = Some ((smoke_init t0)\<lparr>k_agent := Suc n + 1\<rparr>)"
    using Suc.prems by (simp add: smoke_run_def smoker_def smoke_init_def sem_post_def timed_out [OF assms(1)] fun_upd_idem Let_def)
  from run_smoke_reach [OF this _ Suc.IH] Suc.prems show ?case by simp
qed

subsection \<open>Main properties\<close>

text \<open>
  C18: No thread is ever stuck for good. Started ten seconds after the epoch or later, as the program
  always is, in every reachable state at most one item lies on the table and at most one admin works at
  it, and each smoker, agent and admin, even if it is blocked now, steps again in some continuation of the
  run: the timeout of the smokers keeps the program from deadlocking.
\<close>

theorem smokers_progress:
  assumes "smoke_reach t0 s" and "ts_sec \<le> t0" and "i < 12"
  shows "table_ok s \<and> (\<forall>j < 12. \<forall>l < 12. admin_inside s j \<and> admin_inside s l \<longrightarrow> j = l) \<and>
    (\<exists>t u. rtranclp (interleave 12 smoke_thread) s t \<and> smoke_thread i t u)"
proof -
  from table.reach_inv [OF assms(1)] assms(2) have tb: "table_ok s" and now: "ts_sec \<le> k_now s" by auto
  from assms(3) consider "i < 6" | "6 \<le> i" "i < 9" | "9 \<le> i" "i < 12" by linarith
  then have "\<exists>t u. smoke_runs s t \<and> smoke_thread i t u"
  proof cases
    case 1
    with smoker_steps [OF now, of i] have "\<exists>u. smoke_thread i s u" by (simp add: smoke_thread_def smoke_run_threads)
    then show ?thesis by blast
  next
    case 2
    with agent_runs [OF now, of "i - 6"] show ?thesis by (simp add: smoke_thread_def smoke_run_def)
  next
    case 3
    with admin_runs [OF assms(1) now, of "i - 9"] show ?thesis by (simp add: smoke_thread_def smoke_run_def)
  qed
  moreover have "j = l" if "j < 12" "l < 12" "admin_inside s j" "admin_inside s l" for j l
    using admin_lock.exclusive [OF assms(1), of j l] that by simp
  ultimately show ?thesis using tb by blast
qed

text \<open>Agent 0 has begun a round: agent 1 is blocked, but not for good.\<close>

theorem smokers_progress_witness:
  "\<exists>s t u. smoke_reach 1500000000 s \<and> smoke_run 7 s = None \<and>
     rtranclp (interleave 12 smoke_thread) s t \<and> smoke_thread 7 t u"
proof -
  let ?s = "(smoke_init 1500000000)\<lparr>k_agent := 0, k_gpc := (\<lambda>_. Agent_wait)(0 := Agent_post)\<rparr>"
  have "run_smoke [6] (smoke_init 1500000000) = Some ?s" by (simp add: smoke_eval)
  then have r: "smoke_reach 1500000000 ?s" by (rule run_smoke_init) simp
  have "smoke_run 7 ?s = None" by (simp add: smoke_eval)
  with smokers_progress [OF r, of 7] r show ?thesis by (auto simp: ts_sec_def)
qed

text \<open>
  C35: What the timeout does that has always passed when the program starts. All six smokers can make a
  cigarette at once although no item was ever given out; a smoker alone can raise \<open>agent_lock\<close> from 1 to
  any value up to \<open>SEM_VALUE_MAX\<close>; and so rounds overlap: agent 0 gives out items 0 and 1, for smokers of
  kind 2, agent 1 items 1 and 2, for those of kind 0, and when everything has been worked off, a smoker
  of kind 1, for whom neither round was, has been woken, one item lies on the table, and the fourth
  item is lost.
\<close>

theorem smokers_mix_rounds:
  assumes "ts_sec \<le> t0"
  shows "(\<exists>s. smoke_reach t0 s \<and> (\<forall>i < 6. k_spc s i = Smoke_make) \<and> k_gpc s = k_gpc (smoke_init t0) \<and>
      k_admin s = k_admin (smoke_init t0) \<and> k_avail s = k_avail (smoke_init t0) \<and> k_smoker s = k_smoker (smoke_init t0)) \<and>
    (\<forall>n. 1 \<le> n \<and> n \<le> SEM_VALUE_MAX \<longrightarrow> smoke_reach t0 ((smoke_init t0)\<lparr>k_agent := n\<rparr>)) \<and>
    (\<exists>s. smoke_reach t0 s \<and> run_smoke mixed_rounds (smoke_init t0) = Some s \<and>
      count_list mixed_rounds 6 = 3 \<and> count_list mixed_rounds 7 = 3 \<and> count_list mixed_rounds 8 = 0 \<and>
      (\<forall>j < 3. k_gpc s j = Agent_wait \<and> k_apc s j = Admin_wait \<and> k_admin s j = 0) \<and>
      (\<forall>j < 3. k_avail s j = (j = 1)) \<and> (\<forall>j < 3. k_smoker s j = (if j = 1 then 1 else 0)))"
proof (intro conjI allI impI)
  let ?s = "(smoke_init t0)\<lparr>k_spc :=
    (\<lambda>_. Smoke_wait)(0 := Smoke_make, 1 := Smoke_make, 2 := Smoke_make, 3 := Smoke_make, 4 := Smoke_make, 5 := Smoke_make)\<rparr>"
  have "smoke_reach t0 ?s" by (rule run_smoke_init [OF all_make [OF assms]]) simp
  then show "\<exists>s. smoke_reach t0 s \<and> (\<forall>i < 6. k_spc s i = Smoke_make) \<and> k_gpc s = k_gpc (smoke_init t0) \<and>
      k_admin s = k_admin (smoke_init t0) \<and> k_avail s = k_avail (smoke_init t0) \<and> k_smoker s = k_smoker (smoke_init t0)"
    by (intro exI [of _ ?s]) (simp add: all6)
  show "smoke_reach t0 ((smoke_init t0)\<lparr>k_agent := n\<rparr>)" if "1 \<le> n \<and> n \<le> SEM_VALUE_MAX" for n
  proof -
    from that have "n - 1 < SEM_VALUE_MAX" "n - 1 + 1 = n" by linarith+
    with agent_lock_rises [OF assms, of "n - 1"] show ?thesis by simp
  qed
  have "smoke_reach t0 (mixed_state t0)"
    by (rule run_smoke_init [OF mixed_run [OF assms]]) (simp add: mixed_rounds_def)
  with mixed_run [OF assms] show "\<exists>s. smoke_reach t0 s \<and> run_smoke mixed_rounds (smoke_init t0) = Some s \<and>
      count_list mixed_rounds 6 = 3 \<and> count_list mixed_rounds 7 = 3 \<and> count_list mixed_rounds 8 = 0 \<and>
      (\<forall>j < 3. k_gpc s j = Agent_wait \<and> k_apc s j = Admin_wait \<and> k_admin s j = 0) \<and>
      (\<forall>j < 3. k_avail s j = (j = 1)) \<and> (\<forall>j < 3. k_smoker s j = (if j = 1 then 1 else 0))"
    by (intro exI [of _ "mixed_state t0"] conjI) (simp_all add: mixed_state_def smoke_init_def mixed_rounds_def)
qed

theorem smokers_mix_rounds_witness:
  "\<exists>s. run_smoke mixed_rounds (smoke_init 1500000000) = Some s \<and> k_smoker s 1 = 1 \<and> k_avail s 1"
proof -
  have "ts_sec \<le> 1500000000" by (simp add: ts_sec_def)
  from smokers_mix_rounds [OF this] show ?thesis by auto
qed

end
