(* ===== verification/Spec2Isabelle.thy ===== *)
theory Spec2Isabelle
  imports Slob_Props Slob_Race Sstf Mersenne_Real Disk_Driver Disk_Order Philosopher Search_List_Props Producer_Props Barber_Props Smokers_Props
begin

text \<open>
  \<^bold>\<open>The programs.\<close> The repository holds the programs of an operating systems course, each on its own:
  a memory allocator, an I/O scheduler and two block drivers for the Linux kernel, a pseudorandom
  generator used by a producer/consumer program, and exercises on threads. This development models
  them from the C sources and proves what makes them correct, and where they are not, what they do
  instead. The programs share kernel lists, allocators, transition systems and threads, and so do
  the theories.

  \<^bold>\<open>Shared theories.\<close>
  \<^item> \<open>Prelude\<close>: C integers (\<open>s16\<close>, the 32-bit \<open>unsigned long\<close>), \<open>ALIGN\<close> and masks, the faults that
    models return instead of crashing or looping (\<open>Bug\<close> for a \<open>BUG_ON\<close>, \<open>Hang\<close> for a loop that does not
    end, \<open>Wild\<close> for an access outside its object), reachable states, and the locale
    \<open>invariant_system\<close>.
  \<^item> \<open>Klist\<close>: the circular lists of \<open>linux/list.h\<close> as HOL lists with the list head as an extra node.
  \<^item> \<open>Allocator\<close>: the locale \<open>allocator\<close>, what the clients of an allocator rely on, and its
    consequences: distinct blocks, batches freed in any order, an invariant system of calls.
  \<^item> \<open>Elevator\<close>: the locale \<open>elevator\<close>, what the block layer relies on of a dispatch function; draining.
  \<^item> \<open>Disk\<close>: byte copying with wild accesses, blockwise transformation, the locale \<open>block_device\<close>
    and the reference semantics \<open>serve\<close> of a list of request segments. \<open>Disk_Order\<close>: segments that do
    not overlap can be served in any order.
  \<^item> \<open>Threads\<close>: semaphores (with the overflow of \<open>sem_post\<close> and the timeout) and mutexes, interleaving, the locale \<open>sem_guard\<close> (a binary semaphore gives
    mutual exclusion) and the locale \<open>owicki_gries\<close> (one assertion per thread, no interference), which
    is a sublocale of \<open>invariant_system\<close>.
  \<^item> \<open>Doubles\<close>: rounding of real numbers to the 53 bits of a \<open>double\<close>.

  \<^bold>\<open>The slob allocator\<close>, \<open>assignments/a4/slob.c\<close>. Page memory is a function from unit addresses (2 bytes)
  to 16-bit words, so that free blocks are encoded as in the source; a page is named by its frame
  number; pointers are unit addresses inside the allocator and byte addresses in \<open>kmalloc\<close> and
  \<open>kfree\<close>. The page allocator, NUMA nodes and header constants are the parameter \<open>kconf\<close>; the one law
  assumed of it, \<open>fresh_pages\<close>, is that it hands out pages that are not in use, neither the first nor
  the last of the address space.
  \<^item> \<open>Slob_Block\<close>: \<open>set_slob\<close>, \<open>slob_units\<close>, \<open>slob_next\<close>, \<open>slob_last\<close>; a page's memory encodes a list of
    blocks (\<open>repr\<close>).
  \<^item> \<open>Slob_Page\<close>: the page lists, \<open>slob_page_alloc\<close> and its refinement of first fit (\<open>ff_alloc\<close>).
  \<^item> \<open>Slob_Insert\<close>: the reinsertion part of \<open>slob_free\<close>; it refines a coalescing insertion.
  \<^item> \<open>Slob_Heap\<close>: \<open>slob_alloc\<close> with its best-fit scan and list rotation, \<open>slob_free\<close>.
  \<^item> \<open>Slob_Inv\<close>: the invariant \<open>slob_inv s L\<close> for the set \<open>L\<close> of live blocks: on each slab page the free
    list and the live blocks partition the page, the lists hold the partly free pages once each,
    all counts add up.
  \<^item> \<open>Slob_Bestfit\<close>, \<open>Slob_Alloc\<close>, \<open>Slob_Release\<close>, \<open>Slob_Stats\<close>: what the scan picks, correctness of
    \<open>slob_alloc\<close> and \<open>slob_free\<close>, exactness of the system calls. \<open>Slob_Release\<close> interprets \<open>allocator\<close>.
  \<^item> \<open>Slob_Kmalloc\<close>, \<open>Slob_Cache\<close>: the front ends, each again an interpretation of \<open>allocator\<close>, the
    cache set up at boot and the delayed free of RCU caches.
  \<^item> \<open>Slob_Steps\<close>: several processors in the allocator as a transition system. A step is a section
    under \<open>slob_lock\<close>, a call of the page allocator between two of them, or a read or a write of the
    counter \<open>pages\<close>, which the code updates after it has dropped the lock. \<open>Slob_Examples\<close>, \<open>Slob_Props\<close>:
    concrete states, and the properties of single calls.
  \<^item> \<open>Slob_Race\<close>: the properties under every interleaving: everything but the counter stays consistent,
    no section faults, no page is kept idle; an update of the counter can be lost, and
    \<open>sys_slob_units_used\<close>, which reads it without the lock, can mix two states; with one processor
    the counter is right.
  Pointer loops are partial functions with the value \<open>None\<close> for not returning; that they return on
  consistent states is part of the results. The scan of 50 pages is the source's own bound.

  \<^bold>\<open>The I/O scheduler\<close>, \<open>assignments/a2/sstf-iosched.c\<close>, in \<open>Sstf\<close>: the queue as a kernel list, all
  operations of the elevator table, the insertion loop as a partial function with the word read
  from the list head as a parameter. Shown: no request is lost or sent twice, draining, the
  choice and the turns of \<open>sstf_dispatch\<close>, and exactly where \<open>sstf_add_request\<close> puts a request (not in order) or hangs.

  \<^bold>\<open>The generator\<close>, \<open>assignments/a1/mt19937ar.c\<close>, in \<open>Mersenne\<close>, on 64-bit words as built: seeding,
  in-place regeneration, tempering. \<open>Mersenne_Real\<close> has the functions that return a \<open>double\<close>. Shown: the
  outputs are the tempered recurrence for ever, the ranges of all functions, rounding included, and
  that tempering is a permutation.

  \<^bold>\<open>The block drivers\<close>, \<open>assignments/a3/sbd.c\<close> in \<open>Sbd\<close> and \<open>assignments/a3/ramdisk.c\<close> in \<open>Ramdisk\<close>, with
  their properties in \<open>Disk_Props\<close> and \<open>Disk_Driver\<close>: transfers in 32-bit arithmetic, request functions,
  geometry, loading with module parameters and removal. What the kernel answers (\<open>kernel_answers\<close>) and
  the cipher are parameters, with their documented behaviour as named hypotheses (\<open>vmalloc_law\<close>,
  \<open>register_law\<close>, \<open>in_capacity\<close>, \<open>cipher_ok\<close>, \<open>handle_ok\<close>). Shown: the encrypting driver refines the plain
  one, write/read round trips, a driver loaded with sectors of 512 bytes serves its capacity, and
  the exact behaviour at the edges (other sector sizes, beyond the end, wrap-around, rejected keys,
  foreign requests, fixed major numbers, failure paths).

  \<^bold>\<open>Together.\<close> The last section below puts the I/O scheduler in front of the encrypting driver, as the
  kernel does: reordering by the scheduler cannot be seen on the disk.

  \<^bold>\<open>The philosophers\<close>, \<open>recitations/philosopher.c\<close>, in \<open>Philosopher\<close>, for any number of them: semaphore
  operations interleaved arbitrarily; mutual exclusion, no deadlock, termination.

  \<^bold>\<open>The other thread programs.\<close> A state holds the shared variables and, for each thread, the next
  statement and its local variables; a step is one call of the thread library or one access to
  shared data, so every interleaving of those is covered. A thread that blocks has no step.
  \<^item> \<open>Producer\<close>, \<open>Producer_Props\<close>: \<open>assignments/a1/producer.c\<close> on top of \<open>Mersenne\<close>. The buffer is a stack
    of at most 32 items that no thread indexes out of bounds, no wake-up is lost and there is no
    deadlock. But \<open>main\<close> never starts a second pair of threads, and the consumer may report one item
    and remove another.
  \<^item> \<open>Search_List\<close>, \<open>Search_List_Inv\<close>, \<open>Search_List_Props\<close>: \<open>recitations/concurrency3.c\<close> with an explicit
    heap. The semaphores exclude as meant, and a deleter beside inserters keeps the list well
    formed and every step is a list operation. With the threads that \<open>main\<close> starts, a searcher
    reaches freed memory.
  \<^item> \<open>Barber\<close>, \<open>Barber_Props\<close>: \<open>recitations/concurrency4.c\<close>, with \<open>current++\<close> as a read and a write. The
    count never exceeds the seats; a mutex may stay locked for ever, and a wake-up may be lost.
  \<^item> \<open>Smokers\<close>, \<open>Smokers_Props\<close>: \<open>recitations/concurrency5.cpp\<close>, with the clock and with \<open>SEM_VALUE_MAX\<close>.
    The timeout of the smokers, ten seconds after the epoch, has always passed. No thread is ever
    stuck for good, and the table and its lock are used properly; but smokers make cigarettes from
    nothing, rounds overlap, and items of two rounds are combined and lost.

  \<^bold>\<open>Not modelled.\<close> Output (apart from the traces of the list and the buffer), tracing, lockdep, kmemleak, module
  registration and sleeping have no effect on the modelled state. Spin locks are
  the boundaries of steps. The declarations of \<open>assignments/a4/syscalls.h\<close> and the system call table, the patches (copies of the
  sources), scripts, makefiles and reports have no logic of their own; \<open>concurrency.py\<close> is a Python
  version of the philosophers.
\<close>

subsection \<open>The I/O scheduler in front of a disk\<close>

text \<open>An example of requests: one sector each, with the request number as data, writing if it is even.\<close>

definition io_req :: "request \<Rightarrow> blkreq" where
  "io_req r = \<lparr>br_fs = True, br_segs = [\<lparr>sg_sector = uint (blk_rq_pos r), sg_nsect = 1,
     sg_buffer = replicate 4 (of_nat (rq_id r)), sg_write = even (rq_id r)\<rparr>]\<rparr>"

lemma fs_segs_perm:
  assumes "mset rs = mset qs" shows "mset (fs_segs (map io rs)) = mset (fs_segs (map io qs))"
proof -
  have "mset (map (mset \<circ> br_segs) (filter br_fs (map io rs))) = mset (map (mset \<circ> br_segs) (filter br_fs (map io qs)))"
    using assms by (metis mset_filter mset_map)
  then have "sum_list (map (mset \<circ> br_segs) (filter br_fs (map io rs))) = sum_list (map (mset \<circ> br_segs) (filter br_fs (map io qs)))"
    by (metis sum_mset_sum_list)
  then show ?thesis by (simp add: fs_segs_def mset_concat comp_def)
qed

text \<open>
  C9: The scheduler and the disk together. Whatever requests have been added to the I/O scheduler and
  dispatched so far, in any interleaving and with none merged, once the rest is dispatched the
  encrypting driver serves all of them, in the order of dispatch, as if they had come in the order
  in which they were added: the device ends up with the same bytes, and every segment gets the
  same answer. This holds for requests on the device that do not overlap unless both are reads;
  \<open>io\<close> gives the segments of a request.
\<close>

theorem scheduler_transparent:
  assumes "reach sstf_start sstf_step (q, as, [])" and "q' = ((fst \<circ> sstf_dispatch) ^^ length (queue (elevator_data q))) q"
    and "rd_ok cip key lbs d" and "\<forall>r \<in> set as. br_fs (io r) \<and> br_segs (io r) \<noteq> []"
    and "\<forall>g \<in> set (fs_segs (map io (rev as))). rd_valid lbs d (sg_sector g) (sg_nsect g) \<and> sbd_bytes lbs (sg_nsect g) \<le> length (sg_buffer g)"
    and "all_apart (sbd_bytes lbs) (set (fs_segs (map io (rev as))))"
  shows "\<exists>d'. ramdisk_sbd_request cip key lbs d (map io (dispatched q')) =
      Inr (d', map (answer (sbd_bytes lbs) (rd_plain cip key d)) (fs_segs (map io (dispatched q')))) \<and>
    serve (sbd_bytes lbs) (rd_plain cip key d) (fs_segs (map io (rev as))) =
      (rd_plain cip key d', map (answer (sbd_bytes lbs) (rd_plain cip key d)) (fs_segs (map io (rev as))))"
proof -
  let ?gs = "fs_segs (map io (rev as))" and ?hs = "fs_segs (map io (dispatched q'))" and ?p = "rd_plain cip key d"
  from sstf_run.reach_inv [OF assms(1)] have "mset (queue (elevator_data q)) + mset (dispatched q) = mset as" by simp
  then have m: "mset (dispatched q') = mset (rev as)"
    using sstf_elv.drain [of q] unfolding assms(2) by (auto simp: add.commute)
  note perm = fs_segs_perm [OF m, of io]
  then have sets: "set ?hs = set ?gs" "set (dispatched q') = set as" using m by (metis mset_eq_setD, metis mset_eq_setD set_rev)
  have q: "Sbd.queue_ok (map io (dispatched q'))" "\<forall>r \<in> set (map io (dispatched q')). br_fs r"
    using assms(4) sets(2) by (auto simp: Sbd.queue_ok_def)
  have seg: "\<forall>g \<in> set ?hs. ramdisk.seg_ok lbs d g" using assms(5) sets(1) by (simp add: ramdisk.seg_ok_def)
  from ramdisk_sbd_request_serves [OF assms(3) q seg] obtain d' bs where
    d': "ramdisk_sbd_request cip key lbs d (map io (dispatched q')) = Inr (d', bs)"
    "serve (sbd_bytes lbs) ?p ?hs = (rd_plain cip key d', bs)" by blast
  have "\<forall>g \<in> set ?gs. fits (sbd_bytes lbs) (length ?p) g"
    using assms(5) ramdisk.valid_bytes [OF assms(3)] by (auto simp: fits_def)
  note any = serve_any_order [OF perm this assms(6)]
  show ?thesis using d' any by (intro exI [of _ d']) (auto simp: prod_eq_iff)
qed

theorem scheduler_transparent_witness:
  "\<exists>(q :: sstf_queue) d'. dispatched q = [req 0 1, req 1 3] \<and>
     ramdisk_sbd_request toy_cipher toy_key 4 toy_ramdisk (map io_req (dispatched q)) = Inr (d', [[0, 0, 0, 0], [0x5A, 0x5A, 0x5A, 0x5A]])"
proof -
  let ?q = "\<lambda>xs. \<lparr>elevator_data = \<lparr>queue = xs, direction = CHR ''F'', sector = 0\<rparr>, dispatched = []\<rparr>"
  have 0: "reach sstf_start sstf_step (?q [], [], [])"
    by (rule reach_init) (simp add: sstf_start_def sstf_init_queue_def)
  have 1: "reach sstf_start sstf_step (?q [req 1 3], [req 1 3], [])"
    by (rule reach_step [OF 0 sstf_step.add [where g = 0]]) (simp_all add: sstf_add_request_def klist_add_def)
  have 2: "reach sstf_start sstf_step (?q [req 1 3, req 0 1], [req 0 1, req 1 3], [])"
    by (rule reach_step [OF 1 sstf_step.add [where g = 7]])
       (simp_all add: sstf_add_request_insert sstf_insert_def passed_def req_def word_le_nat_alt)
  define q where "q = ((fst \<circ> sstf_dispatch) ^^ length (queue (elevator_data (?q [req 1 3, req 0 1])))) (?q [req 1 3, req 0 1])"
  have q: "dispatched q = [req 0 1, req 1 3]"
    by (simp add: q_def sstf_dispatch_def klist_prev_def klist_next_def klist_del_def sstf_choose_def req_def word_le_nat_alt Let_def)
  have rep: "replicate 4 x = [x, x, x, x]" for x :: "8 word" by (simp add: numeral_eq_Suc)
  let ?w = "\<lparr>sg_sector = 1, sg_nsect = 1, sg_buffer = [0, 0, 0, 0], sg_write = True\<rparr>"
    and ?r = "\<lparr>sg_sector = 3, sg_nsect = 1, sg_buffer = [1, 1, 1, 1], sg_write = False\<rparr>"
  have segs: "fs_segs (map io_req [req 0 1, req 1 3]) = [?w, ?r]" "fs_segs (map io_req (rev [req 0 1, req 1 3])) = [?r, ?w]"
    by (simp_all add: fs_segs_def io_req_def req_def rep)
  have "take 4 (drop 12 (dev_data toy_sbd)) = replicate 4 0x5A" by (simp add: toy_sbd_def)
  then have ans: "map (answer (sbd_bytes 4) (rd_plain toy_cipher toy_key toy_ramdisk)) [?w, ?r] = [[0, 0, 0, 0], [0x5A, 0x5A, 0x5A, 0x5A]]"
    by (simp add: answer_def sbd_bytes_def toy_plain rep patch_def)
  have p3: "all_apart (sbd_bytes 4) (set [?r, ?w])" by (simp add: all_apart_def apart_def sbd_bytes_def)
  have p1: "\<forall>r \<in> set [req 0 1, req 1 3]. br_fs (io_req r) \<and> br_segs (io_req r) \<noteq> []" by (simp add: io_req_def)
  have p2: "\<forall>g \<in> set [?r, ?w]. rd_valid 4 toy_ramdisk (sg_sector g) (sg_nsect g) \<and>
      sbd_bytes 4 (sg_nsect g) \<le> length (sg_buffer g)" by (simp add: rd_valid_def toy_ramdisk_def sbd_bytes_def)
  note t = scheduler_transparent [OF 2 q_def toy_rd_ok p1, unfolded segs, OF p2 p3, unfolded q segs ans]
  from t obtain d' where "ramdisk_sbd_request toy_cipher toy_key 4 toy_ramdisk (map io_req [req 0 1, req 1 3]) =
      Inr (d', [[0, 0, 0, 0], [0x5A, 0x5A, 0x5A, 0x5A]])" by blast
  then show ?thesis by (intro exI [of _ q] exI [of _ d']) (simp only: q)
qed

end
